(* ===== verification/Xio_Prelude.thy ===== *)
theory Xio_Prelude
  imports Main "HOL-Library.Word" "HOL-Library.Sublist"
begin

text \<open>
  Shared vocabulary of the development: the error type of the model (every undefined
  behaviour and every failed \<^verbatim>\<open>assert\<close> of the C++ sources is a value of type \<open>fault\<close>), the
  sequencing operator of fallible steps, the 64-bit \<^verbatim>\<open>size_t\<close> arithmetic of the target
  platform with its wrap-around written out, the signed reading of \<^verbatim>\<open>ssize_t\<close> and \<^verbatim>\<open>char\<close>,
  and the generic list lemmas that the component theories share.
\<close>

text \<open>
  Two collections: \<open>framed\<close> are the facts that survive an operation which writes elsewhere, \<open>live\<close> those that bound
  the blocks of sound objects.
\<close>

named_theorems framed "what an operation with a given frame keeps"
named_theorems live "the blocks of sound objects were allocated"

section \<open>Faults and fallible computations\<close>

datatype fault =
    NullDeref       \<comment> \<open>access through a null pointer\<close>
  | UseAfterFree    \<comment> \<open>access to, or \<^verbatim>\<open>realloc\<close>/\<^verbatim>\<open>free\<close> of, a block that is not live\<close>
  | OutOfBounds     \<comment> \<open>access outside a live block\<close>
  | Overlap         \<comment> \<open>\<^verbatim>\<open>memcpy\<close> between overlapping regions\<close>
  | AssertFailed    \<comment> \<open>an \<^verbatim>\<open>assert\<close> of the source fails\<close>
  | SignedOverflow  \<comment> \<open>overflow of a signed integer\<close>
  | BadCall         \<comment> \<open>call of an empty \<^verbatim>\<open>std::function\<close>\<close>
  | Uninitialised   \<comment> \<open>use of an object that was never written\<close>

type_synonym 'a res = "fault + 'a"

fun bnd :: "'a res \<Rightarrow> ('a \<Rightarrow> 'b res) \<Rightarrow> 'b res" where
  "bnd (Inl e) f = Inl e"
| "bnd (Inr x) f = f x"

definition assertC :: "bool \<Rightarrow> 'a res \<Rightarrow> 'a res" where
  "assertC c r = (if c then r else Inl AssertFailed)"

lemma bnd_eq_Inr: "bnd r f = Inr y \<longleftrightarrow> (\<exists>x. r = Inr x \<and> f x = Inr y)"
  by (cases r) auto

lemma bnd_eq_Inl: "bnd r f = Inl e \<longleftrightarrow> r = Inl e \<or> (\<exists>x. r = Inr x \<and> f x = Inl e)"
  by (cases r) auto

lemma bnd_InrI: "r = Inr x \<Longrightarrow> f x = Inr y \<Longrightarrow> bnd r f = Inr y"
  by simp

lemma bnd_assoc: "bnd (bnd r f) g = bnd r (\<lambda>x. bnd (f x) g)"
  by (cases r) auto

lemma bnd_cong [fundef_cong]:
  "r = r' \<Longrightarrow> (\<And>x. r' = Inr x \<Longrightarrow> f x = f' x) \<Longrightarrow> bnd r f = bnd r' f'"
  by (cases r') auto

lemma assertC_True [simp]: "c \<Longrightarrow> assertC c r = r"
  by (simp add: assertC_def)

lemma assertC_False [simp]: "\<not> c \<Longrightarrow> assertC c r = Inl AssertFailed"
  by (simp add: assertC_def)

lemma assertC_eq_Inr [simp]: "assertC c r = Inr x \<longleftrightarrow> c \<and> r = Inr x"
  by (simp add: assertC_def)

section \<open>Sizes: 64-bit unsigned arithmetic with wrap-around\<close>

text \<open>
  A \<^verbatim>\<open>size_t\<close> is a natural number below \<open>SIZE_MOD\<close>. Sums and differences of the source
  are \<open>sz_add\<close> and \<open>sz_sub\<close>, which wrap as the machine does; \<open>npos\<close> is \<^verbatim>\<open>size_t(-1)\<close>.
\<close>

abbreviation SIZE_MOD :: nat where
  "SIZE_MOD \<equiv> 18446744073709551616"

definition sz_add :: "nat \<Rightarrow> nat \<Rightarrow> nat" where
  "sz_add a b = (a + b) mod SIZE_MOD"

definition sz_sub :: "nat \<Rightarrow> nat \<Rightarrow> nat" where
  "sz_sub a b = (a + (SIZE_MOD - b mod SIZE_MOD)) mod SIZE_MOD"

definition npos :: nat where
  "npos = 18446744073709551615"

text \<open>Reading a \<^verbatim>\<open>size_t\<close> as \<^verbatim>\<open>ssize_t\<close>: two's complement.\<close>

definition to_ssize :: "nat \<Rightarrow> int" where
  "to_ssize n = (if n < 9223372036854775808 then int n else int n - 18446744073709551616)"

text \<open>Converting an \<^verbatim>\<open>ssize_t\<close> to \<^verbatim>\<open>size_t\<close>.\<close>

definition of_ssize :: "int \<Rightarrow> nat" where
  "of_ssize i = nat (i mod 18446744073709551616)"

lemma sz_add_exact [simp]: "a + b < SIZE_MOD \<Longrightarrow> sz_add a b = a + b"
  by (simp add: sz_add_def)

lemma sz_add_less [simp]: "sz_add a b < SIZE_MOD"
  by (simp add: sz_add_def)

lemma sz_sub_exact [simp]:
  assumes "b \<le> a" "a < SIZE_MOD" shows "sz_sub a b = a - b"
proof -
  have "a + (SIZE_MOD - b) = (a - b) + SIZE_MOD" using assms by simp
  then have "(a + (SIZE_MOD - b)) mod SIZE_MOD = (a - b) mod SIZE_MOD" by simp
  then show ?thesis using assms by (simp add: sz_sub_def)
qed

lemma sz_sub_less [simp]: "sz_sub a b < SIZE_MOD"
  by (simp add: sz_sub_def)

lemma sz_sub_wrap: "a < b \<Longrightarrow> b < SIZE_MOD \<Longrightarrow> sz_sub a b = SIZE_MOD - (b - a)"
  by (simp add: sz_sub_def)

lemma to_ssize_small [simp]: "n < 9223372036854775808 \<Longrightarrow> to_ssize n = int n"
  by (simp add: to_ssize_def)

lemma of_ssize_nonneg [simp]:
  "0 \<le> i \<Longrightarrow> i < 18446744073709551616 \<Longrightarrow> of_ssize i = nat i"
  by (simp add: of_ssize_def)

section \<open>Characters\<close>

text \<open>
  A \<^verbatim>\<open>char\<close> is eight bits; it is signed on the modelled platform (x86-64 Linux), so it
  reads as a number between -128 and 127. The classification functions are those of the
  \<^verbatim>\<open>"C"\<close> locale.
\<close>

definition schar :: "char \<Rightarrow> int" where
  "schar c = (let n = (of_char c :: nat) in if n < 128 then int n else int n - 256)"

definition isspace :: "char \<Rightarrow> bool" where
  "isspace c = (let n = (of_char c :: nat) in n = 32 \<or> (9 \<le> n \<and> n \<le> 13))"

definition isdigit :: "char \<Rightarrow> bool" where
  "isdigit c = (let n = (of_char c :: nat) in 48 \<le> n \<and> n \<le> 57)"

definition isxdigit :: "char \<Rightarrow> bool" where
  "isxdigit c = (let n = (of_char c :: nat)
     in isdigit c \<or> (65 \<le> n \<and> n \<le> 70) \<or> (97 \<le> n \<and> n \<le> 102))"

definition isprint :: "char \<Rightarrow> bool" where
  "isprint c = (let n = (of_char c :: nat) in 32 \<le> n \<and> n \<le> 126)"

definition tolower :: "char \<Rightarrow> char" where
  "tolower c = (let n = (of_char c :: nat) in if 65 \<le> n \<and> n \<le> 90 then char_of (n + 32) else c)"

abbreviation NUL :: char where
  "NUL \<equiv> CHR 0x00"

abbreviation LF :: char where
  "LF \<equiv> CHR 0x0A"

section \<open>Lists\<close>

definition overwrite :: "'a list \<Rightarrow> nat \<Rightarrow> 'a list \<Rightarrow> 'a list" where
  "overwrite xs i ys = take i xs @ ys @ drop (i + length ys) xs"

lemma length_overwrite [simp]: "i + length ys \<le> length xs \<Longrightarrow> length (overwrite xs i ys) = length xs"
  by (simp add: overwrite_def)

lemma take_drop_overwrite_same:
  "i + length ys \<le> length xs \<Longrightarrow> take (length ys) (drop i (overwrite xs i ys)) = ys"
  by (simp add: overwrite_def)

lemma take_drop_overwrite_before:
  "j + n \<le> i \<Longrightarrow> i + length ys \<le> length xs \<Longrightarrow> take n (drop j (overwrite xs i ys)) = take n (drop j xs)"
  by (simp add: overwrite_def drop_take min_absorb1)

lemma take_drop_overwrite_append:
  assumes "j + n = i" "i + length ys \<le> length xs"
  shows "take (n + length ys) (drop j (overwrite xs i ys)) = take n (drop j xs) @ ys"
proof -
  have "take (n + length ys) (drop j (overwrite xs i ys)) =
        take n (drop j (overwrite xs i ys)) @ take (length ys) (drop i (overwrite xs i ys))"
    using assms(1) by (simp add: take_add add.commute)
  then show ?thesis
    using assms by (simp add: take_drop_overwrite_before take_drop_overwrite_same)
qed

end
