(* ===== verification/C_Memory.thy ===== *)
theory C_Memory
  imports Xio_Prelude
begin

text \<open>
  The memory that the buffer classes work on: a heap of blocks with explicit liveness, and
  the C library functions the sources call on it (\<^verbatim>\<open>realloc\<close>, \<^verbatim>\<open>free\<close>, \<^verbatim>\<open>memcpy\<close>, \<^verbatim>\<open>memcmp\<close>,
  \<^verbatim>\<open>memchr\<close>, \<^verbatim>\<open>strncasecmp\<close>). Every access is checked: a null, dangling or out-of-range access
  is a \<open>fault\<close>, so that memory safety of an operation is the statement that it returns \<open>Inr\<close>.

  The decisions of the allocator are part of the heap (\<open>answers\<close>): the \<open>i\<close>-th request of \<open>n\<close>
  bytes is refused, granted at a fresh address, or (for \<^verbatim>\<open>realloc\<close>) granted in place. The bytes
  of a new region are whatever \<open>junk\<close> says. Theorems quantify over both.
\<close>

section \<open>Heap, pointers, checked access\<close>

datatype ptr = Null | Addr nat nat  \<comment> \<open>block and byte offset\<close>

datatype answer = Refuse | InPlace | Fresh

record heap =
  blocks :: "nat \<Rightarrow> char list option"
  next_block :: nat
  answers :: "nat \<Rightarrow> nat \<Rightarrow> answer"
  junk :: "nat \<Rightarrow> char"

definition heap_ok :: "heap \<Rightarrow> bool" where
  "heap_ok h \<longleftrightarrow> (\<forall>k \<ge> next_block h. blocks h k = None)"

fun ptr_add :: "ptr \<Rightarrow> nat \<Rightarrow> ptr" where
  "ptr_add Null n = Null"
| "ptr_add (Addr k off) n = Addr k (off + n)"

fun ptr_block :: "ptr \<Rightarrow> nat set" where
  "ptr_block Null = {}"
| "ptr_block (Addr k off) = {k}"

text \<open>\<open>load h p n\<close>: the \<open>n\<close> bytes at \<open>p\<close>; an access of no bytes touches nothing.\<close>

fun load :: "heap \<Rightarrow> ptr \<Rightarrow> nat \<Rightarrow> char list res" where
  "load h Null n = (if n = 0 then Inr [] else Inl NullDeref)"
| "load h (Addr k off) n =
     (if n = 0 then Inr []
      else case blocks h k of
        None \<Rightarrow> Inl UseAfterFree
      | Some xs \<Rightarrow> if off + n \<le> length xs then Inr (take n (drop off xs)) else Inl OutOfBounds)"

fun store :: "heap \<Rightarrow> ptr \<Rightarrow> char list \<Rightarrow> heap res" where
  "store h Null bs = (if bs = [] then Inr h else Inl NullDeref)"
| "store h (Addr k off) bs =
     (if bs = [] then Inr h
      else case blocks h k of
        None \<Rightarrow> Inl UseAfterFree
      | Some xs \<Rightarrow>
          if off + length bs \<le> length xs
          then Inr (h\<lparr>blocks := (blocks h)(k \<mapsto> overwrite xs off bs)\<rparr>)
          else Inl OutOfBounds)"

definition load1 :: "heap \<Rightarrow> ptr \<Rightarrow> char res" where
  "load1 h p = bnd (load h p 1) (\<lambda>bs. Inr (hd bs))"

text \<open>Abstraction: the bytes at a pointer, empty where they cannot be read.\<close>

definition bytes_at :: "heap \<Rightarrow> ptr \<Rightarrow> nat \<Rightarrow> char list" where
  "bytes_at h p n = (case load h p n of Inl _ \<Rightarrow> [] | Inr bs \<Rightarrow> bs)"

definition readable :: "heap \<Rightarrow> ptr \<Rightarrow> nat \<Rightarrow> bool" where
  "readable h p n \<longleftrightarrow> (\<exists>bs. load h p n = Inr bs)"

text \<open>A heap with one block, whose allocator always grants; used in examples.\<close>

definition one_block :: "char list \<Rightarrow> heap" where
  "one_block bs = \<lparr>blocks = [0 \<mapsto> bs], next_block = 1, answers = (\<lambda>_ _. Fresh), junk = (\<lambda>_. NUL)\<rparr>"

section \<open>The allocator\<close>

definition resize_block :: "(nat \<Rightarrow> char) \<Rightarrow> nat \<Rightarrow> char list \<Rightarrow> char list" where
  "resize_block j n xs = take n xs @ map j [length xs..<n]"

fun free_mem :: "heap \<Rightarrow> ptr \<Rightarrow> heap res" where
  "free_mem h Null = Inr h"
| "free_mem h (Addr k off) =
     (if off = 0 \<and> blocks h k \<noteq> None then Inr (h\<lparr>blocks := (blocks h)(k := None)\<rparr>)
      else Inl UseAfterFree)"

text \<open>
  \<^verbatim>\<open>realloc\<close> as glibc implements it: a null pointer allocates, a size of zero frees and
  returns null, a refused request leaves the old block alone and returns null.
\<close>

fun realloc :: "heap \<Rightarrow> ptr \<Rightarrow> nat \<Rightarrow> (ptr \<times> heap) res" where
  "realloc h Null n =
     (let i = next_block h; h' = h\<lparr>next_block := Suc i\<rparr> in
      if answers h i n = Refuse then Inr (Null, h')
      else Inr (Addr i 0, h'\<lparr>blocks := (blocks h)(i \<mapsto> resize_block (junk h) n [])\<rparr>))"
| "realloc h (Addr k off) n =
     (case (off, blocks h k) of
        (0, Some xs) \<Rightarrow>
          if n = 0 then Inr (Null, h\<lparr>blocks := (blocks h)(k := None)\<rparr>)
          else
            (let i = next_block h; h' = h\<lparr>next_block := Suc i\<rparr> in
             case answers h i n of
               Refuse \<Rightarrow> Inr (Null, h')
             | InPlace \<Rightarrow>
                 Inr (Addr k 0, h'\<lparr>blocks := (blocks h)(k \<mapsto> resize_block (junk h) n xs)\<rparr>)
             | Fresh \<Rightarrow>
                 Inr (Addr i 0, h'\<lparr>blocks := (blocks h)(k := None, i \<mapsto> resize_block (junk h) n xs)\<rparr>))
      | _ \<Rightarrow> Inl UseAfterFree)"

section \<open>Copying and comparing\<close>

text \<open>
  The source of a copy: memory of the heap, or an object that is not part of it (a literal,
  a \<^verbatim>\<open>std::string\<close>, a local array), given by its bytes.
\<close>

datatype source = Heap ptr | Local "char list"

fun fetch :: "heap \<Rightarrow> source \<Rightarrow> nat \<Rightarrow> char list res" where
  "fetch h (Heap p) n = load h p n"
| "fetch h (Local bs) n = (if n \<le> length bs then Inr (take n bs) else Inl OutOfBounds)"

fun overlaps :: "ptr \<Rightarrow> source \<Rightarrow> nat \<Rightarrow> bool" where
  "overlaps (Addr k a) (Heap (Addr k' b)) n \<longleftrightarrow> k = k' \<and> a < b + n \<and> b < a + n"
| "overlaps _ _ n \<longleftrightarrow> False"

definition memcpy :: "heap \<Rightarrow> ptr \<Rightarrow> source \<Rightarrow> nat \<Rightarrow> heap res" where
  "memcpy h dst src n =
     (if overlaps dst src n then Inl Overlap else bnd (fetch h src n) (store h dst))"

text \<open>Blocks that a source lives in.\<close>

fun source_block :: "source \<Rightarrow> nat set" where
  "source_block (Heap p) = ptr_block p"
| "source_block (Local bs) = {}"

definition memcmp_eq :: "heap \<Rightarrow> ptr \<Rightarrow> source \<Rightarrow> nat \<Rightarrow> bool res" where
  "memcmp_eq h p src n = bnd (load h p n) (\<lambda>a. bnd (fetch h src n) (\<lambda>b. Inr (a = b)))"

text \<open>
  \<^verbatim>\<open>strncasecmp\<close> compares at most \<open>n\<close> bytes and stops after a common terminating NUL.
\<close>

fun casecmp_eq :: "char list \<Rightarrow> char list \<Rightarrow> bool" where
  "casecmp_eq (a # as) (b # bs) =
     (tolower a = tolower b \<and> (a = NUL \<or> casecmp_eq as bs))"
| "casecmp_eq _ _ = True"

definition strncasecmp_eq :: "heap \<Rightarrow> ptr \<Rightarrow> source \<Rightarrow> nat \<Rightarrow> bool res" where
  "strncasecmp_eq h p src n =
     bnd (load h p n) (\<lambda>a. bnd (fetch h src n) (\<lambda>b. Inr (casecmp_eq a b)))"

text \<open>
  \<^verbatim>\<open>memchr\<close>: index of the first occurrence among \<open>n\<close> bytes. The bytes are read in order and
  the search stops at a match, so a match before the end of the block is found even where
  not all \<open>n\<close> bytes are readable. \<open>avail\<close> is the number of bytes readable from a pointer.
\<close>

fun avail :: "heap \<Rightarrow> ptr \<Rightarrow> nat" where
  "avail h Null = 0"
| "avail h (Addr k off) = (case blocks h k of None \<Rightarrow> 0 | Some xs \<Rightarrow> length xs - off)"

fun index_of :: "char \<Rightarrow> char list \<Rightarrow> nat option" where
  "index_of c [] = None"
| "index_of c (x # xs) = (if x = c then Some 0 else map_option Suc (index_of c xs))"

definition memchr :: "heap \<Rightarrow> ptr \<Rightarrow> char \<Rightarrow> nat \<Rightarrow> nat option res" where
  "memchr h p c n =
     (let m = min n (avail h p) in
      case index_of c (bytes_at h p m) of
        Some i \<Rightarrow> Inr (Some i)
      | None \<Rightarrow> bnd (load h p n) (\<lambda>_. Inr None))"

section \<open>Laws of checked access\<close>

lemma load_Inr_length: "load h p n = Inr bs \<Longrightarrow> length bs = n"
  by (cases "(h, p, n)" rule: load.cases) (auto split: if_splits option.splits)

lemma load_cong_blocks: "blocks h = blocks h' \<Longrightarrow> load h p n = load h' p n"
  by (cases p) auto

lemma load_0 [simp]: "load h p 0 = Inr []"
  by (cases p) auto

lemma bytes_at_0 [simp]: "bytes_at h p 0 = []"
  by (simp add: bytes_at_def)

lemma readable_0 [simp]: "readable h p 0"
  by (simp add: readable_def)

lemma load_readable: "readable h p n \<Longrightarrow> load h p n = Inr (bytes_at h p n)"
  by (auto simp: readable_def bytes_at_def)

lemma length_bytes_at [simp]: "readable h p n \<Longrightarrow> length (bytes_at h p n) = n"
  by (auto dest: load_readable load_Inr_length)

lemma readable_iff:
  "readable h (Addr k off) n \<longleftrightarrow> n = 0 \<or> (\<exists>xs. blocks h k = Some xs \<and> off + n \<le> length xs)"
  by (auto simp: readable_def split: option.splits)

lemma readable_Null [simp]: "readable h Null n \<longleftrightarrow> n = 0"
  by (simp add: readable_def)

lemma bytes_at_Addr:
  "blocks h k = Some xs \<Longrightarrow> off + n \<le> length xs \<Longrightarrow> bytes_at h (Addr k off) n = take n (drop off xs)"
  by (auto simp: bytes_at_def)

lemma readable_ptr_add:
  "readable h p m \<Longrightarrow> off + n \<le> m \<Longrightarrow> readable h (ptr_add p off) n"
  by (cases p) (auto simp: readable_iff)

lemma bytes_at_ptr_add:
  assumes "readable h p m" "off + n \<le> m"
  shows "bytes_at h (ptr_add p off) n = take n (drop off (bytes_at h p m))"
proof (cases p)
  case Null
  with assms show ?thesis by simp
next
  case (Addr k b)
  show ?thesis
  proof (cases "n = 0")
    case False
    with assms Addr obtain xs where xs: "blocks h k = Some xs" "b + m \<le> length xs"
      by (auto simp: readable_iff)
    have "take n (drop off (take m (drop b xs))) = take n (drop (b + off) xs)"
      using assms(2) by (simp add: drop_take min_def add.commute)
    with xs Addr assms(2) show ?thesis by (simp add: bytes_at_Addr)
  qed simp
qed

lemma bytes_at_take:
  "readable h p m \<Longrightarrow> n \<le> m \<Longrightarrow> bytes_at h p n = take n (bytes_at h p m)"
  using bytes_at_ptr_add [of h p m 0 n] by (cases p) auto

lemma readable_mono: "readable h p m \<Longrightarrow> n \<le> m \<Longrightarrow> readable h p n"
  by (cases p) (auto simp: readable_iff)

lemma ptr_add_0 [simp]: "ptr_add p 0 = p"
  by (cases p) auto

lemma ptr_add_add [simp]: "ptr_add (ptr_add p a) b = ptr_add p (a + b)"
  by (cases p) (auto simp: add.assoc)

lemma ptr_block_add [simp]: "ptr_block (ptr_add p n) = ptr_block p"
  by (cases p) auto

lemma load1_readable:
  assumes "readable h p m" "i < m"
  shows "load1 h (ptr_add p i) = Inr (bytes_at h p m ! i)"
proof -
  have r: "readable h (ptr_add p i) 1" using assms by (auto intro: readable_ptr_add)
  have "bytes_at h (ptr_add p i) 1 = take 1 (drop i (bytes_at h p m))"
    using assms by (intro bytes_at_ptr_add) auto
  moreover have "take 1 (drop i (bytes_at h p m)) = [bytes_at h p m ! i]"
    using assms by (subst Cons_nth_drop_Suc [symmetric]) auto
  ultimately show ?thesis using load_readable [OF r] by (simp add: load1_def)
qed

lemma readable_avail: "readable h p n \<longleftrightarrow> n \<le> avail h p"
  by (cases p) (auto simp: readable_iff split: option.splits)

lemma load1_Inr_avail: "load1 h (ptr_add p i) = Inr c \<Longrightarrow> i < avail h p"
  by (cases p) (auto simp: load1_def bnd_eq_Inr split: if_splits option.splits)

lemma memchr_readable:
  "readable h p n \<Longrightarrow> memchr h p c n = Inr (index_of c (bytes_at h p n))"
  by (auto simp: memchr_def Let_def readable_avail load_readable min_absorb1 split: option.split)

lemma index_of_Some:
  "index_of c xs = Some i \<longleftrightarrow> i < length xs \<and> xs ! i = c \<and> (\<forall>j < i. xs ! j \<noteq> c)"
proof (induction xs arbitrary: i)
  case (Cons x xs)
  show ?case
  proof (cases i)
    case 0
    then show ?thesis by auto
  next
    case (Suc j)
    then show ?thesis by (auto simp: Cons.IH less_Suc_eq_0_disj)
  qed
qed simp

lemma index_of_None: "index_of c xs = None \<longleftrightarrow> c \<notin> set xs"
  by (induction xs) auto

section \<open>Frames: what an operation leaves alone\<close>

text \<open>
  \<open>frame K h h'\<close>: from \<open>h\<close> to \<open>h'\<close>, among the blocks that existed, only those in \<open>K\<close> were
  written or freed; the decisions of the allocator stay what they were.
\<close>

definition frame :: "nat set \<Rightarrow> heap \<Rightarrow> heap \<Rightarrow> bool" where
  "frame K h h' \<longleftrightarrow> next_block h \<le> next_block h' \<and> answers h' = answers h \<and>
     (\<forall>k < next_block h. k \<notin> K \<longrightarrow> blocks h' k = blocks h k)"

lemma frame_refl [simp]: "frame K h h"
  by (simp add: frame_def)

lemma frame_trans: "frame K h h' \<Longrightarrow> frame K h' h'' \<Longrightarrow> frame K h h''"
  by (auto simp: frame_def)

lemma frame_trans_fresh:
  assumes "frame K h h1" "frame L h1 h2" "L \<subseteq> K \<or> L \<inter> {k. k < next_block h} = {}"
  shows "frame K h h2"
  unfolding frame_def
proof (intro conjI allI impI)
  show "next_block h \<le> next_block h2" "answers h2 = answers h"
    using assms(1,2) by (simp_all add: frame_def)
next
  fix k assume k: "k < next_block h" "k \<notin> K"
  then have "k \<notin> L" using assms(3) by blast
  with k assms(1,2) show "blocks h2 k = blocks h k" by (simp add: frame_def)
qed

text \<open>
  \<open>moves K L h h'\<close>: storage in the blocks \<open>K\<close> was replaced by storage in the blocks \<open>L\<close>, which is
  a part of \<open>K\<close> or new, and what is not in \<open>L\<close> was freed if it was in \<open>K\<close> and kept as it was
  otherwise. No block leaks.
\<close>

definition moves :: "nat set \<Rightarrow> nat set \<Rightarrow> heap \<Rightarrow> heap \<Rightarrow> bool" where
  "moves K L h h' \<longleftrightarrow> (L \<subseteq> K \<or> L \<inter> {k. k < next_block h} = {}) \<and>
     (\<forall>k. k \<notin> L \<longrightarrow> blocks h' k = (if k \<in> K then None else blocks h k))"

lemma moves_refl [simp]: "moves K K h h"
  by (simp add: moves_def)

lemma moves_fresh: "moves K L h h' \<Longrightarrow> L \<subseteq> K \<or> L \<inter> {k. k < next_block h} = {}"
  by (simp add: moves_def)

lemma moves_trans:
  assumes "moves K L h h1" "moves L M h1 h2" "heap_ok h" "next_block h \<le> next_block h1"
  shows "moves K M h h2"
  unfolding moves_def
proof (intro conjI allI impI)
  show "M \<subseteq> K \<or> M \<inter> {k. k < next_block h} = {}"
    using assms unfolding moves_def by fastforce
next
  fix k assume "k \<notin> M"
  then have 2: "blocks h2 k = (if k \<in> L then None else blocks h1 k)"
    using assms(2) by (simp add: moves_def)
  show "blocks h2 k = (if k \<in> K then None else blocks h k)"
  proof (cases "k \<in> L")
    case False
    with 2 assms(1) show ?thesis by (simp add: moves_def)
  next
    case True
    then have "blocks h k = None" if "k \<notin> K"
      using that moves_fresh [OF assms(1)] assms(3) by (auto simp: heap_ok_def disjoint_iff)
    with True 2 show ?thesis by simp
  qed
qed

lemma frame_mono: "frame K h h' \<Longrightarrow> K \<subseteq> L \<Longrightarrow> frame L h h'"
  by (auto simp: frame_def)

lemma live_lt_next: "heap_ok h \<Longrightarrow> blocks h k = Some xs \<Longrightarrow> k < next_block h"
  by (force simp: heap_ok_def not_le [symmetric])

lemma load_frame:
  assumes "frame K h h'" "heap_ok h" "ptr_block p \<inter> K = {}" "load h p n = Inr bs"
  shows "load h' p n = Inr bs"
proof (cases p)
  case Null
  with assms show ?thesis by simp
next
  case (Addr k off)
  with assms show ?thesis
    by (auto simp: frame_def dest: live_lt_next split: if_splits option.splits)
qed

lemma readable_frame [framed]:
  "frame K h h' \<Longrightarrow> heap_ok h \<Longrightarrow> ptr_block p \<inter> K = {} \<Longrightarrow> readable h p n \<Longrightarrow> readable h' p n"
  by (auto simp: readable_def dest: load_frame)

lemma bytes_at_frame [framed]:
  assumes "frame K h h'" "heap_ok h" "ptr_block p \<inter> K = {}" "readable h p n"
  shows "bytes_at h' p n = bytes_at h p n"
proof -
  from assms(4) have "load h p n = Inr (bytes_at h p n)" by (rule load_readable)
  then have "load h' p n = Inr (bytes_at h p n)" by (rule load_frame [OF assms(1-3)])
  then show ?thesis by (simp add: bytes_at_def)
qed

lemma fetch_frame:
  assumes "frame K h h'" "heap_ok h" "source_block src \<inter> K = {}" "fetch h src n = Inr bs"
  shows "fetch h' src n = Inr bs"
  using assms by (cases src) (auto dest: load_frame)

lemma fetch_Inr_length: "fetch h src n = Inr bs \<Longrightarrow> length bs = n"
  by (cases src) (auto dest: load_Inr_length split: if_splits)

lemma overlaps_blocks: "ptr_block p \<inter> source_block src = {} \<Longrightarrow> \<not> overlaps p src n"
  by (cases "(p, src, n)" rule: overlaps.cases) auto

section \<open>Laws of stores and of the allocator\<close>

lemma store_ok:
  assumes "readable h p (length bs)"
  shows "\<exists>h'. store h p bs = Inr h'"
  using assms by (cases p) (auto simp: readable_iff split: option.splits)

lemma store_blocks:
  assumes "store h p bs = Inr h'"
  shows "heap_ok h \<Longrightarrow> heap_ok h'" "frame (ptr_block p) h h'"
    "next_block h' = next_block h" "answers h' = answers h" "junk h' = junk h"
    "blocks h' k = None \<longleftrightarrow> blocks h k = None"
    "map_option length (blocks h' k) = map_option length (blocks h k)"
  using assms
  by (cases p; auto simp: heap_ok_def frame_def split: if_splits option.splits)+

lemma moves_store: "store h p bs = Inr h' \<Longrightarrow> moves (ptr_block p) (ptr_block p) h h'"
  by (cases p) (auto simp: moves_def split: if_splits option.splits)

lemma readable_store:
  assumes "store h p bs = Inr h'"
  shows "readable h' q n \<longleftrightarrow> readable h q n"
proof (cases q)
  case Null
  then show ?thesis by simp
next
  case (Addr k off)
  have "map_option length (blocks h' k) = map_option length (blocks h k)"
    using assms by (rule store_blocks)
  then show ?thesis
    unfolding Addr readable_iff
    by (cases "blocks h k"; cases "blocks h' k") auto
qed

lemma bytes_at_store_append:
  assumes st: "store h (ptr_add p n) bs = Inr h'" and rd: "readable h p (n + length bs)"
  shows "bytes_at h' p (n + length bs) = bytes_at h p n @ bs"
proof (cases "bs = []")
  case True
  with st show ?thesis by (cases p) auto
next
  case False
  with rd obtain k off where p: "p = Addr k off" by (cases p) auto
  with rd False obtain xs where xs: "blocks h k = Some xs" "off + (n + length bs) \<le> length xs"
    by (auto simp: readable_iff)
  with st p False have h': "blocks h' k = Some (overwrite xs (off + n) bs)"
    by (auto split: if_splits)
  have "bytes_at h' p (n + length bs) = take (n + length bs) (drop off (overwrite xs (off + n) bs))"
    using h' xs p by (simp add: bytes_at_Addr)
  also have "\<dots> = take n (drop off xs) @ bs"
    using xs by (intro take_drop_overwrite_append) auto
  also have "take n (drop off xs) = bytes_at h p n"
    using xs p by (simp add: bytes_at_Addr)
  finally show ?thesis .
qed

lemma bytes_at_store_same:
  assumes "store h p bs = Inr h'" "readable h p (length bs)"
  shows "bytes_at h' p (length bs) = bs"
  using bytes_at_store_append [of h p 0 bs h'] assms by simp

lemma bytes_at_store_other:
  assumes "store h p bs = Inr h'" "ptr_block q \<inter> ptr_block p = {}"
  shows "bytes_at h' q n = bytes_at h q n"
  using assms by (cases p; cases q; auto simp: bytes_at_def split: if_splits option.splits)

lemma length_resize_block [simp]: "length (resize_block j n xs) = n"
  by (simp add: resize_block_def)

lemma take_resize_block: "m \<le> n \<Longrightarrow> m \<le> length xs \<Longrightarrow> take m (resize_block j n xs) = take m xs"
  by (simp add: resize_block_def min_def)

text \<open>
  A successful or refused \<^verbatim>\<open>realloc\<close> of an owned block: the result is null, or a live block of
  the new size whose common prefix is kept.
\<close>

definition block_at :: "heap \<Rightarrow> ptr \<Rightarrow> nat \<Rightarrow> bool" where
  "block_at h p n \<longleftrightarrow> (\<exists>k xs. p = Addr k 0 \<and> blocks h k = Some xs \<and> length xs = n)"

lemma block_at_readable: "block_at h p n \<Longrightarrow> m \<le> n \<Longrightarrow> readable h p m"
  by (auto simp: block_at_def readable_iff)

lemma block_at_iff:
  "block_at h p n \<longleftrightarrow> (\<exists>k. p = Addr k 0 \<and> map_option length (blocks h k) = Some n)"
  by (auto simp: block_at_def)

lemma block_at_store:
  assumes "store h p bs = Inr h'"
  shows "block_at h' q n \<longleftrightarrow> block_at h q n"
  unfolding block_at_iff store_blocks(7) [OF assms] ..

lemma realloc_Null_cases:
  assumes "realloc h Null n = Inr (p, h')" "heap_ok h"
  shows "heap_ok h'" "frame {} h h'" "answers h' = answers h" "junk h' = junk h"
    "p = Null \<and> blocks h' = blocks h \<or>
       block_at h' p n \<and> ptr_block p \<inter> {k. k < next_block h} = {}"
  using assms by (auto simp: Let_def heap_ok_def frame_def block_at_def split: if_splits)

lemma realloc_total: "block_at h p m \<or> p = Null \<Longrightarrow> \<exists>q h'. realloc h p n = Inr (q, h')"
  by (auto simp: block_at_def Let_def split: answer.splits)

lemma realloc_block_cases:
  assumes "realloc h p n = Inr (q, h')" "heap_ok h" "block_at h p m" "0 < n"
  shows "heap_ok h'" "frame (ptr_block p) h h'" "answers h' = answers h" "junk h' = junk h"
    "q = Null \<and> blocks h' = blocks h \<or>
       block_at h' q n \<and> moves (ptr_block p) (ptr_block q) h h' \<and>
       (\<forall>j. j \<le> m \<longrightarrow> j \<le> n \<longrightarrow> bytes_at h' q j = bytes_at h p j)"
proof -
  from assms(3) obtain k xs where p: "p = Addr k 0" "blocks h k = Some xs" "length xs = m"
    by (auto simp: block_at_def)
  have kn: "k < next_block h" using live_lt_next [OF assms(2) p(2)] .
  show "heap_ok h'" "frame (ptr_block p) h h'" "answers h' = answers h" "junk h' = junk h"
    using assms(1,2,4) p kn
    by (auto simp: Let_def heap_ok_def frame_def split: answer.splits)
  show "q = Null \<and> blocks h' = blocks h \<or>
       block_at h' q n \<and> moves (ptr_block p) (ptr_block q) h h' \<and>
       (\<forall>j. j \<le> m \<longrightarrow> j \<le> n \<longrightarrow> bytes_at h' q j = bytes_at h p j)"
    using assms(1,4) p kn
    by (auto simp: Let_def block_at_def bytes_at_Addr take_resize_block moves_def split: answer.splits)
qed

lemma free_block:
  assumes "block_at h p m" "heap_ok h"
  shows "\<exists>h'. free_mem h p = Inr h' \<and> heap_ok h' \<and> frame (ptr_block p) h h' \<and>
    moves (ptr_block p) {} h h'"
  using assms by (auto simp: block_at_def heap_ok_def frame_def moves_def)

end
