(* ===== verification/Buffer_Base.thy ===== *)
theory Buffer_Base
  imports C_Memory
begin

text \<open>
  The read-only operations of \<^verbatim>\<open>BufferBase<T>\<close> and \<^verbatim>\<open>BufferRef\<close> (\<^verbatim>\<open>include/xio/Buffer.h\<close>): a view is a
  pointer and a size, the operations search, compare, cut and parse the bytes it covers.
  \<open>view h r\<close> is the abstract value of a view, \<open>ref_ok h r\<close> says that it lies in live memory.
  Operations that scan the whole view (\<open>toInt\<close>, \<open>hex\<close>, \<open>hash\<close>, comparisons) read it in one
  checked access; the searches read byte by byte, because they may leave the view.
\<close>

section \<open>Views\<close>

record bufref =
  b_data :: ptr
  b_size :: nat

definition mk_ref :: "ptr \<Rightarrow> nat \<Rightarrow> bufref" where
  "mk_ref p n = \<lparr>b_data = p, b_size = n\<rparr>"

definition ref_ok :: "heap \<Rightarrow> 'a bufref_scheme \<Rightarrow> bool" where
  "ref_ok h r \<longleftrightarrow> b_size r < SIZE_MOD \<and> readable h (b_data r) (b_size r)"

definition view :: "heap \<Rightarrow> 'a bufref_scheme \<Rightarrow> char list" where
  "view h r = bytes_at h (b_data r) (b_size r)"

definition bempty :: "'a bufref_scheme \<Rightarrow> bool" where
  "bempty r \<longleftrightarrow> b_size r = 0"

definition clear :: "'a bufref_scheme \<Rightarrow> 'a bufref_scheme" where
  "clear r = r\<lparr>b_size := 0\<rparr>"

definition at :: "heap \<Rightarrow> 'a bufref_scheme \<Rightarrow> nat \<Rightarrow> char res" where
  "at h r off = load1 h (ptr_add (b_data r) off)"

text \<open>
  \<^verbatim>\<open>contains\<close> compares addresses. Where the allocator has put the blocks is a parameter:
  \<open>base k\<close> is the address of block \<open>k\<close>.
\<close>

fun addr_of :: "(nat \<Rightarrow> nat) \<Rightarrow> ptr \<Rightarrow> nat" where
  "addr_of base Null = 0"
| "addr_of base (Addr k off) = base k + off"

definition contains :: "(nat \<Rightarrow> nat) \<Rightarrow> 'a bufref_scheme \<Rightarrow> 'b bufref_scheme \<Rightarrow> bool" where
  "contains base self r \<longleftrightarrow>
     addr_of base (b_data self) \<le> addr_of base (b_data r) \<and>
     addr_of base (b_data r) + b_size r \<le> addr_of base (b_data self) + b_size self"

section \<open>Searching\<close>

text \<open>
  A C array argument is the list of its elements, the terminating NUL included;
  \<open>elem a j\<close> is the checked access to its \<open>j\<close>-th element.
\<close>

definition elem :: "char list \<Rightarrow> nat \<Rightarrow> char res" where
  "elem a j = (if j < length a then Inr (a ! j) else Inl OutOfBounds)"

definition strlen :: "char list \<Rightarrow> nat" where
  "strlen a = length (takeWhile (\<lambda>c. c \<noteq> NUL) a)"

text \<open>Conversion of a value to \<^verbatim>\<open>int\<close>: 32 bits, two's complement.\<close>

definition s32 :: "int \<Rightarrow> int" where
  "s32 i = (let m = i mod 4294967296 in if m < 2147483648 then m else m - 4294967296)"

text \<open>
  The inner loop of the substring search: \<open>p\<close> is \<^verbatim>\<open>i + j\<close>, \<open>q\<close> is \<^verbatim>\<open>value + j\<close>, \<open>len\<close> is
  \<^verbatim>\<open>qe - i\<close>. Both bytes are read before \<^verbatim>\<open>p != qe\<close> is tested.
\<close>

function find_match :: "heap \<Rightarrow> ptr \<Rightarrow> char list \<Rightarrow> int \<Rightarrow> nat \<Rightarrow> bool res" where
  "find_match h p a len j =
     bnd (load1 h (ptr_add p j)) (\<lambda>x. bnd (elem a j) (\<lambda>y.
       if x = y \<and> int j \<noteq> len then find_match h p a len (Suc j) else Inr (int j = len)))"
  by pat_completeness auto
termination
  by (relation "measure (\<lambda>(h, p, a, len, j). length a - j)") (auto simp: elem_def split: if_splits)

declare find_match.simps [simp del]

text \<open>The outer loop, from \<open>i\<close> to the end \<open>e\<close> of the view.\<close>

function find_loop :: "heap \<Rightarrow> ptr \<Rightarrow> nat \<Rightarrow> char list \<Rightarrow> int \<Rightarrow> nat \<Rightarrow> nat res" where
  "find_loop h p e a len i =
     (if i = e then Inr npos
      else bnd (load1 h (ptr_add p i)) (\<lambda>x. bnd (elem a 0) (\<lambda>y.
        bnd (if x = y then find_match h (ptr_add p i) a len 1 else Inr False) (\<lambda>found.
          if found then Inr i else find_loop h p e a len (Suc i)))))"
  by pat_completeness auto
termination
  by (relation "measure (\<lambda>(h, p, e, a, len, i). avail h p - i)") (auto dest: load1_Inr_avail)

declare find_loop.simps [simp del]

definition find_cstr :: "heap \<Rightarrow> 'a bufref_scheme \<Rightarrow> char list \<Rightarrow> nat \<Rightarrow> nat res" where
  "find_cstr h r a off = find_loop h (b_data r) (b_size r) a (s32 (int (strlen a))) off"

definition find_array :: "heap \<Rightarrow> 'a bufref_scheme \<Rightarrow> char list \<Rightarrow> nat \<Rightarrow> nat res" where
  "find_array h r a off = find_loop h (b_data r) (b_size r) a (int (length a) - 1) off"

definition find_char :: "heap \<Rightarrow> 'a bufref_scheme \<Rightarrow> char \<Rightarrow> nat \<Rightarrow> nat res" where
  "find_char h r c off =
     bnd (memchr h (ptr_add (b_data r) off) c (sz_sub (b_size r) off))
       (\<lambda>m. Inr (case m of Some i \<Rightarrow> off + i | None \<Rightarrow> npos))"

definition rfind_cstr :: "heap \<Rightarrow> 'a bufref_scheme \<Rightarrow> char list \<Rightarrow> nat res" where
  "rfind_cstr h r a = Inl AssertFailed"

fun rfind_loop :: "heap \<Rightarrow> ptr \<Rightarrow> char \<Rightarrow> nat \<Rightarrow> nat res" where
  "rfind_loop h p c 0 = bnd (load1 h p) (\<lambda>x. if x = c then Inr 0 else Inr npos)"
| "rfind_loop h p c (Suc q) =
     bnd (load1 h (ptr_add p (Suc q))) (\<lambda>x. if x = c then Inr (Suc q) else rfind_loop h p c q)"

definition rfind_char_from :: "heap \<Rightarrow> 'a bufref_scheme \<Rightarrow> char \<Rightarrow> nat \<Rightarrow> nat res" where
  "rfind_char_from h r c off = (if bempty r then Inr npos else rfind_loop h (b_data r) c off)"

definition rfind_char :: "heap \<Rightarrow> 'a bufref_scheme \<Rightarrow> char \<Rightarrow> nat res" where
  "rfind_char h r c = rfind_char_from h r c (sz_sub (b_size r) 1)"

text \<open>
  The array version of \<^verbatim>\<open>rfind\<close>: the comparison loop runs while \<^verbatim>\<open>n < N - 2\<close> (unsigned), the
  outer loop runs \<open>i\<close> down from \<^verbatim>\<open>end()\<close> to \<^verbatim>\<open>begin() + (N - 1)\<close>, here \<open>d\<close> steps above it.
\<close>

function rfind_array_cmp :: "heap \<Rightarrow> ptr \<Rightarrow> char list \<Rightarrow> nat \<Rightarrow> bool res" where
  "rfind_array_cmp h p a n =
     (if n < sz_sub (length a) 2
      then bnd (load1 h (ptr_add p n)) (\<lambda>x. bnd (elem a n) (\<lambda>y.
             if x \<noteq> y then Inr False else rfind_array_cmp h p a (Suc n)))
      else Inr True)"
  by pat_completeness auto
termination
  by (relation "measure (\<lambda>(h, p, a, n). length a - n)") (auto simp: elem_def split: if_splits)

declare rfind_array_cmp.simps [simp del]

fun rfind_array_loop :: "heap \<Rightarrow> ptr \<Rightarrow> char list \<Rightarrow> nat \<Rightarrow> nat res" where
  "rfind_array_loop h p a 0 = Inr npos"
| "rfind_array_loop h p a (Suc d) =
     (let i = length a - 1 + Suc d in
      bnd (load1 h (ptr_add p i)) (\<lambda>x. bnd (elem a (length a - 1)) (\<lambda>y.
        bnd (if x = y then rfind_array_cmp h (ptr_add p i) a 0 else Inr False) (\<lambda>found.
          if found then Inr i else rfind_array_loop h p a d))))"

definition rfind_array :: "heap \<Rightarrow> 'a bufref_scheme \<Rightarrow> char list \<Rightarrow> nat res" where
  "rfind_array h r a =
     (if bempty r then Inr npos
      else if b_size r < length a - 1 then Inr npos
      else rfind_array_loop h (b_data r) a (b_size r - (length a - 1)))"

section \<open>Sub-views\<close>

definition ref_from :: "'a bufref_scheme \<Rightarrow> nat \<Rightarrow> bufref res" where
  "ref_from r off =
     assertC (off \<le> b_size r) (Inr (mk_ref (ptr_add (b_data r) off) (sz_sub (b_size r) off)))"

definition ref_sub :: "'a bufref_scheme \<Rightarrow> nat \<Rightarrow> nat \<Rightarrow> bufref res" where
  "ref_sub r off count =
     assertC (off \<le> b_size r) (assertC (count = npos \<or> sz_add off count \<le> b_size r)
       (Inr (if count \<noteq> npos then mk_ref (ptr_add (b_data r) off) count
             else mk_ref (ptr_add (b_data r) off) (sz_sub (b_size r) off))))"

definition split_char :: "heap \<Rightarrow> 'a bufref_scheme \<Rightarrow> char \<Rightarrow> (bufref \<times> bufref) res" where
  "split_char h r delim =
     bnd (find_char h r delim 0) (\<lambda>i.
       if i = npos then bnd (ref_from r 0) (\<lambda>a. Inr (a, mk_ref Null 0))
       else bnd (ref_sub r 0 i) (\<lambda>a. bnd (ref_sub r (sz_add i 1) npos) (\<lambda>b. Inr (a, b))))"

definition split_cstr :: "heap \<Rightarrow> 'a bufref_scheme \<Rightarrow> char list \<Rightarrow> (bufref \<times> bufref) res" where
  "split_cstr h r delim =
     bnd (find_cstr h r delim 0) (\<lambda>i.
       if i = npos then bnd (ref_from r 0) (\<lambda>a. Inr (a, mk_ref Null 0))
       else bnd (ref_sub r 0 i) (\<lambda>a.
         bnd (ref_sub r (sz_add i (strlen delim)) npos) (\<lambda>b. Inr (a, b))))"

definition begins_char :: "heap \<Rightarrow> 'a bufref_scheme \<Rightarrow> char \<Rightarrow> bool res" where
  "begins_char h r c = (if 1 \<le> b_size r then bnd (load1 h (b_data r)) (\<lambda>x. Inr (x = c)) else Inr False)"

definition ends_char :: "heap \<Rightarrow> 'a bufref_scheme \<Rightarrow> char \<Rightarrow> bool res" where
  "ends_char h r c =
     (if 1 \<le> b_size r then bnd (load1 h (ptr_add (b_data r) (b_size r - 1))) (\<lambda>x. Inr (x = c))
      else Inr False)"

definition begins :: "heap \<Rightarrow> 'a bufref_scheme \<Rightarrow> 'b bufref_scheme \<Rightarrow> bool res" where
  "begins h r v =
     (if b_size v \<le> b_size r then memcmp_eq h (b_data r) (Heap (b_data v)) (b_size v) else Inr False)"

text \<open>A \<^verbatim>\<open>const char*\<close> that may be null is an option.\<close>

definition begins_cstr :: "heap \<Rightarrow> 'a bufref_scheme \<Rightarrow> char list option \<Rightarrow> bool res" where
  "begins_cstr h r v =
     (case v of None \<Rightarrow> Inr True
      | Some a \<Rightarrow>
          if strlen a \<le> b_size r then memcmp_eq h (b_data r) (Local a) (strlen a) else Inr False)"

definition begins_string :: "heap \<Rightarrow> 'a bufref_scheme \<Rightarrow> string \<Rightarrow> bool res" where
  "begins_string h r s =
     (if s = [] then Inr True
      else if length s \<le> b_size r then memcmp_eq h (b_data r) (Local s) (length s) else Inr False)"

definition ends :: "heap \<Rightarrow> 'a bufref_scheme \<Rightarrow> 'b bufref_scheme \<Rightarrow> bool res" where
  "ends h r v =
     (if bempty v then Inr True
      else if b_size r < b_size v then Inr False
      else memcmp_eq h (ptr_add (b_data r) (b_size r - b_size v)) (Heap (b_data v)) (b_size v))"

definition ends_cstr :: "heap \<Rightarrow> 'a bufref_scheme \<Rightarrow> char list option \<Rightarrow> bool res" where
  "ends_cstr h r v =
     (case v of None \<Rightarrow> Inr True
      | Some a \<Rightarrow>
          if b_size r < strlen a then Inr False
          else memcmp_eq h (ptr_add (b_data r) (b_size r - strlen a)) (Local a) (strlen a))"

definition chomp :: "heap \<Rightarrow> 'a bufref_scheme \<Rightarrow> bufref res" where
  "chomp h r =
     bnd (ends_char h r LF) (\<lambda>nl.
       if nl then ref_sub r 0 (sz_sub (b_size r) 1) else ref_sub r 0 (b_size r))"

function trim_left :: "heap \<Rightarrow> 'a bufref_scheme \<Rightarrow> nat \<Rightarrow> nat res" where
  "trim_left h r left =
     (if left < b_size r
      then bnd (at h r left) (\<lambda>c. if isspace c then trim_left h r (Suc left) else Inr left)
      else Inr left)"
  by pat_completeness auto
termination
  by (relation "measure (\<lambda>(h, r, left). b_size r - left)") auto

declare trim_left.simps [simp del]

fun trim_right :: "heap \<Rightarrow> 'a bufref_scheme \<Rightarrow> nat \<Rightarrow> nat res" where
  "trim_right h r 0 = Inr 0"
| "trim_right h r (Suc right) =
     bnd (at h r (Suc right)) (\<lambda>c. if isspace c then trim_right h r right else Inr (Suc right))"

definition trim :: "heap \<Rightarrow> 'a bufref_scheme \<Rightarrow> bufref res" where
  "trim h r =
     bnd (trim_left h r 0) (\<lambda>left. bnd (trim_right h r (sz_sub (b_size r) 1)) (\<lambda>right.
       ref_sub r left (sz_sub (sz_add 1 right) left)))"

definition substr_from :: "heap \<Rightarrow> 'a bufref_scheme \<Rightarrow> nat \<Rightarrow> string res" where
  "substr_from h r off =
     assertC (off \<le> b_size r) (let count = b_size r - off in
       if count \<noteq> 0 then load h (ptr_add (b_data r) off) count else Inr [])"

definition substr :: "heap \<Rightarrow> 'a bufref_scheme \<Rightarrow> nat \<Rightarrow> nat \<Rightarrow> string res" where
  "substr h r off count =
     assertC (sz_add off count \<le> b_size r)
       (if count \<noteq> 0 then load h (ptr_add (b_data r) off) count else Inr [])"

definition str :: "heap \<Rightarrow> 'a bufref_scheme \<Rightarrow> string res" where
  "str h r = substr_from h r 0"

section \<open>Comparison\<close>

text \<open>The flag \<open>same\<close> is the test \<^verbatim>\<open>&a == &b\<close> on the two objects.\<close>

definition equals :: "heap \<Rightarrow> bool \<Rightarrow> 'a bufref_scheme \<Rightarrow> 'b bufref_scheme \<Rightarrow> bool res" where
  "equals h same a b =
     (if same then Inr True
      else if b_size a \<noteq> b_size b then Inr False
      else memcmp_eq h (b_data a) (Heap (b_data b)) (b_size a))"

definition equals_array :: "heap \<Rightarrow> 'a bufref_scheme \<Rightarrow> char list \<Rightarrow> bool res" where
  "equals_array h a b =
     (let bsize = length b - 1 in
      if b_size a \<noteq> bsize then Inr False else memcmp_eq h (b_data a) (Local b) bsize)"

definition equals_string :: "heap \<Rightarrow> 'a bufref_scheme \<Rightarrow> string \<Rightarrow> bool res" where
  "equals_string h a b =
     (if b_size a \<noteq> length b then Inr False else memcmp_eq h (b_data a) (Local b) (length b))"

definition iequals :: "heap \<Rightarrow> bool \<Rightarrow> 'a bufref_scheme \<Rightarrow> 'b bufref_scheme \<Rightarrow> bool res" where
  "iequals h same a b =
     (if same then Inr True
      else if b_size a \<noteq> b_size b then Inr False
      else strncasecmp_eq h (b_data a) (Heap (b_data b)) (b_size a))"

definition iequals_array :: "heap \<Rightarrow> 'a bufref_scheme \<Rightarrow> char list \<Rightarrow> bool res" where
  "iequals_array h a b =
     (let bsize = length b - 1 in
      if b_size a \<noteq> bsize then Inr False else strncasecmp_eq h (b_data a) (Local b) bsize)"

definition iequals_string :: "heap \<Rightarrow> 'a bufref_scheme \<Rightarrow> string \<Rightarrow> bool res" where
  "iequals_string h a b =
     (if b_size a \<noteq> length b then Inr False else strncasecmp_eq h (b_data a) (Local b) (length b))"

section \<open>Numbers and hashing\<close>

text \<open>\<^verbatim>\<open>hex<U>()\<close> for an unsigned \<open>U\<close> of any width.\<close>

fun hex_loop :: "'w::len word \<Rightarrow> char list \<Rightarrow> 'w word" where
  "hex_loop val [] = val"
| "hex_loop val (c # cs) =
     (if \<not> isxdigit c then val
      else let val' = (if val \<noteq> 0 then val * 16 else val);
               digit = (if isdigit c then schar c - 48
                        else if 97 \<le> schar c \<and> schar c \<le> 102 then 10 + schar c - 97
                        else 10 + schar c - 65)
           in hex_loop (val' + word_of_int digit) cs)"

definition hex :: "heap \<Rightarrow> 'a bufref_scheme \<Rightarrow> 'w::len word res" where
  "hex h r = (if bempty r then Inr 0 else bnd (load h (b_data r) (b_size r)) (\<lambda>cs. Inr (hex_loop 0 cs)))"

definition toBool :: "heap \<Rightarrow> 'a bufref_scheme \<Rightarrow> bool res" where
  "toBool h r =
     bnd (iequals_array h r (''true'' @ [NUL])) (\<lambda>t. if t then Inr True
       else bnd (equals_array h r (''1'' @ [NUL])) (\<lambda>e. if e then Inr True else Inr False))"

text \<open>Signed 32-bit results: leaving the range of \<^verbatim>\<open>int\<close> is undefined.\<close>

definition int_chk :: "int \<Rightarrow> int res" where
  "int_chk i = (if - 2147483648 \<le> i \<and> i \<le> 2147483647 then Inr i else Inl SignedOverflow)"

fun toInt_loop :: "int \<Rightarrow> char list \<Rightarrow> int res" where
  "toInt_loop val [] = Inr val"
| "toInt_loop val (c # cs) =
     (if schar c < 48 \<or> 57 < schar c then Inr val
      else bnd (if val \<noteq> 0 then int_chk (val * 10) else Inr val) (\<lambda>v.
        bnd (int_chk (v + (schar c - 48))) (\<lambda>v'. toInt_loop v' cs)))"

definition toInt_chars :: "char list \<Rightarrow> int res" where
  "toInt_chars cs =
     (case cs of
        [] \<Rightarrow> Inr 0
      | c # rest \<Rightarrow>
          if c = CHR ''-'' then
            (if rest = [] then Inr 0 else bnd (toInt_loop 0 rest) (\<lambda>v. int_chk (- v)))
          else if c = CHR ''+'' then
            (if rest = [] then Inr 0 else toInt_loop 0 rest)
          else toInt_loop 0 cs)"

definition toInt :: "heap \<Rightarrow> 'a bufref_scheme \<Rightarrow> int res" where
  "toInt h r = (if b_size r = 0 then Inr 0 else bnd (load h (b_data r) (b_size r)) toInt_chars)"

unbundle bit_operations_syntax

fun hash_loop :: "32 word \<Rightarrow> char list \<Rightarrow> 32 word" where
  "hash_loop result [] = result"
| "hash_loop result (c # cs) = hash_loop ((result XOR word_of_int (schar c)) * 16777619) cs"

definition hash :: "heap \<Rightarrow> 'a bufref_scheme \<Rightarrow> 32 word res" where
  "hash h r = bnd (load h (b_data r) (b_size r)) (\<lambda>cs. Inr (hash_loop 2166136261 cs))"

section \<open>Reference definitions\<close>

text \<open>
  What the operations are measured against: the first position of a list at which \<open>needle\<close>
  stands in \<open>mem\<close>, a list without its leading and trailing white space, and the decimal
  notation that \<^verbatim>\<open>snprintf\<close> prints for \<^verbatim>\<open>%d\<close> and its kin.
\<close>

definition first_match :: "char list \<Rightarrow> char list \<Rightarrow> nat list \<Rightarrow> nat" where
  "first_match needle mem is =
     (case List.find (\<lambda>i. take (length needle) (drop i mem) = needle) is of Some i \<Rightarrow> i | None \<Rightarrow> npos)"

definition strip :: "char list \<Rightarrow> char list" where
  "strip cs = rev (dropWhile isspace (rev (dropWhile isspace cs)))"

definition digit_char :: "nat \<Rightarrow> char" where
  "digit_char d = char_of (48 + d)"

fun show_nat :: "nat \<Rightarrow> string" where
  "show_nat n = (if n < 10 then [digit_char n] else show_nat (n div 10) @ [digit_char (n mod 10)])"

declare show_nat.simps [simp del]

definition show_int :: "int \<Rightarrow> string" where
  "show_int i = (if i < 0 then CHR ''-'' # show_nat (nat (- i)) else show_nat (nat i))"

section \<open>Laws of the substring search\<close>


lemma at_view: "ref_ok h r \<Longrightarrow> i < b_size r \<Longrightarrow> at h r i = Inr (view h r ! i)"
  by (simp add: at_def ref_ok_def view_def load1_readable)

lemma length_view [simp]: "ref_ok h r \<Longrightarrow> length (view h r) = b_size r"
  by (simp add: ref_ok_def view_def)

lemma load_view: "ref_ok h r \<Longrightarrow> load h (b_data r) (b_size r) = Inr (view h r)"
  by (simp add: ref_ok_def view_def load_readable)

lemma find_match_eq:
  assumes "readable h p (Suc n)" "n < length a" "j \<le> n"
  shows "find_match h p a (int n) j =
    Inr (\<forall>t. j \<le> t \<and> t < n \<longrightarrow> bytes_at h p (Suc n) ! t = a ! t)"
  using assms(3)
proof (induction "n - j" arbitrary: j)
  case 0
  then have "j = n" by simp
  moreover have "find_match h p a (int n) n = Inr True"
    using assms by (simp add: find_match.simps [of h p a "int n" n] load1_readable [OF assms(1)] elem_def)
  ultimately show ?case by auto
next
  case (Suc d)
  then have j: "j < n" by simp
  show ?case
  proof (cases "bytes_at h p (Suc n) ! j = a ! j")
    case True
    have "find_match h p a (int n) j = find_match h p a (int n) (Suc j)"
      using True j assms
      by (simp add: find_match.simps [of h p a "int n" j] load1_readable [OF assms(1)] elem_def)
    also have "\<dots> = Inr (\<forall>t. Suc j \<le> t \<and> t < n \<longrightarrow> bytes_at h p (Suc n) ! t = a ! t)"
      using Suc(2) j by (intro Suc(1)) auto
    also have "(\<forall>t. Suc j \<le> t \<and> t < n \<longrightarrow> bytes_at h p (Suc n) ! t = a ! t) \<longleftrightarrow>
               (\<forall>t. j \<le> t \<and> t < n \<longrightarrow> bytes_at h p (Suc n) ! t = a ! t)"
      using True by (metis Suc_leI le_neq_implies_less less_imp_le_nat le_trans lessI)
    finally show ?thesis .
  next
    case False
    then have "find_match h p a (int n) j = Inr False"
      using j assms
      by (simp add: find_match.simps [of h p a "int n" j] load1_readable [OF assms(1)] elem_def)
    with False j show ?thesis by auto
  qed
qed

lemma nth_eq_take:
  assumes "n \<le> length xs" "n \<le> length a"
  shows "(\<forall>t < n. xs ! t = a ! t) \<longleftrightarrow> take n xs = take n a"
proof
  assume "\<forall>t < n. xs ! t = a ! t"
  then show "take n xs = take n a"
    using assms by (intro nth_equalityI) auto
next
  assume eq: "take n xs = take n a"
  show "\<forall>t < n. xs ! t = a ! t"
  proof (intro allI impI)
    fix t assume "t < n"
    then show "xs ! t = a ! t" by (metis eq nth_take)
  qed
qed

lemma find_step:
  assumes rd: "readable h p (e + n)" and i: "i < e" and n: "0 < n" "n < length a"
  shows "bnd (load1 h (ptr_add p i)) (\<lambda>x. bnd (elem a 0) (\<lambda>y.
        if x = y then find_match h (ptr_add p i) a (int n) 1 else Inr False)) =
      Inr (take n (drop i (bytes_at h p (e + n))) = take n a)"
proof -
  let ?mem = "bytes_at h p (e + n)"
  let ?loc = "bytes_at h (ptr_add p i) (Suc n)"
  have loc: "?loc = take (Suc n) (drop i ?mem)"
    using rd i by (intro bytes_at_ptr_add) auto
  have rd': "readable h (ptr_add p i) (Suc n)"
    using rd i by (intro readable_ptr_add) auto
  have l1: "load1 h (ptr_add p i) = Inr (?loc ! 0)"
    using load1_readable [OF rd', of 0] by simp
  have m: "find_match h (ptr_add p i) a (int n) (Suc 0) =
      Inr (\<forall>t. Suc 0 \<le> t \<and> t < n \<longrightarrow> ?loc ! t = a ! t)"
    using n by (intro find_match_eq [OF rd']) auto
  have "(?loc ! 0 = a ! 0 \<and> (\<forall>t. Suc 0 \<le> t \<and> t < n \<longrightarrow> ?loc ! t = a ! t)) \<longleftrightarrow> (\<forall>t < n. ?loc ! t = a ! t)"
    using n by (metis Suc_leI gr0I)
  also have "\<dots> \<longleftrightarrow> take n ?loc = take n a"
    using n rd' by (intro nth_eq_take) auto
  also have "take n ?loc = take n (drop i ?mem)"
    unfolding loc by simp
  finally have "(?loc ! 0 = a ! 0 \<and> (\<forall>t. Suc 0 \<le> t \<and> t < n \<longrightarrow> ?loc ! t = a ! t)) \<longleftrightarrow>
    take n (drop i ?mem) = take n a" .
  then show ?thesis
    using n by (auto simp: l1 m elem_def)
qed

lemma find_loop_eq:
  assumes rd: "readable h p (e + n)" and n: "0 < n" "n < length a" and i: "i \<le> e"
  shows "find_loop h p e a (int n) i =
    Inr (first_match (take n a) (bytes_at h p (e + n)) [i..<e])"
  using i
proof (induction "e - i" arbitrary: i)
  case 0
  then show ?case by (simp add: find_loop.simps first_match_def)
next
  case (Suc d)
  then have i: "i < e" by simp
  let ?m = "take n (drop i (bytes_at h p (e + n))) = take n a"
  have len: "length (take n a) = n" using n by simp
  have up: "[i..<e] = i # [Suc i..<e]" using i by (simp add: upt_rec)
  have IH: "find_loop h p e a (int n) (Suc i) =
    Inr (first_match (take n a) (bytes_at h p (e + n)) [Suc i..<e])"
    using Suc(2) i by (intro Suc(1)) auto
  have "find_loop h p e a (int n) i = (if ?m then Inr i else find_loop h p e a (int n) (Suc i))"
  proof -
    have "find_loop h p e a (int n) i =
      bnd (bnd (load1 h (ptr_add p i)) (\<lambda>x. bnd (elem a 0) (\<lambda>y.
        if x = y then find_match h (ptr_add p i) a (int n) 1 else Inr False)))
        (\<lambda>found. if found then Inr i else find_loop h p e a (int n) (Suc i))"
      using i by (subst find_loop.simps) (simp add: bnd_assoc)
    then show ?thesis unfolding find_step [OF rd i n] by simp
  qed
  then show ?case
    unfolding up first_match_def using IH len by (simp add: first_match_def)
qed

lemma s32_id: "0 \<le> i \<Longrightarrow> i < 2147483648 \<Longrightarrow> s32 i = i"
  by (simp add: s32_def Let_def)

lemma strlen_append: "NUL \<notin> set w \<Longrightarrow> strlen (w @ NUL # rest) = length w"
  by (simp add: strlen_def takeWhile_append takeWhile_eq_all_conv)

section \<open>Laws of sub-views\<close>

lemma ref_sub_eq:
  assumes "ref_ok h r" "off + count \<le> b_size r"
  shows "ref_sub r off count = Inr (mk_ref (ptr_add (b_data r) off) count)"
proof (cases "count = npos")
  case True
  with assms have "off = 0" "b_size r = npos" by (auto simp: ref_ok_def npos_def)
  with assms True show ?thesis by (simp add: ref_sub_def ref_ok_def)
next
  case False
  with assms show ?thesis by (simp add: ref_sub_def ref_ok_def)
qed

lemma ref_sub_npos:
  assumes "ref_ok h r" "off \<le> b_size r"
  shows "ref_sub r off npos = Inr (mk_ref (ptr_add (b_data r) off) (b_size r - off))"
  using assms by (simp add: ref_sub_def ref_ok_def)

lemma ref_from_eq:
  assumes "ref_ok h r" "off \<le> b_size r"
  shows "ref_from r off = Inr (mk_ref (ptr_add (b_data r) off) (b_size r - off))"
  using assms by (simp add: ref_from_def ref_ok_def)

lemma mk_ref_sub:
  assumes "ref_ok h r" "off + n \<le> b_size r"
  shows "ref_ok h (mk_ref (ptr_add (b_data r) off) n)"
    "view h (mk_ref (ptr_add (b_data r) off) n) = take n (drop off (view h r))"
  using assms by (auto simp: ref_ok_def view_def mk_ref_def bytes_at_ptr_add intro: readable_ptr_add)

lemma mk_ref_sel [simp]: "b_data (mk_ref p n) = p" "b_size (mk_ref p n) = n"
  by (simp_all add: mk_ref_def)

lemma ref_ok_empty [simp]: "ref_ok h (mk_ref p 0)"
  by (simp add: ref_ok_def)

lemma view_empty [simp]: "view h (mk_ref p 0) = []"
  by (simp add: view_def)

section \<open>Laws of the byte searches\<close>

lemma find_char_eq:
  assumes ok: "ref_ok h r" and off: "off \<le> b_size r"
  shows "find_char h r c off =
    Inr (case index_of c (drop off (view h r)) of Some i \<Rightarrow> off + i | None \<Rightarrow> npos)"
proof -
  let ?q = "ptr_add (b_data r) off" and ?n = "b_size r - off"
  have rd: "readable h ?q ?n"
    using ok off by (auto simp: ref_ok_def intro: readable_ptr_add)
  have "bytes_at h ?q ?n = drop off (view h r)"
    using mk_ref_sub(2) [OF ok, of off ?n] ok off by (simp add: view_def ref_ok_def)
  moreover have "sz_sub (b_size r) off = ?n"
    using ok off by (simp add: ref_ok_def)
  ultimately show ?thesis
    by (simp add: find_char_def memchr_readable [OF rd])
qed

lemma rfind_loop_eq:
  assumes "readable h p m" "q < m"
  shows "rfind_loop h p c q =
    Inr (case index_of c (rev (take (Suc q) (bytes_at h p m))) of Some i \<Rightarrow> q - i | None \<Rightarrow> npos)"
  using assms(2)
proof (induction q)
  case 0
  have "load1 h p = Inr (bytes_at h p m ! 0)"
    using load1_readable [OF assms(1) 0] by simp
  moreover have "take (Suc 0) (bytes_at h p m) = [bytes_at h p m ! 0]"
    using 0 assms(1) by (simp add: take_Suc_conv_app_nth)
  ultimately show ?case by simp
next
  case (Suc q)
  have ld: "load1 h (ptr_add p (Suc q)) = Inr (bytes_at h p m ! Suc q)"
    by (rule load1_readable [OF assms(1) Suc.prems])
  have tk: "rev (take (Suc (Suc q)) (bytes_at h p m)) =
      bytes_at h p m ! Suc q # rev (take (Suc q) (bytes_at h p m))"
    using Suc.prems assms(1) by (simp add: take_Suc_conv_app_nth [of "Suc q"])
  show ?case
    using Suc by (simp add: ld tk split: option.split)
qed

lemma rfind_char_eq:
  assumes "ref_ok h r"
  shows "rfind_char h r c =
    Inr (case index_of c (rev (view h r)) of Some i \<Rightarrow> b_size r - 1 - i | None \<Rightarrow> npos)"
proof (cases "b_size r = 0")
  case True
  then show ?thesis by (simp add: rfind_char_def rfind_char_from_def bempty_def view_def)
next
  case False
  then have "rfind_char h r c = rfind_loop h (b_data r) c (b_size r - 1)"
    using assms by (simp add: rfind_char_def rfind_char_from_def bempty_def ref_ok_def)
  also have "\<dots> = Inr (case index_of c (rev (take (Suc (b_size r - 1)) (bytes_at h (b_data r) (b_size r)))) of
      Some i \<Rightarrow> b_size r - 1 - i | None \<Rightarrow> npos)"
    using assms False by (intro rfind_loop_eq) (auto simp: ref_ok_def)
  also have "take (Suc (b_size r - 1)) (bytes_at h (b_data r) (b_size r)) = view h r"
    using assms False by (simp add: view_def ref_ok_def)
  finally show ?thesis .
qed

section \<open>Laws of prefix and suffix tests\<close>

lemma memcmp_eq_view:
  assumes "ref_ok h r" "off + n \<le> b_size r" "fetch h src n = Inr bs"
  shows "memcmp_eq h (ptr_add (b_data r) off) src n = Inr (take n (drop off (view h r)) = bs)"
proof -
  let ?q = "mk_ref (ptr_add (b_data r) off) n"
  have "load h (ptr_add (b_data r) off) n = Inr (take n (drop off (view h r)))"
    using load_view [OF mk_ref_sub(1) [OF assms(1,2)]] mk_ref_sub(2) [OF assms(1,2)] by simp
  with assms(3) show ?thesis by (simp add: memcmp_eq_def)
qed

lemma prefix_take_iff: "length p \<le> length xs \<Longrightarrow> (take (length p) xs = p) \<longleftrightarrow> prefix p xs"
  by (metis append_eq_conv_conj append_take_drop_id prefix_def)

lemma suffix_drop_iff:
  "length p \<le> length xs \<Longrightarrow> (take (length p) (drop (length xs - length p) xs) = p) \<longleftrightarrow> suffix p xs"
  by (simp add: suffix_take) (metis append_eq_append_conv append_take_drop_id length_drop suffix_def suffix_drop diff_diff_cancel)


lemma begins_eq:
  assumes "ref_ok h r" "ref_ok h v"
  shows "begins h r v = Inr (prefix (view h v) (view h r))"
proof (cases "b_size v \<le> b_size r")
  case True
  then have "begins h r v = Inr (take (b_size v) (view h r) = view h v)"
    using memcmp_eq_view [OF assms(1), of 0 "b_size v" "Heap (b_data v)"] load_view [OF assms(2)]
    by (simp add: begins_def)
  then show ?thesis using True assms prefix_take_iff [of "view h v" "view h r"] by simp
next
  case False
  moreover from this have "\<not> prefix (view h v) (view h r)"
    using assms by (auto dest!: prefix_length_le)
  ultimately show ?thesis by (simp add: begins_def)
qed

lemma ends_eq:
  assumes "ref_ok h r" "ref_ok h v"
  shows "ends h r v = Inr (suffix (view h v) (view h r))"
proof (cases "b_size v \<le> b_size r")
  case True
  let ?o = "b_size r - b_size v"
  have "memcmp_eq h (ptr_add (b_data r) ?o) (Heap (b_data v)) (b_size v) =
      Inr (take (b_size v) (drop ?o (view h r)) = view h v)"
    using True load_view [OF assms(2)] by (intro memcmp_eq_view [OF assms(1)]) auto
  moreover have "(take (b_size v) (drop ?o (view h r)) = view h v) \<longleftrightarrow> suffix (view h v) (view h r)"
    using True assms suffix_drop_iff [of "view h v" "view h r"] by simp
  moreover have "b_size v = 0 \<Longrightarrow> view h v = []" by (simp add: view_def)
  ultimately show ?thesis
    using True by (auto simp: ends_def bempty_def)
next
  case False
  moreover from this have "\<not> suffix (view h v) (view h r)"
    using assms by (auto dest!: suffix_length_le)
  ultimately show ?thesis by (simp add: ends_def bempty_def)
qed

lemma ends_char_eq:
  assumes "ref_ok h r"
  shows "ends_char h r c = Inr (view h r \<noteq> [] \<and> last (view h r) = c)"
proof (cases "b_size r = 0")
  case True
  then show ?thesis by (simp add: ends_char_def view_def)
next
  case False
  then have "load1 h (ptr_add (b_data r) (b_size r - 1)) = Inr (view h r ! (b_size r - 1))"
    using at_view [OF assms, of "b_size r - 1"] by (simp add: at_def)
  moreover have "view h r \<noteq> []" using False length_view [OF assms] by auto
  ultimately show ?thesis
    using False assms by (simp add: ends_char_def last_conv_nth)
qed

lemma begins_char_eq:
  assumes "ref_ok h r"
  shows "begins_char h r c = Inr (view h r \<noteq> [] \<and> hd (view h r) = c)"
proof (cases "b_size r = 0")
  case True
  then show ?thesis by (simp add: begins_char_def view_def)
next
  case False
  then have "load1 h (b_data r) = Inr (view h r ! 0)"
    using at_view [OF assms, of 0] by (simp add: at_def)
  moreover have "view h r \<noteq> []" using False length_view [OF assms] by auto
  ultimately show ?thesis
    using False assms by (simp add: begins_char_def hd_conv_nth)
qed

lemma npos_not_size: "ref_ok h r \<Longrightarrow> i < b_size r \<Longrightarrow> i \<noteq> npos"
  by (simp add: ref_ok_def npos_def)

lemma split_char_found:
  assumes ok: "ref_ok h r" and i: "index_of c (view h r) = Some i"
  shows "split_char h r c = Inr (mk_ref (b_data r) i, mk_ref (ptr_add (b_data r) (Suc i)) (b_size r - Suc i))"
proof -
  have lt: "i < b_size r" using i ok by (simp add: index_of_Some)
  have np: "i \<noteq> npos" using npos_not_size [OF ok lt] .
  have "ref_sub r 0 i = Inr (mk_ref (b_data r) i)"
    using ref_sub_eq [OF ok, of 0 i] lt np by simp
  moreover have "ref_sub r (Suc i) npos = Inr (mk_ref (ptr_add (b_data r) (Suc i)) (b_size r - Suc i))"
    using lt by (intro ref_sub_npos [OF ok]) simp
  moreover have "sz_add i 1 = Suc i" using lt ok by (simp add: ref_ok_def)
  ultimately show ?thesis
    using find_char_eq [OF ok, of 0 c] i np by (simp add: split_char_def)
qed

lemma split_char_none:
  assumes ok: "ref_ok h r" and i: "index_of c (view h r) = None"
  shows "split_char h r c = Inr (mk_ref (b_data r) (b_size r), mk_ref Null 0)"
  using find_char_eq [OF ok, of 0 c] ref_from_eq [OF ok, of 0] i by (simp add: split_char_def)

section \<open>Laws of trimming\<close>

lemma trim_left_eq:
  assumes ok: "ref_ok h r" and "i \<le> b_size r"
  shows "trim_left h r i = Inr (i + length (takeWhile isspace (drop i (view h r))))"
  using assms(2)
proof (induction "b_size r - i" arbitrary: i)
  case 0
  then show ?case by (simp add: trim_left.simps ok)
next
  case (Suc d)
  then have i: "i < b_size r" by simp
  have dr: "drop i (view h r) = view h r ! i # drop (Suc i) (view h r)"
    using i ok by (simp add: Cons_nth_drop_Suc)
  have "trim_left h r (Suc i) = Inr (Suc i + length (takeWhile isspace (drop (Suc i) (view h r))))"
    using Suc(2) i by (intro Suc(1)) auto
  then show ?case
    using i by (subst trim_left.simps) (simp add: at_view [OF ok] dr)
qed

lemma trim_right_eq:
  assumes ok: "ref_ok h r" and "q < b_size r"
  shows "trim_right h r q =
    Inr (q - min q (length (takeWhile isspace (rev (take (Suc q) (view h r))))))"
  using assms(2)
proof (induction q)
  case (Suc q)
  have "rev (take (Suc (Suc q)) (view h r)) = view h r ! Suc q # rev (take (Suc q) (view h r))"
    using Suc.prems ok by (simp add: take_Suc_conv_app_nth [of "Suc q"])
  with Suc show ?case by (simp add: at_view [OF ok])
qed simp

lemma takeWhile_rev_drop:
  assumes "\<exists>c \<in> set cs. \<not> P c"
  shows "takeWhile P (rev (dropWhile P cs)) = takeWhile P (rev cs)"
proof -
  have "\<exists>c \<in> set (rev (dropWhile P cs)). \<not> P c"
    using assms by (metis dropWhile_eq_Nil_conv hd_dropWhile hd_in_set set_rev)
  moreover have "rev cs = rev (dropWhile P cs) @ rev (takeWhile P cs)"
    by (metis rev_append takeWhile_dropWhile_id)
  ultimately show ?thesis by (metis takeWhile_append1)
qed

lemma rev_dropWhile_rev: "rev (dropWhile P (rev xs)) = take (length xs - length (takeWhile P (rev xs))) xs"
  by (metis dropWhile_eq_drop length_rev rev_drop rev_rev_ident)

lemma trim_eq:
  assumes ok: "ref_ok h r" and ns: "\<exists>c \<in> set (view h r). \<not> isspace c"
  shows "\<exists>t. trim h r = Inr t \<and> ref_ok h t \<and> view h t = strip (view h r)"
proof -
  let ?v = "view h r"
  let ?l = "length (takeWhile isspace ?v)" and ?k = "length (takeWhile isspace (rev ?v))"
  let ?m = "b_size r - ?k - ?l"
  have n: "0 < b_size r" using ns ok by (metis length_view length_pos_if_in_set)
  have dw: "length (dropWhile isspace ?v) = b_size r - ?l"
    using ok by (simp add: dropWhile_eq_drop)
  have k: "?k < b_size r - ?l"
  proof -
    have "takeWhile isspace (rev (dropWhile isspace ?v)) \<noteq> rev (dropWhile isspace ?v)"
      using ns by (metis dropWhile_eq_Nil_conv hd_dropWhile hd_in_set set_rev takeWhile_eq_all_conv)
    then have "length (takeWhile isspace (rev (dropWhile isspace ?v))) < length (dropWhile isspace ?v)"
      by (metis length_rev length_takeWhile_le nat_less_le takeWhile_eq_take take_all_iff)
    then show ?thesis using takeWhile_rev_drop [OF ns] dw by simp
  qed
  have L: "trim_left h r 0 = Inr ?l" using trim_left_eq [OF ok, of 0] by simp
  have R: "trim_right h r (sz_sub (b_size r) 1) = Inr (b_size r - 1 - ?k)"
  proof -
    have "sz_sub (b_size r) 1 = b_size r - 1" using ok n by (simp add: ref_ok_def)
    moreover have "min (b_size r - 1) ?k = ?k" using k by simp
    ultimately show ?thesis
      using trim_right_eq [OF ok, of "b_size r - 1"] n ok by simp
  qed
  have c: "sz_sub (sz_add 1 (b_size r - 1 - ?k)) ?l = ?m"
  proof -
    have sz: "b_size r < SIZE_MOD" using ok by (simp add: ref_ok_def)
    then have "sz_add 1 (b_size r - 1 - ?k) = 1 + (b_size r - 1 - ?k)"
      by (intro sz_add_exact) arith
    also have "\<dots> = b_size r - ?k" using k by arith
    finally show ?thesis using k sz by simp
  qed
  have "ref_sub r ?l ?m = Inr (mk_ref (ptr_add (b_data r) ?l) ?m)"
    using k ok by (intro ref_sub_eq [OF ok]) auto
  then have "trim h r = Inr (mk_ref (ptr_add (b_data r) ?l) ?m)"
    by (simp only: trim_def L R c bnd.simps)
  moreover have "strip ?v = take ?m (drop ?l ?v)"
    unfolding strip_def rev_dropWhile_rev takeWhile_rev_drop [OF ns] dw
    by (simp add: dropWhile_eq_drop add.commute)
  ultimately show ?thesis
    using mk_ref_sub [OF ok, of ?l ?m] k by auto
qed
section \<open>Laws of number parsing\<close>



lemma schar_digit_char: "d < 10 \<Longrightarrow> schar (digit_char d) = 48 + int d"
  by (simp add: schar_def digit_char_def Let_def of_char_of)

lemma toInt_loop_append:
  assumes "\<forall>c \<in> set xs. 48 \<le> schar c \<and> schar c \<le> 57"
  shows "toInt_loop v (xs @ ys) = bnd (toInt_loop v xs) (\<lambda>w. toInt_loop w ys)"
  using assms by (induction xs arbitrary: v) (auto simp: bnd_assoc)

lemma show_nat_digits: "\<forall>c \<in> set (show_nat n). 48 \<le> schar c \<and> schar c \<le> 57"
proof (induction n rule: show_nat.induct)
  case (1 n)
  show ?case
  proof (cases "n < 10")
    case True
    then show ?thesis by (simp add: show_nat.simps [of n] schar_digit_char)
  next
    case False
    have "n mod 10 < 10" by simp
    with 1 False show ?thesis by (auto simp: show_nat.simps [of n] schar_digit_char)
  qed
qed

lemma show_nat_nonempty [simp]: "show_nat n \<noteq> []"
  by (subst show_nat.simps) simp

lemma toInt_loop_digit:
  assumes "0 \<le> v" "d < 10" "10 * v + int d \<le> 2147483647"
  shows "toInt_loop v [digit_char d] = Inr (10 * v + int d)"
  using assms by (simp add: schar_digit_char int_chk_def)

lemma toInt_loop_show_nat: "int n \<le> 2147483647 \<Longrightarrow> toInt_loop 0 (show_nat n) = Inr (int n)"
proof (induction n rule: show_nat.induct)
  case (1 n)
  show ?case
  proof (cases "n < 10")
    case True
    then show ?thesis using toInt_loop_digit [of 0 n] "1.prems" by (simp add: show_nat.simps [of n])
  next
    case False
    have eq: "10 * int (n div 10) + int (n mod 10) = int n"
      by (metis mult_div_mod_eq of_nat_add of_nat_mult of_nat_numeral)
    have "int (n div 10) \<le> 2147483647" using "1.prems" by (simp add: zdiv_int)
    then have IH: "toInt_loop 0 (show_nat (n div 10)) = Inr (int (n div 10))"
      using 1 False by blast
    have "toInt_loop (int (n div 10)) [digit_char (n mod 10)] = Inr (int n)"
      using toInt_loop_digit [of "int (n div 10)" "n mod 10"] eq "1.prems" by simp
    then show ?thesis
      using False IH by (simp add: show_nat.simps [of n] toInt_loop_append [OF show_nat_digits] del: toInt_loop.simps)
  qed
qed

lemma show_nat_hd: "hd (show_nat n) \<noteq> CHR ''-''" "hd (show_nat n) \<noteq> CHR ''+''"
proof -
  have "48 \<le> schar (hd (show_nat n))" using show_nat_digits [of n] by simp
  then show "hd (show_nat n) \<noteq> CHR ''-''" "hd (show_nat n) \<noteq> CHR ''+''"
    by (auto simp: schar_def)
qed

lemma toInt_show_int:
  assumes "- 2147483647 \<le> i" "i \<le> 2147483647"
  shows "toInt_chars (show_int i) = Inr i"
proof (cases "i < 0")
  case True
  then show ?thesis
    using toInt_loop_show_nat [of "nat (- i)"] assms
    by (simp add: show_int_def toInt_chars_def int_chk_def)
next
  case False
  obtain c cs where s: "show_nat (nat i) = c # cs" by (cases "show_nat (nat i)") auto
  have "c \<noteq> CHR ''-''" "c \<noteq> CHR ''+''" using show_nat_hd [of "nat i"] s by auto
  then show ?thesis
    using False toInt_loop_show_nat [of "nat i"] assms s
    by (simp add: show_int_def toInt_chars_def)
qed

section \<open>Where the searches and trims go wrong\<close>

lemma trim_blank:
  assumes ok: "ref_ok h r" and sp: "\<forall>c \<in> set (view h r). isspace c" and n: "3 \<le> b_size r"
  shows "trim h r = Inr (mk_ref (ptr_add (b_data r) (b_size r)) (SIZE_MOD - (b_size r - 1)))"
proof -
  let ?n = "b_size r"
  have sz: "?n < SIZE_MOD" using ok by (simp add: ref_ok_def)
  have L: "trim_left h r 0 = Inr ?n"
    using trim_left_eq [OF ok, of 0] sp ok by (simp add: takeWhile_eq_all_conv [THEN iffD2])
  have tw: "takeWhile isspace (rev (view h r)) = rev (view h r)"
    using sp by (simp add: takeWhile_eq_all_conv)
  have R: "trim_right h r (sz_sub ?n 1) = Inr 0"
    using trim_right_eq [OF ok, of "?n - 1"] n ok sz tw by simp
  have c: "sz_sub (sz_add 1 0) ?n = SIZE_MOD - (?n - 1)"
    using n sz by (simp add: sz_sub_wrap)
  have "ref_sub r ?n (SIZE_MOD - (?n - 1)) =
      Inr (mk_ref (ptr_add (b_data r) ?n) (SIZE_MOD - (?n - 1)))"
  proof -
    have "sz_add ?n (SIZE_MOD - (?n - 1)) = 1"
      using n sz by (simp add: sz_add_def)
    moreover have "SIZE_MOD - (?n - 1) \<noteq> npos"
      using n sz by (simp add: npos_def)
    ultimately show ?thesis using n by (simp add: ref_sub_def)
  qed
  then show ?thesis by (simp only: trim_def L R c bnd.simps)
qed

lemma rfind_array_cmp_NUL:
  assumes "3 \<le> length a" "length a < SIZE_MOD" "a ! 0 \<noteq> NUL" "load1 h p = Inr NUL"
  shows "rfind_array_cmp h p a 0 = Inr False"
  using assms by (subst rfind_array_cmp.simps) (auto simp: elem_def)

lemma rfind_array_loop_none:
  assumes rd: "readable h p (Suc e)" and a: "3 \<le> length a" "length a < SIZE_MOD" "a ! 0 \<noteq> NUL"
    "a ! (length a - 1) = NUL" and "length a - 1 + d \<le> e"
  shows "rfind_array_loop h p a d = Inr npos"
  using assms(6)
proof (induction d)
  case (Suc d)
  let ?i = "length a - 1 + Suc d"
  have ld: "load1 h (ptr_add p ?i) = Inr (bytes_at h p (Suc e) ! ?i)"
    using Suc.prems by (intro load1_readable [OF rd]) simp
  have el: "elem a (length a - 1) = Inr NUL" using a by (simp add: elem_def)
  have IH: "rfind_array_loop h p a d = Inr npos" using Suc by simp
  show ?case
  proof (cases "bytes_at h p (Suc e) ! ?i = NUL")
    case True
    with ld have "rfind_array_cmp h (ptr_add p ?i) a 0 = Inr False"
      using a by (intro rfind_array_cmp_NUL) auto
    with True ld el IH show ?thesis by (simp add: Let_def)
  next
    case False
    with ld el IH show ?thesis by (simp add: Let_def)
  qed
qed simp

section \<open>Properties\<close>

text \<open>Facts that evaluate the examples.\<close>

lemmas example_simps = one_block_def ref_ok_def readable_def view_def bytes_at_def mk_ref_def heap_ok_def
  isspace_def first_match_def strip_def

text \<open>
  C31. \<^verbatim>\<open>find(const char*, offset)\<close> returns the first position at or after \<open>offset\<close>, and before the
  end of the view, at which the needle stands in memory, or \<^verbatim>\<open>npos\<close>. The comparison is not
  limited to the view: memory of the length of the needle behind it must be readable, and a
  match that straddles the end of the view counts.
\<close>

theorem find_cstr_first:
  assumes "readable h (b_data r) (b_size r + length w)" "w \<noteq> []" "NUL \<notin> set w"
    "length w < 2147483648" "off \<le> b_size r"
  shows "find_cstr h r (w @ [NUL]) off =
    Inr (first_match w (bytes_at h (b_data r) (b_size r + length w)) [off..<b_size r])"
proof -
  have "s32 (int (strlen (w @ [NUL]))) = int (length w)"
    using assms by (simp add: strlen_append s32_id)
  then show ?thesis
    using find_loop_eq [OF assms(1), of "w @ [NUL]" off] assms by (simp add: find_cstr_def)
qed

theorem find_cstr_first_witness:
  "find_cstr (one_block ''ab cd cd'') (mk_ref (Addr 0 0) 6) (''cd'' @ [NUL]) 1 = Inr 3 \<and>
   find_cstr (one_block ''ab cdcd '') (mk_ref (Addr 0 0) 6) (''cd'' @ [NUL]) 4 = Inr 5"
  using find_cstr_first [of "one_block ''ab cd cd''" "mk_ref (Addr 0 0) 6" "''cd''" 1]
    find_cstr_first [of "one_block ''ab cdcd ''" "mk_ref (Addr 0 0) 6" "''cd''" 4]
  by (simp add: example_simps upt_rec)

text \<open>
  \<^verbatim>\<open>split(char)\<close> cuts a view at the first delimiter: the two parts are views of live memory, the
  first has no delimiter, and the parts with the delimiter between them are the whole view.
  Without a delimiter the first part is the whole view and the second one is empty.
\<close>

theorem split_char_cuts:
  assumes ok: "ref_ok h r"
  shows "\<exists>a b. split_char h r c = Inr (a, b) \<and> ref_ok h a \<and> ref_ok h b \<and> c \<notin> set (view h a) \<and>
    (if c \<in> set (view h r) then view h a @ c # view h b = view h r
     else view h a = view h r \<and> view h b = [])"
proof (cases "index_of c (view h r)")
  case None
  then show ?thesis
    using split_char_none [OF ok None] ok mk_ref_sub [OF ok, of 0 "b_size r"]
    by (auto simp: index_of_None)
next
  case (Some i)
  then have i: "i < b_size r" "view h r ! i = c" "\<forall>j < i. view h r ! j \<noteq> c"
    using ok by (auto simp: index_of_Some)
  let ?a = "mk_ref (b_data r) i" and ?b = "mk_ref (ptr_add (b_data r) (Suc i)) (b_size r - Suc i)"
  have a: "ref_ok h ?a" "view h ?a = take i (view h r)"
    using mk_ref_sub [OF ok, of 0 i] i by auto
  have b: "ref_ok h ?b" "view h ?b = drop (Suc i) (view h r)"
    using mk_ref_sub [OF ok, of "Suc i" "b_size r - Suc i"] i ok by auto
  have "c \<notin> set (take i (view h r))"
    using i ok by (auto simp: in_set_conv_nth)
  moreover have "c \<in> set (view h r)" using i ok by (metis length_view nth_mem)
  ultimately show ?thesis
    using split_char_found [OF ok Some] a b i ok id_take_nth_drop [of i "view h r"] by auto
qed

theorem split_char_cuts_witness:
  "\<exists>a b. split_char (one_block ''k=v=w'') (mk_ref (Addr 0 0) 5) (CHR ''='') = Inr (a, b) \<and>
     view (one_block ''k=v=w'') a @ CHR ''='' # view (one_block ''k=v=w'') b = ''k=v=w''"
  using split_char_cuts [of "one_block ''k=v=w''" "mk_ref (Addr 0 0) 5" "CHR ''=''"]
  by (auto simp: example_simps)

text \<open>
  The prefix and suffix tests decide the prefix and suffix order on the bytes of the views,
  for views and for single characters, without reading outside them.
\<close>

theorem begins_ends_decide:
  assumes "ref_ok h r" "ref_ok h v"
  shows "begins h r v = Inr (prefix (view h v) (view h r)) \<and>
    ends h r v = Inr (suffix (view h v) (view h r)) \<and>
    begins_char h r c = Inr (view h r \<noteq> [] \<and> hd (view h r) = c) \<and>
    ends_char h r c = Inr (view h r \<noteq> [] \<and> last (view h r) = c)"
  using assms by (simp add: begins_eq ends_eq begins_char_eq ends_char_eq)

theorem begins_ends_decide_witness:
  "begins (one_block ''GET /'') (mk_ref (Addr 0 0) 5) (mk_ref (Addr 0 0) 3) = Inr True \<and>
   ends (one_block ''GET /'') (mk_ref (Addr 0 0) 5) (mk_ref (Addr 0 3) 2) = Inr True \<and>
   ends_char (one_block ''GET /'') (mk_ref (Addr 0 0) 5) (CHR ''T'') = Inr False"
  using begins_ends_decide [of "one_block ''GET /''" "mk_ref (Addr 0 0) 5" "mk_ref (Addr 0 0) 3" "CHR ''T''"]
    begins_ends_decide [of "one_block ''GET /''" "mk_ref (Addr 0 0) 5" "mk_ref (Addr 0 3) 2" "CHR ''T''"]
  by (simp add: example_simps prefix_def suffix_def)

text \<open>
  \<^verbatim>\<open>rfind(char)\<close> returns the position of the last occurrence of the character, or \<^verbatim>\<open>npos\<close>.
\<close>

theorem rfind_char_last:
  assumes ok: "ref_ok h r"
  shows "\<exists>i. rfind_char h r c = Inr i \<and>
    (if c \<in> set (view h r)
     then i < b_size r \<and> view h r ! i = c \<and> c \<notin> set (drop (Suc i) (view h r)) else i = npos)"
proof (cases "index_of c (rev (view h r))")
  case None
  moreover from None have "c \<notin> set (view h r)" by (simp add: index_of_None)
  ultimately show ?thesis using rfind_char_eq [OF ok, of c] by simp
next
  case (Some k)
  let ?v = "view h r" and ?i = "b_size r - 1 - k"
  have k: "k < b_size r" "rev ?v ! k = c" "\<forall>j < k. rev ?v ! j \<noteq> c"
    using Some ok by (auto simp: index_of_Some)
  then have v: "?v ! ?i = c" using ok by (simp add: rev_nth)
  have "c \<notin> set (drop (Suc ?i) ?v)"
  proof
    assume "c \<in> set (drop (Suc ?i) ?v)"
    then obtain j where j: "j < b_size r - Suc ?i" "?v ! (Suc ?i + j) = c"
      using ok by (auto simp: in_set_conv_nth)
    moreover have "b_size r - Suc (b_size r - Suc (Suc ?i + j)) = Suc ?i + j" using j k by simp
    ultimately have "rev ?v ! (b_size r - Suc (Suc ?i + j)) = c" using ok k by (subst rev_nth) simp_all
    moreover have "b_size r - Suc (Suc ?i + j) < k" using j k by simp
    ultimately show False using k by blast
  qed
  moreover have "?v ! ?i \<in> set ?v" using k ok by (intro nth_mem) simp
  ultimately show ?thesis using rfind_char_eq [OF ok, of c] Some k v by auto
qed

theorem rfind_char_last_witness:
  "\<exists>i. rfind_char (one_block ''a/b/c'') (mk_ref (Addr 0 0) 5) (CHR ''/'') = Inr i \<and>
     i < 5 \<and> ''a/b/c'' ! i = CHR ''/'' \<and> CHR ''/'' \<notin> set (drop (Suc i) ''a/b/c'')"
  using rfind_char_last [of "one_block ''a/b/c''" "mk_ref (Addr 0 0) 5" "CHR ''/''"]
  by (simp add: example_simps)

text \<open>
  \<^verbatim>\<open>trim()\<close> of a view that has a non-blank byte is a view of live memory whose bytes are the
  original ones without leading and trailing white space.
\<close>

theorem trim_strips:
  assumes "ref_ok h r" "\<exists>c \<in> set (view h r). \<not> isspace c"
  shows "\<exists>t. trim h r = Inr t \<and> ref_ok h t \<and> view h t = strip (view h r)"
  using assms by (rule trim_eq)

theorem trim_strips_witness:
  "\<exists>t. trim (one_block ''  ab c '') (mk_ref (Addr 0 0) 7) = Inr t \<and>
     view (one_block ''  ab c '') t = ''ab c''"
  using trim_strips [of "one_block ''  ab c ''" "mk_ref (Addr 0 0) 7"]
  by (auto simp: example_simps)

text \<open>
  \<^verbatim>\<open>trim()\<close> of a view of at least three bytes, all blank, is not the empty view: the unsigned
  subtraction wraps and the result claims almost the whole address space.
\<close>

theorem trim_blank_wraps:
  assumes "ref_ok h r" "\<forall>c \<in> set (view h r). isspace c" "3 \<le> b_size r"
  shows "trim h r = Inr (mk_ref (ptr_add (b_data r) (b_size r)) (SIZE_MOD - (b_size r - 1)))"
  using assms by (rule trim_blank)

theorem trim_blank_wraps_witness:
  "trim (one_block ''    '') (mk_ref (Addr 0 0) 4) = Inr (mk_ref (Addr 0 4) 18446744073709551613)"
  using trim_blank_wraps [of "one_block ''    ''" "mk_ref (Addr 0 0) 4"]
  by (simp add: example_simps)

text \<open>
  \<^verbatim>\<open>rfind(const char (&)[N])\<close> never finds a literal of two or more characters: it starts to
  compare where it has just seen the terminating NUL.
\<close>

theorem rfind_array_never:
  assumes rd: "readable h (b_data r) (Suc (b_size r))" and w: "2 \<le> length w" "NUL \<notin> set w"
    and sz: "Suc (length w) < SIZE_MOD"
  shows "rfind_array h r (w @ [NUL]) = Inr npos"
proof -
  have "(w @ [NUL]) ! 0 \<noteq> NUL" using w by (cases w) auto
  then show ?thesis
    using rfind_array_loop_none [OF rd, of "w @ [NUL]" "b_size r - length w"] w sz
    by (auto simp: rfind_array_def)
qed

theorem rfind_array_never_witness:
  "rfind_array (one_block (''a.gz.gz'' @ [NUL])) (mk_ref (Addr 0 0) 7) (''.gz'' @ [NUL]) = Inr npos"
  using rfind_array_never [of "one_block (''a.gz.gz'' @ [NUL])" "mk_ref (Addr 0 0) 7" "''.gz''"]
  by (simp add: example_simps)

end
