(* ===== verification/Mutable_Buffer.thy ===== *)
theory Mutable_Buffer
  imports Buffer_Base
begin

text \<open>
  The template class \<^verbatim>\<open>MutableBuffer<ensure>\<close> of \<^verbatim>\<open>include/xio/Buffer.h\<close>: a view with a capacity, and the
  operations that append to it. The template parameter is an argument \<open>ensure\<close> of the
  operations; the locale \<open>ensure_contract\<close> states what they rely on, and the laws of the
  appending operations are proved once inside it. The two instances, \<^verbatim>\<open>FixedBuffer\<close> and
  \<^verbatim>\<open>Buffer\<close>, interpret the locale in the theories that define them.
\<close>

section \<open>State and operations\<close>

record mbuf = bufref +
  b_cap :: nat

type_synonym ensurer = "nat \<Rightarrow> mbuf \<Rightarrow> heap \<Rightarrow> (bool \<times> mbuf \<times> heap) res"

definition mk_mbuf :: "ptr \<Rightarrow> nat \<Rightarrow> nat \<Rightarrow> mbuf" where
  "mk_mbuf p cap n = \<lparr>b_data = p, b_size = n, b_cap = cap\<rparr>"

definition empty_mbuf :: mbuf where
  "empty_mbuf = mk_mbuf Null 0 0"

definition swap_mbuf :: "mbuf \<Rightarrow> mbuf \<Rightarrow> mbuf \<times> mbuf" where
  "swap_mbuf a b =
     (mk_mbuf (b_data b) (b_cap b) (b_size b), mk_mbuf (b_data a) (b_cap a) (b_size a))"

definition resize :: "nat \<Rightarrow> mbuf \<Rightarrow> bool \<times> mbuf" where
  "resize value b = (if b_cap b < value then (False, b) else (True, b\<lparr>b_size := value\<rparr>))"

definition reserve :: "ensurer \<Rightarrow> nat \<Rightarrow> mbuf \<Rightarrow> heap \<Rightarrow> (bool \<times> mbuf \<times> heap) res" where
  "reserve ensure value b h = ensure value b h"

text \<open>\<^verbatim>\<open>push_back(const void* value, size_t size)\<close>; a failed \<^verbatim>\<open>reserve\<close> drops the bytes silently.\<close>

definition push_back :: "ensurer \<Rightarrow> source \<Rightarrow> nat \<Rightarrow> mbuf \<Rightarrow> heap \<Rightarrow> (mbuf \<times> heap) res" where
  "push_back ensure src n b h =
     (if n \<noteq> 0
      then bnd (reserve ensure (sz_add (b_size b) n) b h) (\<lambda>(ok, b', h').
             if ok
             then bnd (memcpy h' (ptr_add (b_data b') (b_size b')) src n) (\<lambda>h''.
                    Inr (b'\<lparr>b_size := sz_add (b_size b') n\<rparr>, h''))
             else Inr (b', h'))
      else Inr (b, h))"

definition push_back_char :: "ensurer \<Rightarrow> char \<Rightarrow> mbuf \<Rightarrow> heap \<Rightarrow> (mbuf \<times> heap) res" where
  "push_back_char ensure c b h =
     bnd (reserve ensure (sz_add (b_size b) 1) b h) (\<lambda>(ok, b', h').
       if ok
       then bnd (store h' (ptr_add (b_data b') (b_size b')) [c]) (\<lambda>h''.
              Inr (b'\<lparr>b_size := sz_add (b_size b') 1\<rparr>, h''))
       else Inr (b', h'))"

text \<open>
  \<^verbatim>\<open>push_back(const BufferRef& value)\<close>. The argument is another object (\<open>push_back_ref\<close>), whose
  pointer does not change while this buffer grows, or the buffer itself (\<open>push_back_self\<close>),
  whose pointer is read again after \<^verbatim>\<open>reserve\<close>.
\<close>

definition push_back_ref :: "ensurer \<Rightarrow> 'a bufref_scheme \<Rightarrow> mbuf \<Rightarrow> heap \<Rightarrow> (mbuf \<times> heap) res" where
  "push_back_ref ensure v b h = push_back ensure (Heap (b_data v)) (b_size v) b h"

definition push_back_self :: "ensurer \<Rightarrow> mbuf \<Rightarrow> heap \<Rightarrow> (mbuf \<times> heap) res" where
  "push_back_self ensure b h =
     (let len = b_size b in
      if len \<noteq> 0
      then bnd (reserve ensure (sz_add (b_size b) len) b h) (\<lambda>(ok, b', h').
             if ok
             then bnd (memcpy h' (ptr_add (b_data b') (b_size b')) (Heap (b_data b')) len) (\<lambda>h''.
                    Inr (b'\<lparr>b_size := sz_add (b_size b') len\<rparr>, h''))
             else Inr (b', h'))
      else Inr (b, h))"

definition push_back_sub ::
    "ensurer \<Rightarrow> 'a bufref_scheme \<Rightarrow> nat \<Rightarrow> nat \<Rightarrow> mbuf \<Rightarrow> heap \<Rightarrow> (mbuf \<times> heap) res" where
  "push_back_sub ensure v off len b h =
     assertC (b_size v \<le> sz_add off len)
       (push_back ensure (Heap (ptr_add (b_data v) off)) len b h)"

definition push_back_string :: "ensurer \<Rightarrow> string \<Rightarrow> mbuf \<Rightarrow> heap \<Rightarrow> (mbuf \<times> heap) res" where
  "push_back_string ensure s b h = push_back ensure (Local s) (length s) b h"

definition push_back_array :: "ensurer \<Rightarrow> char list \<Rightarrow> mbuf \<Rightarrow> heap \<Rightarrow> (mbuf \<times> heap) res" where
  "push_back_array ensure a b h = push_back ensure (Local a) (length a - 1) b h"

text \<open>
  The six integer overloads print with \<^verbatim>\<open>snprintf\<close> into a 32-byte array (no 64-bit number needs
  more than 20 characters) and append what was printed.
\<close>

definition push_back_int :: "ensurer \<Rightarrow> 32 word \<Rightarrow> mbuf \<Rightarrow> heap \<Rightarrow> (mbuf \<times> heap) res" where
  "push_back_int ensure v b h =
     (let buf = show_int (sint v) in push_back ensure (Local buf) (length buf) b h)"

definition push_back_long :: "ensurer \<Rightarrow> 64 word \<Rightarrow> mbuf \<Rightarrow> heap \<Rightarrow> (mbuf \<times> heap) res" where
  "push_back_long ensure v b h =
     (let buf = show_int (sint v) in push_back ensure (Local buf) (length buf) b h)"

definition push_back_long_long :: "ensurer \<Rightarrow> 64 word \<Rightarrow> mbuf \<Rightarrow> heap \<Rightarrow> (mbuf \<times> heap) res" where
  "push_back_long_long ensure v b h =
     (let buf = show_int (sint v) in push_back ensure (Local buf) (length buf) b h)"

definition push_back_unsigned :: "ensurer \<Rightarrow> 32 word \<Rightarrow> mbuf \<Rightarrow> heap \<Rightarrow> (mbuf \<times> heap) res" where
  "push_back_unsigned ensure v b h =
     (let buf = show_int (uint v) in push_back ensure (Local buf) (length buf) b h)"

definition push_back_unsigned_long :: "ensurer \<Rightarrow> 64 word \<Rightarrow> mbuf \<Rightarrow> heap \<Rightarrow> (mbuf \<times> heap) res" where
  "push_back_unsigned_long ensure v b h =
     (let buf = show_int (uint v) in push_back ensure (Local buf) (length buf) b h)"

definition push_back_unsigned_long_long ::
    "ensurer \<Rightarrow> 64 word \<Rightarrow> mbuf \<Rightarrow> heap \<Rightarrow> (mbuf \<times> heap) res" where
  "push_back_unsigned_long_long ensure v b h =
     (let buf = show_int (uint v) in push_back ensure (Local buf) (length buf) b h)"

text \<open>The overloads of \<^verbatim>\<open>operator<<\<close>, one per kind of right operand.\<close>

datatype pushable =
    PChar char
  | PInt "32 word"
  | PLong "64 word"
  | PLongLong "64 word"
  | PUnsigned "32 word"
  | PUnsignedLong "64 word"
  | PUnsignedLongLong "64 word"
  | PBuffer mbuf
  | PRef bufref
  | PString string
  | PArray "char list"
  | PCstr "char list"

fun shl_op :: "ensurer \<Rightarrow> pushable \<Rightarrow> mbuf \<Rightarrow> heap \<Rightarrow> (mbuf \<times> heap) res" where
  "shl_op ensure (PChar v) b h = push_back_char ensure v b h"
| "shl_op ensure (PInt v) b h = push_back_int ensure v b h"
| "shl_op ensure (PLong v) b h = push_back_long ensure v b h"
| "shl_op ensure (PLongLong v) b h = push_back_long_long ensure v b h"
| "shl_op ensure (PUnsigned v) b h = push_back_unsigned ensure v b h"
| "shl_op ensure (PUnsignedLong v) b h = push_back_unsigned_long ensure v b h"
| "shl_op ensure (PUnsignedLongLong v) b h = push_back_unsigned_long_long ensure v b h"
| "shl_op ensure (PBuffer v) b h = push_back_ref ensure v b h"
| "shl_op ensure (PRef v) b h = push_back_ref ensure v b h"
| "shl_op ensure (PString v) b h = push_back_string ensure v b h"
| "shl_op ensure (PArray v) b h = push_back_array ensure v b h"
| "shl_op ensure (PCstr v) b h = push_back_string ensure (take (strlen v) v) b h"

text \<open>
  \<^verbatim>\<open>printf(fmt, args...)\<close>: \<open>out\<close> is what \<^verbatim>\<open>snprintf\<close> would print with enough room, or \<open>None\<close> where it
  returns -1. The loop retries after growing; it takes fuel, running out is \<open>None\<close>.
\<close>

definition snprintf :: "heap \<Rightarrow> ptr \<Rightarrow> nat \<Rightarrow> string option \<Rightarrow> (int \<times> heap) res" where
  "snprintf h p room out =
     (case out of
        None \<Rightarrow> Inr (- 1, h)
      | Some s \<Rightarrow>
          if room = 0 then Inr (int (length s), h)
          else bnd (store h p (take (room - 1) s @ [NUL])) (\<lambda>h'. Inr (int (length s), h')))"

fun printf_loop :: "ensurer \<Rightarrow> string option \<Rightarrow> nat \<Rightarrow> mbuf \<Rightarrow> heap \<Rightarrow> (mbuf \<times> heap) res option" where
  "printf_loop ensure out 0 b h = None"
| "printf_loop ensure out (Suc fuel) b h =
     (case snprintf h (ptr_add (b_data b) (b_size b)) (sz_sub (b_cap b) (b_size b)) out of
        Inl e \<Rightarrow> Some (Inl e)
      | Inr (buflen, h1) \<Rightarrow>
          if - 1 \<le> buflen \<and> buflen < to_ssize (sz_sub (b_cap b) (b_size b))
          then Some (Inr (snd (resize (of_ssize (int (b_size b) + buflen)) b), h1))
          else
            (let grow = (if - 1 < buflen then of_ssize (buflen + 1) else sz_add (b_cap b) (b_cap b)) in
             case reserve ensure (sz_add (b_cap b) grow) b h1 of
               Inl e \<Rightarrow> Some (Inl e)
             | Inr (ok, b2, h2) \<Rightarrow>
                 if ok then printf_loop ensure out fuel b2 h2
                 else Some (bnd (store h2 (ptr_add (b_data b2) (sz_sub (b_cap b2) 1)) [NUL])
                              (\<lambda>h3. Inr (b2, h3)))))"

declare printf_loop.simps(2) [simp del]

definition printf :: "ensurer \<Rightarrow> char list \<Rightarrow> string option \<Rightarrow> nat \<Rightarrow> mbuf \<Rightarrow> heap \<Rightarrow> (mbuf \<times> heap) res option" where
  "printf ensure fmt out fuel b h =
     (case reserve ensure (sz_add (sz_add (b_size b) (strlen fmt)) 1) b h of
        Inl e \<Rightarrow> Some (Inl e)
      | Inr (_, b', h') \<Rightarrow> printf_loop ensure out fuel b' h')"

definition printf_plain :: "ensurer \<Rightarrow> char list \<Rightarrow> mbuf \<Rightarrow> heap \<Rightarrow> (mbuf \<times> heap) res" where
  "printf_plain ensure fmt b h = push_back_string ensure (take (strlen fmt) fmt) b h"

definition index_op :: "heap \<Rightarrow> mbuf \<Rightarrow> nat \<Rightarrow> char res" where
  "index_op h b i = assertC (i < b_size b) (load1 h (ptr_add (b_data b) i))"

section \<open>Invariant\<close>

text \<open>Room for the capacity, and the used size within it.\<close>

definition mb_ok :: "heap \<Rightarrow> mbuf \<Rightarrow> bool" where
  "mb_ok h b \<longleftrightarrow> b_size b \<le> b_cap b \<and> b_cap b < SIZE_MOD \<and> readable h (b_data b) (b_cap b)"

definition owns :: "'a bufref_scheme \<Rightarrow> nat set" where
  "owns b = ptr_block (b_data b)"

text \<open>The largest request whose rounding to a multiple of 4096 does not wrap.\<close>

definition MAX_REQ :: nat where
  "MAX_REQ = SIZE_MOD - 4096"

lemma mb_ok_ref_ok: "mb_ok h b \<Longrightarrow> ref_ok h b"
  by (auto simp: mb_ok_def ref_ok_def intro: readable_mono)

lemma mb_ok_size: "mb_ok h b \<Longrightarrow> n \<le> b_cap b \<Longrightarrow> mb_ok h (b\<lparr>b_size := n\<rparr>)"
  by (simp add: mb_ok_def)

lemma mb_ok_store: "mb_ok h b \<Longrightarrow> store h p bs = Inr h' \<Longrightarrow> mb_ok h' b"
  by (simp add: mb_ok_def readable_store)

lemma mb_ok_frame [framed]:
  "mb_ok h b \<Longrightarrow> heap_ok h \<Longrightarrow> frame K h h' \<Longrightarrow> owns b \<inter> K = {} \<Longrightarrow> mb_ok h' b"
  by (auto simp: mb_ok_def owns_def intro: readable_frame)

lemma view_frame [framed]:
  "ref_ok h r \<Longrightarrow> heap_ok h \<Longrightarrow> frame K h h' \<Longrightarrow> owns r \<inter> K = {} \<Longrightarrow> view h' r = view h r"
  by (auto simp: view_def ref_ok_def owns_def intro: bytes_at_frame)

section \<open>What appending means\<close>

text \<open>
  From \<open>(h, b)\<close> to \<open>(h', b')\<close> the buffer was extended by \<open>bs\<close>, and nothing else changed.
\<close>

definition appended ::
    "(heap \<Rightarrow> mbuf \<Rightarrow> bool) \<Rightarrow> heap \<Rightarrow> mbuf \<Rightarrow> heap \<Rightarrow> mbuf \<Rightarrow> char list \<Rightarrow> bool" where
  "appended I h b h' b' bs \<longleftrightarrow> I h' b' \<and> heap_ok h' \<and> frame (owns b) h h' \<and>
     moves (owns b) (owns b') h h' \<and> view h' b' = view h b @ bs \<and> b_size b' = b_size b + length bs \<and>
     b_cap b \<le> b_cap b'"

lemma appended_refl: "I h b \<Longrightarrow> heap_ok h \<Longrightarrow> appended I h b h b []"
  by (simp add: appended_def)

lemma appended_trans:
  assumes "appended I h b h1 b1 xs" "appended I h1 b1 h2 b2 ys" "heap_ok h"
  shows "appended I h b h2 b2 (xs @ ys)"
proof -
  note m1 = assms(1) [unfolded appended_def] and m2 = assms(2) [unfolded appended_def]
  have "frame (owns b) h h2"
    using frame_trans_fresh [of "owns b" h h1 "owns b1" h2] m1 m2 moves_fresh by blast
  moreover have "next_block h \<le> next_block h1" using m1 by (simp add: frame_def)
  then have "moves (owns b) (owns b2) h h2"
    using moves_trans [OF _ _ assms(3)] m1 m2 by blast
  ultimately show ?thesis using m1 m2 by (auto simp: appended_def)
qed

text \<open>The answer of \<open>ensure\<close>.\<close>

definition grants :: "ensurer \<Rightarrow> nat \<Rightarrow> mbuf \<Rightarrow> heap \<Rightarrow> bool" where
  "grants ensure n b h = (case ensure n b h of Inr (ok, _, _) \<Rightarrow> ok | Inl _ \<Rightarrow> False)"

text \<open>Every request on a heap with the allocator \<open>A\<close> is granted.\<close>

definition always_grants ::
    "ensurer \<Rightarrow> (heap \<Rightarrow> mbuf \<Rightarrow> bool) \<Rightarrow> (nat \<Rightarrow> nat \<Rightarrow> answer) \<Rightarrow> bool" where
  "always_grants ensure I A \<longleftrightarrow> (\<forall>g c n. I g c \<and> heap_ok g \<and> answers g = A \<and> 0 < n \<and>
     n \<le> MAX_REQ \<and> b_size c \<le> n \<longrightarrow> grants ensure n c g)"

lemma always_grantsD:
  "always_grants ensure I A \<Longrightarrow> I g c \<Longrightarrow> heap_ok g \<Longrightarrow> answers g = A \<Longrightarrow> 0 < n \<Longrightarrow>
   n \<le> MAX_REQ \<Longrightarrow> b_size c \<le> n \<Longrightarrow> grants ensure n c g"
  by (simp add: always_grants_def)

text \<open>The bytes that \<^verbatim>\<open>operator<<\<close> appends for an operand.\<close>

fun rendered :: "heap \<Rightarrow> pushable \<Rightarrow> char list" where
  "rendered h (PChar c) = [c]"
| "rendered h (PInt v) = show_int (sint v)"
| "rendered h (PLong v) = show_int (sint v)"
| "rendered h (PLongLong v) = show_int (sint v)"
| "rendered h (PUnsigned v) = show_int (uint v)"
| "rendered h (PUnsignedLong v) = show_int (uint v)"
| "rendered h (PUnsignedLongLong v) = show_int (uint v)"
| "rendered h (PBuffer v) = view h v"
| "rendered h (PRef v) = view h v"
| "rendered h (PString v) = v"
| "rendered h (PArray v) = butlast v"
| "rendered h (PCstr v) = takeWhile (\<lambda>c. c \<noteq> NUL) v"

text \<open>Operands that are views must be live and lie outside the buffer that grows.\<close>

fun pushable_ok :: "heap \<Rightarrow> mbuf \<Rightarrow> pushable \<Rightarrow> bool" where
  "pushable_ok h b (PBuffer v) \<longleftrightarrow> ref_ok h v \<and> (b_size v = 0 \<or> owns v \<inter> owns b = {})"
| "pushable_ok h b (PRef v) \<longleftrightarrow> ref_ok h v \<and> (b_size v = 0 \<or> owns v \<inter> owns b = {})"
| "pushable_ok h b _ \<longleftrightarrow> True"

lemma ref_kept:
  assumes ok: "ref_ok h v" "heap_ok h" "frame (owns b) h h'" "moves (owns b) (owns b') h h'"
    and dis: "b_size v = 0 \<or> owns v \<inter> owns b = {}"
  shows "ref_ok h' v" "view h' v = view h v" "b_size v = 0 \<or> owns v \<inter> owns b' = {}"
proof -
  show "ref_ok h' v"
    using assms by (cases "b_size v = 0") (auto simp: ref_ok_def owns_def intro: readable_frame)
  show "view h' v = view h v"
    using assms view_frame [OF ok(1,2,3)] by (cases "b_size v = 0") (auto simp: view_def)
  have "owns v \<subseteq> {k. k < next_block h}" if "b_size v \<noteq> 0"
    using that ok live_lt_next [OF ok(2)]
    by (cases "b_data v") (auto simp: ref_ok_def owns_def readable_def split: option.splits if_splits)
  then show "b_size v = 0 \<or> owns v \<inter> owns b' = {}"
    using dis moves_fresh [OF ok(4)] by auto
qed

lemma pushable_kept:
  assumes "pushable_ok h b v" "heap_ok h" "frame (owns b) h h'" "moves (owns b) (owns b') h h'"
  shows "pushable_ok h' b' v \<and> rendered h' v = rendered h v"
proof (cases v)
  case (PBuffer w)
  with assms show ?thesis using ref_kept [OF _ assms(2-4), of w] by simp
next
  case (PRef w)
  with assms show ?thesis using ref_kept [OF _ assms(2-4), of w] by simp
qed simp_all

lemma view_take:
  assumes "ref_ok h (b\<lparr>b_size := m\<rparr>)" "n \<le> m"
  shows "view h (b\<lparr>b_size := n\<rparr>) = take n (view h (b\<lparr>b_size := m\<rparr>))"
  using assms bytes_at_take [of h "b_data b" m n] by (simp add: view_def ref_ok_def)

lemma push_back_char_eq: "push_back_char ensure c b h = push_back ensure (Local [c]) 1 b h"
proof -
  have m: "memcpy g p (Local [c]) 1 = store g p [c]" for g p by (cases p) (simp_all add: memcpy_def)
  show ?thesis
    unfolding push_back_char_def push_back_def m by (simp only: one_neq_zero if_True not_False_eq_True)
qed

text \<open>A chain \<^verbatim>\<open>buf << a << b << c\<close>.\<close>

fun shl_ops :: "ensurer \<Rightarrow> pushable list \<Rightarrow> mbuf \<Rightarrow> heap \<Rightarrow> (mbuf \<times> heap) res" where
  "shl_ops ensure [] b h = Inr (b, h)"
| "shl_ops ensure (v # vs) b h = bnd (shl_op ensure v b h) (\<lambda>(b', h'). shl_ops ensure vs b' h')"

section \<open>The contract of \<open>ensure\<close> and the laws of appending\<close>

locale ensure_contract =
  fixes ensure :: ensurer
    and inv :: "heap \<Rightarrow> mbuf \<Rightarrow> bool"
  assumes inv_mb_ok: "inv h b \<Longrightarrow> mb_ok h b"
    and inv_size: "inv h b \<Longrightarrow> n \<le> b_cap b \<Longrightarrow> inv h (b\<lparr>b_size := n\<rparr>)"
    and inv_store: "inv h b \<Longrightarrow> store h p bs = Inr h' \<Longrightarrow> inv h' b"
    and ensure_total:
      "inv h b \<Longrightarrow> heap_ok h \<Longrightarrow> 0 < n \<Longrightarrow> n \<le> MAX_REQ \<Longrightarrow> b_size b \<le> n \<Longrightarrow>
       \<exists>ok b' h'. ensure n b h = Inr (ok, b', h')"
    and ensure_keeps:
      "inv h b \<Longrightarrow> heap_ok h \<Longrightarrow> 0 < n \<Longrightarrow> n \<le> MAX_REQ \<Longrightarrow> b_size b \<le> n \<Longrightarrow>
       ensure n b h = Inr (ok, b', h') \<Longrightarrow>
       inv h' b' \<and> heap_ok h' \<and> frame (owns b) h h' \<and> b_size b' = b_size b \<and>
       b_cap b \<le> b_cap b' \<and> b_cap b' \<le> max (b_cap b) (n + 4095) \<and> view h' b' = view h b \<and>
       moves (owns b) (owns b') h h' \<and> (ok \<longrightarrow> n \<le> b_cap b')"
begin

lemma append_bytes:
  assumes inv: "inv h b" and ok: "heap_ok h" and fit: "b_size b + length bs \<le> b_cap b"
    and dst: "p = ptr_add (b_data b) (b_size b)"
  shows "\<exists>h'. store h p bs = Inr h' \<and> inv h' (b\<lparr>b_size := b_size b + length bs\<rparr>) \<and> heap_ok h' \<and>
    frame (owns b) h h' \<and> view h' (b\<lparr>b_size := b_size b + length bs\<rparr>) = view h b @ bs"
proof -
  have mb: "mb_ok h b" using inv by (rule inv_mb_ok)
  then have rd: "readable h (b_data b) (b_size b + length bs)"
    using fit by (auto simp: mb_ok_def intro: readable_mono)
  then have "readable h p (length bs)" unfolding dst by (rule readable_ptr_add) simp
  then obtain h' where st: "store h p bs = Inr h'" using store_ok by blast
  have "inv h' (b\<lparr>b_size := b_size b + length bs\<rparr>)"
    using inv_store [OF inv st] fit by (intro inv_size) auto
  moreover have "view h' (b\<lparr>b_size := b_size b + length bs\<rparr>) = view h b @ bs"
    using bytes_at_store_append [OF st [unfolded dst] rd] by (simp add: view_def)
  moreover have "frame (owns b) h h'" using store_blocks(2) [OF st] by (simp add: owns_def dst)
  ultimately show ?thesis using st store_blocks(1) [OF st ok] by blast
qed

lemma source_kept:
  assumes inv: "inv h b" and ok: "heap_ok h" and src: "fetch h src n = Inr bs" "0 < n"
    and dis: "source_block src \<inter> owns b = {}"
    and fr: "frame (owns b) h h'" and own: "owns b' \<subseteq> owns b \<or> owns b' \<inter> {k. k < next_block h} = {}"
  shows "fetch h' src n = Inr bs" "source_block src \<inter> owns b' = {}"
proof -
  show "fetch h' src n = Inr bs"
    using fetch_frame [OF fr ok dis src(1)] .
  have "source_block src \<subseteq> {k. k < next_block h}"
  proof (cases src)
    case (Heap p)
    then show ?thesis
      using src live_lt_next [OF ok] by (cases p) (auto split: if_splits option.splits)
  qed simp
  with dis own show "source_block src \<inter> owns b' = {}" by blast
qed

text \<open>
  Appending \<open>n\<close> bytes from elsewhere: memory safe, the invariant and all other blocks are kept,
  and the value of the buffer is extended by exactly those bytes, or unchanged when \<open>ensure\<close>
  says no.
\<close>

lemma push_back_spec:
  assumes inv: "inv h b" and ok: "heap_ok h" and src: "fetch h src n = Inr bs"
    and dis: "source_block src \<inter> owns b = {}" and n: "0 < n" and mx: "b_size b + n \<le> MAX_REQ"
  obtains granted b1 h1 b' h' where "ensure (b_size b + n) b h = Inr (granted, b1, h1)"
    "push_back ensure src n b h = Inr (b', h')" "inv h' b'" "heap_ok h'" "frame (owns b) h h'"
    "view h' b' = view h b @ (if granted then bs else [])"
    "b_size b' = b_size b + (if granted then n else 0)" "b_cap b \<le> b_cap b'" "moves (owns b) (owns b') h h'"
proof -
  have "b_size b + n < SIZE_MOD" using mx by (simp add: MAX_REQ_def)
  then have sz: "sz_add (b_size b) n = b_size b + n" by simp
  obtain granted b1 h1 where e: "ensure (b_size b + n) b h = Inr (granted, b1, h1)"
    using ensure_total [OF inv ok _ mx] n by auto
  then have K: "inv h1 b1 \<and> heap_ok h1 \<and> frame (owns b) h h1 \<and> b_size b1 = b_size b \<and>
      b_cap b \<le> b_cap b1 \<and> b_cap b1 \<le> max (b_cap b) (b_size b + n + 4095) \<and> view h1 b1 = view h b \<and>
      moves (owns b) (owns b1) h h1 \<and>
      (granted \<longrightarrow> b_size b + n \<le> b_cap b1)"
    using n by (intro ensure_keeps [OF inv ok _ mx]) auto
  show thesis
  proof (cases granted)
    case False
    then have "push_back ensure src n b h = Inr (b1, h1)"
      using e sz n by (simp add: push_back_def reserve_def)
    with K e False show thesis by (intro that [of granted b1 h1 b1 h1]) auto
  next
    case True
    let ?p = "ptr_add (b_data b1) (b_size b1)"
    have len: "length bs = n" using src by (rule fetch_Inr_length)
    have f1: "fetch h1 src n = Inr bs" and dis1: "source_block src \<inter> owns b1 = {}"
      using source_kept [OF inv ok src n dis, of h1 b1] K moves_fresh by blast+
    have fit: "b_size b1 + length bs \<le> b_cap b1" using K True len by simp
    obtain h2 where h2: "store h1 ?p bs = Inr h2" "inv h2 (b1\<lparr>b_size := b_size b1 + length bs\<rparr>)"
      "heap_ok h2" "frame (owns b1) h1 h2"
      "view h2 (b1\<lparr>b_size := b_size b1 + length bs\<rparr>) = view h1 b1 @ bs"
      using append_bytes [OF _ _ fit refl, of h1] K by blast
    have "memcpy h1 ?p src n = Inr h2"
      using f1 h2(1) dis1 overlaps_blocks [of ?p src n] by (auto simp: memcpy_def owns_def)
    then have pb: "push_back ensure src n b h = Inr (b1\<lparr>b_size := b_size b1 + length bs\<rparr>, h2)"
      using e sz n True K len by (simp add: push_back_def reserve_def)
    have "frame (owns b) h h2"
      using frame_trans_fresh [OF _ h2(4), of "owns b" h] K moves_fresh by blast
    moreover have "moves (owns b) (owns b1) h h2"
      using moves_trans [of "owns b" "owns b1" h h1 "owns b1" h2] moves_store [OF h2(1)] K ok
      by (simp add: owns_def frame_def)
    ultimately show thesis
      using K e True h2 len pb
      by (intro that [of granted b1 h1 "b1\<lparr>b_size := b_size b1 + length bs\<rparr>" h2])
        (simp_all add: owns_def)
  qed
qed

lemma push_back_appended:
  assumes inv: "inv h b" and ok: "heap_ok h" and src: "fetch h src n = Inr bs"
    and dis: "n = 0 \<or> source_block src \<inter> owns b = {}" and mx: "b_size b + n \<le> MAX_REQ"
  shows "\<exists>b' h'. push_back ensure src n b h = Inr (b', h') \<and>
    appended inv h b h' b' (if grants ensure (b_size b + n) b h then bs else [])"
proof (cases "n = 0")
  case True
  moreover have "bs = []" using fetch_Inr_length [OF src] True by simp
  ultimately show ?thesis
    using inv ok by (auto simp: push_back_def intro: appended_refl)
next
  case False
  then have n: "0 < n" and d: "source_block src \<inter> owns b = {}" using dis by auto
  have len: "length bs = n" using src by (rule fetch_Inr_length)
  obtain granted b1 h1 b' h' where S: "ensure (b_size b + n) b h = Inr (granted, b1, h1)"
    "push_back ensure src n b h = Inr (b', h')" "inv h' b'" "heap_ok h'" "frame (owns b) h h'"
    "view h' b' = view h b @ (if granted then bs else [])"
    "b_size b' = b_size b + (if granted then n else 0)" "b_cap b \<le> b_cap b'" "moves (owns b) (owns b') h h'"
    using push_back_spec [OF inv ok src d n mx] by metis
  then show ?thesis
    using len by (intro exI [of _ b'] exI [of _ h']) (auto simp: appended_def grants_def)
qed

lemma shl_op_appended:
  assumes inv: "inv h b" "heap_ok h" and v: "pushable_ok h b v"
    and mx: "b_size b + length (rendered h v) \<le> MAX_REQ"
  shows "\<exists>b' h'. shl_op ensure v b h = Inr (b', h') \<and> appended inv h b h' b'
    (if grants ensure (b_size b + length (rendered h v)) b h then rendered h v else [])"
proof -
  have L: "\<exists>b' h'. push_back ensure (Local s) n b h = Inr (b', h') \<and> appended inv h b h' b'
      (if grants ensure (b_size b + n) b h then take n s else [])"
    if "n \<le> length s" "b_size b + n \<le> MAX_REQ" for s n
    using push_back_appended [OF inv, of "Local s" n "take n s"] that by simp
  have R: "\<exists>b' h'. push_back ensure (Heap (b_data w)) (b_size w) b h = Inr (b', h') \<and> appended inv h b h' b'
      (if grants ensure (b_size b + b_size w) b h then view h w else [])"
    if "ref_ok h w" "b_size w = 0 \<or> owns w \<inter> owns b = {}" "b_size b + b_size w \<le> MAX_REQ"
    for w :: "'x bufref_scheme"
    using push_back_appended [OF inv, of "Heap (b_data w)" "b_size w" "view h w"] that
    by (simp add: load_view owns_def)
  have T: "take (strlen s) s = takeWhile (\<lambda>c. c \<noteq> NUL) s" for s
    by (simp add: strlen_def flip: takeWhile_eq_take)
  have B: "take (length s - Suc 0) s = butlast s" for s :: string by (simp add: butlast_conv_take)
  show ?thesis
  proof (cases v)
    case (PBuffer w)
    with v mx show ?thesis using R [of w] by (simp add: push_back_ref_def cong: if_cong split del: if_split)
  next
    case (PRef w)
    with v mx show ?thesis using R [of w] by (simp add: push_back_ref_def cong: if_cong split del: if_split)
  next
    case (PArray s)
    with mx show ?thesis using L [of "length s - Suc 0" s] by (simp add: push_back_array_def B cong: if_cong split del: if_split)
  next
    case (PCstr s)
    with mx show ?thesis
      using L [of "length (rendered h v)" "rendered h v"] by (simp add: push_back_string_def T cong: if_cong split del: if_split)
  qed (use mx L [of "length (rendered h v)" "rendered h v"] in
      \<open>simp_all add: push_back_char_eq push_back_int_def push_back_long_def push_back_long_long_def
        push_back_unsigned_def push_back_unsigned_long_def push_back_unsigned_long_long_def
        push_back_string_def Let_def cong: if_cong split del: if_split\<close>)
qed

text \<open>
  A chain of \<^verbatim>\<open><<\<close> appends a subsequence of the pieces, and all of them when every request is
  granted.
\<close>

lemma shl_ops_appended:
  assumes "inv h b" "heap_ok h" "\<forall>v \<in> set vs. pushable_ok h b v"
    and "b_size b + length (concat (map (rendered h) vs)) \<le> MAX_REQ"
  shows "\<exists>ws b' h'. shl_ops ensure vs b h = Inr (b', h') \<and> appended inv h b h' b' (concat ws) \<and>
    subseq ws (map (rendered h) vs) \<and>
    (always_grants ensure inv (answers h) \<longrightarrow> ws = map (rendered h) vs)"
  using assms
proof (induction vs arbitrary: b h)
  case Nil
  then show ?case by (intro exI [of _ "[]"] exI [of _ b] exI [of _ h]) (simp add: appended_refl)
next
  case (Cons v vs)
  let ?r = "rendered h v"
  let ?g = "grants ensure (b_size b + length ?r) b h"
  obtain b1 h1 where 1: "shl_op ensure v b h = Inr (b1, h1)"
    "appended inv h b h1 b1 (if ?g then ?r else [])"
    using shl_op_appended [OF Cons.prems(1,2), of v] Cons.prems(3,4) by auto
  then have fr: "frame (owns b) h h1" "moves (owns b) (owns b1) h h1" by (simp_all add: appended_def)
  have k: "pushable_ok h1 b1 w \<and> rendered h1 w = rendered h w" if "w \<in> set vs" for w
    using pushable_kept [OF _ Cons.prems(2) fr, of w] Cons.prems(3) that by simp
  then have eq: "map (rendered h1) vs = map (rendered h) vs" by simp
  have an: "answers h1 = answers h" using fr(1) by (simp add: frame_def)
  obtain ws b2 h2 where 2: "shl_ops ensure vs b1 h1 = Inr (b2, h2)"
    "appended inv h1 b1 h2 b2 (concat ws)" "subseq ws (map (rendered h) vs)"
    "always_grants ensure inv (answers h) \<longrightarrow> ws = map (rendered h) vs"
    using Cons.IH [of h1 b1] 1(2) k Cons.prems(4) unfolding eq an
    by (auto simp: appended_def split: if_splits)
  let ?ws = "if ?g \<or> ?r = [] then ?r # ws else ws"
  have ap: "appended inv h b h2 b2 (concat ?ws)"
    using appended_trans [OF 1(2) 2(2) Cons.prems(2)] by (auto split: if_splits)
  have all: "?g \<or> ?r = []" if "always_grants ensure inv (answers h)"
    using that Cons.prems(1,2,4) unfolding always_grants_def by auto
  have "subseq ?ws (?r # map (rendered h) vs)" using 2(3) by (simp add: subseq_Cons2_iff list_emb_Cons)
  then show ?case
    using 1(1) 2(1,4) ap all by (intro exI [of _ ?ws] exI [of _ b2] exI [of _ h2]) simp
qed

text \<open>
  \<^verbatim>\<open>snprintf\<close> into the spare room: the buffer keeps its value, and what was printed is behind it
  when it fits.
\<close>

lemma snprintf_spare:
  assumes inv: "inv h b" "heap_ok h"
  obtains h' where
    "snprintf h (ptr_add (b_data b) (b_size b)) (b_cap b - b_size b) (Some s) = Inr (int (length s), h')"
    "appended inv h b h' b []"
    "length s < b_cap b - b_size b \<Longrightarrow> appended inv h b h' (b\<lparr>b_size := b_size b + length s\<rparr>) s"
proof (cases "b_cap b - b_size b = 0")
  case True
  then show thesis using that [of h] appended_refl [of inv, OF inv] by (simp add: snprintf_def)
next
  case False
  let ?room = "b_cap b - b_size b" and ?p = "ptr_add (b_data b) (b_size b)"
  let ?bs = "take (?room - 1) s @ [NUL]" and ?b = "\<lambda>n. b\<lparr>b_size := b_size b + n\<rparr>"
  have sz: "b_size b \<le> b_cap b" using inv_mb_ok [OF inv(1)] by (simp add: mb_ok_def)
  have fit: "b_size b + length ?bs \<le> b_cap b" using False by auto
  obtain h' where st: "store h ?p ?bs = Inr h'" "inv h' (?b (length ?bs))" "heap_ok h'"
    "frame (owns b) h h'" "view h' (?b (length ?bs)) = view h b @ ?bs"
    using append_bytes [OF inv fit refl] by blast
  have rf: "ref_ok h' (?b (length ?bs))" using mb_ok_ref_ok [OF inv_mb_ok [OF st(2)]] .
  have len: "length (view h b) = b_size b" using length_view [OF mb_ok_ref_ok [OF inv_mb_ok [OF inv(1)]]] .
  have ap: "appended inv h b h' (?b n) (take n ?bs)" if "n \<le> length ?bs" for n
  proof -
    have "view h' (?b n) = take (b_size b + n) (view h b @ ?bs)"
      using view_take [OF rf, of "b_size b + n"] that st(5) by simp
    moreover have "inv h' (?b n)"
      using inv_size [OF inv_store [OF inv(1) st(1)], of "b_size b + n"] that fit by simp
    moreover have "moves (owns b) (owns (?b n)) h h'" using moves_store [OF st(1)] by (simp add: owns_def)
    ultimately show ?thesis using st that len by (simp add: appended_def)
  qed
  have "snprintf h ?p ?room (Some s) = Inr (int (length s), h')"
    using st(1) False by (simp add: snprintf_def)
  moreover have "appended inv h b h' (?b (length s)) s" if "length s < ?room"
  proof -
    from that have "take (length s) ?bs = s" "length s \<le> length ?bs" by auto
    with ap [of "length s"] show ?thesis by simp
  qed
  moreover have "appended inv h b h' b []" using ap [of 0] by simp
  ultimately show thesis using that [of h'] by blast
qed

lemma printf_loop_step:
  assumes inv: "inv h b" "heap_ok h" and cap: "b_cap b + length s < 4611686018427387904"
  obtains h1 where "appended inv h b h1 b []"
    "length s < b_cap b - b_size b \<Longrightarrow> appended inv h b h1 (b\<lparr>b_size := b_size b + length s\<rparr>) s"
    "printf_loop ensure (Some s) (Suc fuel) b h =
       (if length s < b_cap b - b_size b then Some (Inr (b\<lparr>b_size := b_size b + length s\<rparr>, h1))
        else case ensure (b_cap b + length s + 1) b h1 of
               Inl e \<Rightarrow> Some (Inl e)
             | Inr (ok, b2, h2) \<Rightarrow>
                 if ok then printf_loop ensure (Some s) fuel b2 h2
                 else Some (bnd (store h2 (ptr_add (b_data b2) (sz_sub (b_cap b2) 1)) [NUL])
                              (\<lambda>h3. Inr (b2, h3))))"
proof -
  have sz: "b_size b \<le> b_cap b" using inv_mb_ok [OF inv(1)] by (simp add: mb_ok_def)
  have e1: "sz_sub (b_cap b) (b_size b) = b_cap b - b_size b" using sz cap by simp
  have e2: "to_ssize (b_cap b - b_size b) = int (b_cap b - b_size b)" using cap by simp
  have e3: "of_ssize (int (b_size b) + int (length s)) = b_size b + length s"
    "of_ssize (int (length s) + 1) = length s + 1" using sz cap by (simp_all add: nat_add_distrib)
  have e4: "sz_add (b_cap b) (Suc (length s)) = Suc (b_cap b + length s)" using cap by simp
  show thesis
  proof (rule snprintf_spare [OF inv, of s])
    fix h1
    assume a: "snprintf h (ptr_add (b_data b) (b_size b)) (b_cap b - b_size b) (Some s) = Inr (int (length s), h1)"
      "appended inv h b h1 b []"
      "length s < b_cap b - b_size b \<Longrightarrow> appended inv h b h1 (b\<lparr>b_size := b_size b + length s\<rparr>) s"
    have "snd (resize (b_size b + length s) b) = b\<lparr>b_size := b_size b + length s\<rparr>"
      if "length s < b_cap b - b_size b" using that by (simp add: resize_def)
    then show thesis
      using a by (intro that [of h1]) (simp_all add: printf_loop.simps(2) e1 e2 e3 e4 reserve_def Let_def)
  qed
qed

text \<open>Two rounds of the loop are enough: the second one has room for all that is printed.\<close>

lemma printf_loop_appended:
  assumes inv: "inv h b" "heap_ok h" and yes: "always_grants ensure inv (answers h)"
    and cap: "b_cap b + length s < 1152921504606846976"
  shows "\<exists>b' h'. printf_loop ensure (Some s) (Suc (Suc fuel)) b h = Some (Inr (b', h')) \<and>
    appended inv h b h' b' s"
proof -
  have cap': "b_cap b + length s < 4611686018427387904" using cap by simp
  obtain h1 where 1: "appended inv h b h1 b []"
    "length s < b_cap b - b_size b \<Longrightarrow> appended inv h b h1 (b\<lparr>b_size := b_size b + length s\<rparr>) s"
    "printf_loop ensure (Some s) (Suc (Suc fuel)) b h =
       (if length s < b_cap b - b_size b then Some (Inr (b\<lparr>b_size := b_size b + length s\<rparr>, h1))
        else case ensure (b_cap b + length s + 1) b h1 of
               Inl e \<Rightarrow> Some (Inl e)
             | Inr (ok, b2, h2) \<Rightarrow>
                 if ok then printf_loop ensure (Some s) (Suc fuel) b2 h2
                 else Some (bnd (store h2 (ptr_add (b_data b2) (sz_sub (b_cap b2) 1)) [NUL])
                              (\<lambda>h3. Inr (b2, h3))))"
    by (rule printf_loop_step [OF inv cap' that])
  show ?thesis
  proof (cases "length s < b_cap b - b_size b")
    case True
    with 1 show ?thesis by simp
  next
    case False
    let ?n = "b_cap b + length s + 1"
    have i1: "inv h1 b" "heap_ok h1" "answers h1 = answers h" using 1(1) by (auto simp: appended_def frame_def)
    have sz: "b_size b \<le> b_cap b" using inv_mb_ok [OF inv(1)] by (simp add: mb_ok_def)
    then have n: "0 < ?n" "?n \<le> MAX_REQ" "b_size b \<le> ?n" using cap by (simp_all add: MAX_REQ_def)
    have "grants ensure ?n b h1" by (rule always_grantsD [OF yes i1 n])
    then obtain b2 h2 where e: "ensure ?n b h1 = Inr (True, b2, h2)"
      using ensure_total [OF i1(1,2) n] by (auto simp: grants_def)
    note K = ensure_keeps [OF i1(1,2) n e]
    have ap2: "appended inv h1 b h2 b2 []" using K by (simp add: appended_def)
    have room: "length s < b_cap b2 - b_size b2"
      using K sz by auto
    have cap2: "b_cap b2 + length s < 4611686018427387904" using K cap by auto
    have i2: "inv h2 b2" "heap_ok h2" using K by auto
    obtain h3 where "printf_loop ensure (Some s) (Suc fuel) b2 h2 =
        Some (Inr (b2\<lparr>b_size := b_size b2 + length s\<rparr>, h3))"
      "appended inv h2 b2 h3 (b2\<lparr>b_size := b_size b2 + length s\<rparr>) s"
      by (rule printf_loop_step [OF i2 cap2, of fuel]) (use room in auto)
    then show ?thesis
      using 1(3) False e appended_trans [OF appended_trans [OF 1(1) ap2 inv(2)] _ inv(2)] by auto
  qed
qed

lemma printf_appended:
  assumes inv: "inv h b" "heap_ok h" and yes: "always_grants ensure inv (answers h)"
    and cap: "b_cap b + strlen fmt + length s < 576460752303423488" and fuel: "2 \<le> fuel"
  shows "\<exists>b' h'. printf ensure fmt (Some s) fuel b h = Some (Inr (b', h')) \<and> appended inv h b h' b' s"
proof -
  let ?n = "b_size b + strlen fmt + 1"
  have sz: "b_size b \<le> b_cap b" using inv_mb_ok [OF inv(1)] by (simp add: mb_ok_def)
  then have n: "0 < ?n" "?n \<le> MAX_REQ" "b_size b \<le> ?n"
    and eq: "sz_add (sz_add (b_size b) (strlen fmt)) 1 = ?n" using cap by (simp_all add: MAX_REQ_def)
  obtain ok b1 h1 where e: "ensure ?n b h = Inr (ok, b1, h1)" using ensure_total [OF inv n] by auto
  note K = ensure_keeps [OF inv n e]
  have ap: "appended inv h b h1 b1 []" using K by (simp add: appended_def)
  have an: "answers h1 = answers h" using K by (simp add: frame_def)
  have cap1: "b_cap b1 + length s < 1152921504606846976" using K cap sz by auto
  obtain f where f: "fuel = Suc (Suc f)" using fuel by (metis Suc_le_D numeral_2_eq_2 Suc_le_mono)
  obtain b' h' where "printf_loop ensure (Some s) fuel b1 h1 = Some (Inr (b', h'))"
    "appended inv h1 b1 h' b' s"
    using printf_loop_appended [of h1 b1 s f] K yes cap1 unfolding an f by auto
  then show ?thesis
    using e appended_trans [OF ap _ inv(2)] unfolding printf_def eq reserve_def by auto
qed

end

end
