(* ===== verification/Managed_Buffer.thy ===== *)
theory Managed_Buffer
  imports Mutable_Buffer
begin

text \<open>
  The two instances of \<^verbatim>\<open>MutableBuffer\<close> (\<^verbatim>\<open>include/xio/Buffer.h\<close>, \<^verbatim>\<open>lib/Buffer.cpp\<close>): \<^verbatim>\<open>FixedBuffer\<close> over memory
  that it does not own, and \<^verbatim>\<open>Buffer\<close>, which allocates, grows and frees its storage, with its
  constructors, assignments, \<open>setCapacity\<close> and the slices that refer to it. Both interpret the
  contract of \<open>ensure\<close>.
\<close>

section \<open>Fixed buffers\<close>

definition immutableEnsure :: ensurer where
  "immutableEnsure n b h = Inr (n \<le> b_cap b, b, h)"

definition FixedBuffer :: "ptr \<Rightarrow> nat \<Rightarrow> nat \<Rightarrow> mbuf" where
  "FixedBuffer p cap n = mk_mbuf p cap n"

text \<open>The two-argument constructor starts full and then appends its own memory to itself.\<close>

definition FixedBuffer2 :: "ptr \<Rightarrow> nat \<Rightarrow> heap \<Rightarrow> (mbuf \<times> heap) res" where
  "FixedBuffer2 p n h = push_back immutableEnsure (Heap p) n (mk_mbuf p n n) h"

section \<open>Capacity of managed buffers\<close>

definition CHUNK_SIZE :: nat where
  "CHUNK_SIZE = 4096"

text \<open>The part of \<^verbatim>\<open>setCapacity\<close> from the call of \<^verbatim>\<open>realloc\<close> on.\<close>

definition setCapacity_realloc :: "nat \<Rightarrow> mbuf \<Rightarrow> heap \<Rightarrow> (bool \<times> mbuf \<times> heap) res" where
  "setCapacity_realloc value b h =
     bnd (realloc h (b_data b) value) (\<lambda>(rp, h').
       if rp \<noteq> Null then Inr (True, b\<lparr>b_data := rp, b_cap := value\<rparr>, h')
       else if value = 0 then Inr (True, b\<lparr>b_cap := value\<rparr>, h')
       else Inr (False, b, h'))"

definition round_up :: "nat \<Rightarrow> nat" where
  "round_up value =
     (let v = sz_sub value 1 in sz_sub (sz_add v CHUNK_SIZE) (v mod CHUNK_SIZE))"

definition setCapacity :: "nat \<Rightarrow> mbuf \<Rightarrow> heap \<Rightarrow> (bool \<times> mbuf \<times> heap) res" where
  "setCapacity value b h =
     (if value = 0 \<and> b_cap b \<noteq> 0
      then bnd (free_mem h (b_data b)) (\<lambda>h'. Inr (True, b\<lparr>b_cap := 0\<rparr>, h'))
      else if b_cap b < value
      then setCapacity_realloc (if b_cap b \<noteq> 0 then round_up value else value) b h
      else if value < b_cap b
      then setCapacity_realloc value (if value < b_size b then b\<lparr>b_size := value\<rparr> else b) h
      else Inr (True, b, h))"

definition mutableEnsure :: ensurer where
  "mutableEnsure n b h =
     (if b_cap b < n \<or> n = 0 then setCapacity n b h else Inr (True, b, h))"

section \<open>Construction, assignment, destruction\<close>

definition Buffer_cap :: "nat \<Rightarrow> heap \<Rightarrow> (mbuf \<times> heap) res" where
  "Buffer_cap cap h = bnd (reserve mutableEnsure cap empty_mbuf h) (\<lambda>(_, b, h'). Inr (b, h'))"

definition Buffer_cstr :: "char list \<Rightarrow> heap \<Rightarrow> (mbuf \<times> heap) res" where
  "Buffer_cstr v h = push_back_string mutableEnsure (take (strlen v) v) empty_mbuf h"

text \<open>From a \<^verbatim>\<open>std::string\<close>: the terminator is copied as well, then cut off again.\<close>

definition Buffer_string :: "string \<Rightarrow> heap \<Rightarrow> (mbuf \<times> heap) res" where
  "Buffer_string v h =
     bnd (push_back mutableEnsure (Local (v @ [NUL])) (length v + 1) empty_mbuf h) (\<lambda>(b, h').
       Inr (snd (resize (length v) b), h'))"

definition Buffer_copy :: "mbuf \<Rightarrow> heap \<Rightarrow> (mbuf \<times> heap) res" where
  "Buffer_copy v h = push_back mutableEnsure (Heap (b_data v)) (b_size v) empty_mbuf h"

definition Buffer_sub :: "'a bufref_scheme \<Rightarrow> nat \<Rightarrow> nat \<Rightarrow> heap \<Rightarrow> (mbuf \<times> heap) res" where
  "Buffer_sub v off count h =
     assertC (sz_add off count \<le> b_size v)
       (push_back mutableEnsure (Heap (ptr_add (b_data v) off)) count empty_mbuf h)"

definition Buffer_destroy :: "mbuf \<Rightarrow> heap \<Rightarrow> heap res" where
  "Buffer_destroy b h = bnd (reserve mutableEnsure 0 b h) (\<lambda>(_, _, h'). Inr h')"

text \<open>Move assignment from a different object \<open>v\<close>: the new values of both.\<close>

definition move_assign :: "mbuf \<Rightarrow> mbuf \<Rightarrow> heap \<Rightarrow> (mbuf \<times> mbuf \<times> heap) res" where
  "move_assign b v h =
     bnd (reserve mutableEnsure 0 b h) (\<lambda>(_, b', h').
       Inr (b'\<lparr>b_data := b_data v, b_size := b_size v, b_cap := b_cap v\<rparr>,
            v\<lparr>b_data := Null, b_size := 0, b_cap := 0\<rparr>, h'))"

definition assign_ref :: "'a bufref_scheme \<Rightarrow> mbuf \<Rightarrow> heap \<Rightarrow> (mbuf \<times> heap) res" where
  "assign_ref v b h = push_back_ref mutableEnsure v (clear b) h"

definition assign_string :: "string \<Rightarrow> mbuf \<Rightarrow> heap \<Rightarrow> (mbuf \<times> heap) res" where
  "assign_string v b h = push_back mutableEnsure (Local v) (length v) (clear b) h"

definition assign_cstr :: "char list \<Rightarrow> mbuf \<Rightarrow> heap \<Rightarrow> (mbuf \<times> heap) res" where
  "assign_cstr v b h = push_back mutableEnsure (Local v) (strlen v) (clear b) h"

definition c_str :: "mbuf \<Rightarrow> heap \<Rightarrow> (ptr \<times> mbuf \<times> heap) res" where
  "c_str b h =
     bnd (reserve mutableEnsure (sz_add (b_size b) 1) b h) (\<lambda>(ok, b', h').
       if ok
       then bnd (store h' (ptr_add (b_data b') (b_size b')) [NUL]) (\<lambda>h''. Inr (b_data b', b', h''))
       else Inr (b_data b', b', h'))"

section \<open>Slices\<close>

text \<open>
  A \<^verbatim>\<open>BufferSlice\<close> refers to a \<^verbatim>\<open>Buffer\<close> object, not to its memory: \<open>s_buffer\<close> names the object
  (\<open>None\<close> is the null pointer), and the objects of the program are a map from names to values.
\<close>

record bslice =
  s_buffer :: "nat option"
  s_offset :: nat
  s_size :: nat

definition slice_from :: "nat \<Rightarrow> mbuf \<Rightarrow> nat \<Rightarrow> bslice res" where
  "slice_from name b off =
     assertC (off \<le> b_size b)
       (Inr \<lparr>s_buffer = Some name, s_offset = off, s_size = sz_sub (b_size b) off\<rparr>)"

definition slice_sub :: "nat \<Rightarrow> mbuf \<Rightarrow> nat \<Rightarrow> nat \<Rightarrow> bslice res" where
  "slice_sub name b off count =
     assertC (off \<le> b_size b) (assertC (count = npos \<or> sz_add off count \<le> b_size b)
       (Inr (if count \<noteq> npos
             then \<lparr>s_buffer = Some name, s_offset = off, s_size = count\<rparr>
             else \<lparr>s_buffer = Some name, s_offset = off, s_size = sz_sub (b_size b) off\<rparr>)))"

text \<open>Every access converts the \<^verbatim>\<open>BufferOffset\<close> to a pointer; \<open>slice_ref\<close> is the resulting view.\<close>

definition slice_ref :: "(nat \<Rightarrow> mbuf) \<Rightarrow> bslice \<Rightarrow> bufref res" where
  "slice_ref bufs s =
     (case s_buffer s of
        None \<Rightarrow> Inl AssertFailed
      | Some name \<Rightarrow> Inr (mk_ref (ptr_add (b_data (bufs name)) (s_offset s)) (s_size s)))"

text \<open>\<^verbatim>\<open>shl\<close>: its assertion compares an unsigned number with zero, so it always holds.\<close>

definition shl :: "int \<Rightarrow> bslice \<Rightarrow> bslice res" where
  "shl value s =
     assertC (0 \<le> sz_sub (s_offset s) (of_ssize value))
       (Inr (s\<lparr>s_offset := sz_sub (s_offset s) (of_ssize value)\<rparr>))"

definition shr :: "int \<Rightarrow> bslice \<Rightarrow> bslice" where
  "shr value s = s\<lparr>s_size := sz_add (s_size s) (of_ssize value)\<rparr>"

section \<open>Invariant of managed buffers\<close>

definition buffer_ok :: "heap \<Rightarrow> mbuf \<Rightarrow> bool" where
  "buffer_ok h b \<longleftrightarrow> b_size b \<le> b_cap b \<and> b_cap b < SIZE_MOD \<and>
     (if b_cap b = 0 then b_data b = Null else block_at h (b_data b) (b_cap b))"

lemma buffer_ok_mb_ok: "buffer_ok h b \<Longrightarrow> mb_ok h b"
  by (auto simp: buffer_ok_def mb_ok_def intro: block_at_readable split: if_splits)

lemma buffer_ok_size: "buffer_ok h b \<Longrightarrow> n \<le> b_cap b \<Longrightarrow> buffer_ok h (b\<lparr>b_size := n\<rparr>)"
  by (simp add: buffer_ok_def)

lemma buffer_ok_store: "buffer_ok h b \<Longrightarrow> store h p bs = Inr h' \<Longrightarrow> buffer_ok h' b"
  by (simp add: buffer_ok_def block_at_store)

lemma buffer_ok_empty [simp]: "buffer_ok h empty_mbuf"
  by (simp add: buffer_ok_def empty_mbuf_def mk_mbuf_def)

lemma view_empty_mbuf [simp]: "view h empty_mbuf = []"
  by (simp add: view_def empty_mbuf_def mk_mbuf_def)

lemma empty_mbuf_sel [simp]:
  "b_data empty_mbuf = Null" "b_size empty_mbuf = 0" "b_cap empty_mbuf = 0" "owns empty_mbuf = {}"
  by (simp_all add: empty_mbuf_def mk_mbuf_def owns_def)

lemma block_at_frame [framed]:
  "block_at h p n \<Longrightarrow> heap_ok h \<Longrightarrow> frame K h h' \<Longrightarrow> ptr_block p \<inter> K = {} \<Longrightarrow> block_at h' p n"
  by (auto simp: block_at_def frame_def dest: live_lt_next)

lemma buffer_ok_frame [framed]:
  "buffer_ok h b \<Longrightarrow> heap_ok h \<Longrightarrow> frame K h h' \<Longrightarrow> owns b \<inter> K = {} \<Longrightarrow> buffer_ok h' b"
  by (auto simp: buffer_ok_def owns_def intro: block_at_frame split: if_splits)

lemma owns_live [live]: "buffer_ok h b \<Longrightarrow> heap_ok h \<Longrightarrow> \<forall>k \<in> owns b. k < next_block h"
  by (cases "b_data b") (auto simp: buffer_ok_def owns_def block_at_def split: if_splits dest: live_lt_next)

lemma round_up_eq:
  assumes "0 < value" "value \<le> MAX_REQ"
  shows "round_up value = value - 1 + 4096 - (value - 1) mod 4096"
proof -
  let ?v = "value - 1"
  have "?v + 4096 < SIZE_MOD" using assms by (simp add: MAX_REQ_def)
  moreover have "?v mod 4096 \<le> ?v + 4096" by (rule trans_le_add1) simp
  ultimately show ?thesis
    using assms by (simp add: round_up_def CHUNK_SIZE_def Let_def MAX_REQ_def)
qed

lemma round_up_bounds:
  assumes "0 < value" "value \<le> MAX_REQ"
  shows "value \<le> round_up value" "round_up value < value + 4096" "4096 dvd round_up value"
    "round_up value < SIZE_MOD"
proof -
  let ?v = "value - 1"
  have m: "?v mod 4096 < 4096" "?v mod 4096 \<le> ?v" by simp_all
  show "value \<le> round_up value" "round_up value < value + 4096"
    unfolding round_up_eq [OF assms] using m assms(1) by linarith+
  then show "round_up value < SIZE_MOD" using assms(2) by (simp add: MAX_REQ_def)
  have "?v + 4096 - ?v mod 4096 = 4096 * (?v div 4096 + 1)"
    using m by (simp add: minus_mod_eq_mult_div [symmetric] algebra_simps)
  then show "4096 dvd round_up value"
    unfolding round_up_eq [OF assms] by simp
qed

section \<open>Laws of \<open>setCapacity\<close>\<close>

text \<open>The capacity asked of \<^verbatim>\<open>realloc\<close>.\<close>

definition target_cap :: "nat \<Rightarrow> mbuf \<Rightarrow> nat" where
  "target_cap value b = (if b_cap b < value \<and> b_cap b \<noteq> 0 then round_up value else value)"

lemma target_cap_bounds:
  assumes "0 < value" "value \<le> MAX_REQ"
  shows "value \<le> target_cap value b" "target_cap value b < SIZE_MOD" "target_cap value b \<le> value + 4095"
  using round_up_bounds [OF assms] assms by (auto simp: target_cap_def MAX_REQ_def)

text \<open>Reallocation to a positive size keeps the invariant and the common prefix.\<close>

lemma setCapacity_realloc_spec:
  assumes ok: "buffer_ok h b" "heap_ok h" and n: "0 < n" "n < SIZE_MOD" "b_size b \<le> n"
  obtains granted b' h' where "setCapacity_realloc n b h = Inr (granted, b', h')"
    "buffer_ok h' b'" "heap_ok h'" "frame (owns b) h h'" "b_size b' = b_size b"
    "view h' b' = view h b" "b_cap b' = (if granted then n else b_cap b)"
    "moves (owns b) (owns b') h h'"
    "granted \<longleftrightarrow> answers h (next_block h) n \<noteq> Refuse"
proof (cases "b_cap b = 0")
  case True
  with ok have b: "b_data b = Null" "b_size b = 0" "b_cap b = 0" by (auto simp: buffer_ok_def)
  show thesis
  proof (cases "answers h (next_block h) n = Refuse")
    case True
    with b n have "setCapacity_realloc n b h = Inr (False, b, h\<lparr>next_block := Suc (next_block h)\<rparr>)"
      by (simp add: setCapacity_realloc_def Let_def)
    then show thesis
      by (rule that) (use ok b True in \<open>auto simp: buffer_ok_def heap_ok_def frame_def view_def block_at_def owns_def moves_def\<close>)
  next
    case False
    let ?h = "h\<lparr>next_block := Suc (next_block h), blocks := (blocks h)(next_block h \<mapsto> resize_block (junk h) n [])\<rparr>"
    from False b n have "setCapacity_realloc n b h =
        Inr (True, b\<lparr>b_data := Addr (next_block h) 0, b_cap := n\<rparr>, ?h)"
      by (simp add: setCapacity_realloc_def Let_def)
    then show thesis
      by (rule that)
        (use ok b False n in \<open>auto simp: buffer_ok_def heap_ok_def frame_def view_def block_at_def owns_def moves_def\<close>)
  qed
next
  case False
  with ok have blk: "block_at h (b_data b) (b_cap b)" by (simp add: buffer_ok_def)
  obtain q h' where r: "realloc h (b_data b) n = Inr (q, h')" using realloc_total blk by blast
  have gr: "(q \<noteq> Null) \<longleftrightarrow> answers h (next_block h) n \<noteq> Refuse"
    using r blk n by (auto simp: block_at_def Let_def split: answer.splits)
  note C = realloc_block_cases [OF r ok(2) blk n(1)]
  show thesis
  proof (cases "q = Null")
    case True
    with r n have "setCapacity_realloc n b h = Inr (False, b, h')"
      by (simp add: setCapacity_realloc_def)
    moreover have "blocks h' = blocks h" using C(5) True by (auto simp: block_at_def)
    then have "buffer_ok h' b" "view h' b = view h b"
      using ok(1) by (auto simp: buffer_ok_def block_at_def view_def bytes_at_def load_cong_blocks [of h' h])
    ultimately show thesis
      using C True gr by (intro that [of False b h']) (auto simp: owns_def moves_def)
  next
    case False
    with r have "setCapacity_realloc n b h = Inr (True, b\<lparr>b_data := q, b_cap := n\<rparr>, h')"
      by (simp add: setCapacity_realloc_def)
    moreover have "block_at h' q n" "bytes_at h' q (b_size b) = bytes_at h (b_data b) (b_size b)"
      "moves (ptr_block (b_data b)) (ptr_block q) h h'"
      using C(5) False n(3) ok(1) by (auto simp: buffer_ok_def)
    ultimately show thesis
      using C False gr n by (intro that [of True "b\<lparr>b_data := q, b_cap := n\<rparr>" h'])
        (auto simp: buffer_ok_def view_def owns_def)
  qed
qed

lemma setCapacity_cases:
  assumes "0 < value" and that: "b_size b \<le> b_cap b"
  shows "setCapacity value b h =
    (if value = b_cap b then Inr (True, b, h)
     else setCapacity_realloc (target_cap value b) (b\<lparr>b_size := min (b_size b) value\<rparr>) h)"
proof -
  consider "value = b_cap b" | "b_cap b < value" | "value < b_cap b" "value < b_size b"
    | "value < b_cap b" "b_size b \<le> value" by linarith
  then show ?thesis
  proof cases
    case 2
    with that have "b\<lparr>b_size := min (b_size b) value\<rparr> = b" by simp
    with 2 assms show ?thesis by (simp add: setCapacity_def target_cap_def)
  next
    case 4
    then have "b\<lparr>b_size := min (b_size b) value\<rparr> = b" by simp
    with 4 assms show ?thesis by (simp add: setCapacity_def target_cap_def)
  qed (use assms in \<open>simp_all add: setCapacity_def target_cap_def\<close>)
qed

lemma setCapacity_spec:
  assumes ok: "buffer_ok h b" "heap_ok h" and v: "0 < value" "value \<le> MAX_REQ"
  obtains granted b' h' where "setCapacity value b h = Inr (granted, b', h')"
    "buffer_ok h' b'" "heap_ok h'" "frame (owns b) h h'"
    "b_size b' = min (b_size b) value" "view h' b' = take value (view h b)"
    "b_cap b' = (if granted then target_cap value b else b_cap b)"
    "moves (owns b) (owns b') h h'"
    "granted \<longleftrightarrow> value = b_cap b \<or> answers h (next_block h) (target_cap value b) \<noteq> Refuse"
proof (cases "value = b_cap b")
  case True
  with ok v have "setCapacity value b h = Inr (True, b, h)"
    by (subst setCapacity_cases) (auto simp: buffer_ok_def)
  moreover have "length (view h b) \<le> value" "b_size b \<le> value"
    using True ok length_view [OF mb_ok_ref_ok [OF buffer_ok_mb_ok [OF ok(1)]]]
    by (auto simp: buffer_ok_def)
  ultimately show thesis
    using True ok by (intro that [of True b h]) (auto simp: target_cap_def)
next
  case False
  let ?b = "b\<lparr>b_size := min (b_size b) value\<rparr>"
  have ok': "buffer_ok h ?b" using ok(1) by (intro buffer_ok_size) (auto simp: buffer_ok_def)
  have vw: "view h ?b = take value (view h b)"
    using bytes_at_take [of h "b_data b" "b_size b" "min (b_size b) value"]
      mb_ok_ref_ok [OF buffer_ok_mb_ok [OF ok(1)]]
    by (simp add: view_def ref_ok_def min_def split: if_splits)
  have T: "0 < target_cap value b" "target_cap value b < SIZE_MOD" "b_size ?b \<le> target_cap value b"
    using target_cap_bounds [OF v, of b] v(1) by auto
  have "setCapacity value b h = setCapacity_realloc (target_cap value b) ?b h"
    using False ok v by (subst setCapacity_cases) (auto simp: buffer_ok_def)
  moreover obtain granted b' h' where
    "setCapacity_realloc (target_cap value b) ?b h = Inr (granted, b', h')"
    "buffer_ok h' b'" "heap_ok h'" "frame (owns ?b) h h'" "b_size b' = b_size ?b"
    "view h' b' = view h ?b" "b_cap b' = (if granted then target_cap value b else b_cap ?b)"
    "moves (owns ?b) (owns b') h h'"
    "granted \<longleftrightarrow> answers h (next_block h) (target_cap value b) \<noteq> Refuse"
    using setCapacity_realloc_spec [OF ok' ok(2) T] by metis
  ultimately show thesis
    using False vw by (intro that [of granted b' h']) (auto simp: owns_def)
qed

section \<open>Both kinds of buffer meet the contract of \<open>ensure\<close>\<close>

lemma mutableEnsure_spec:
  assumes ok: "buffer_ok h b" "heap_ok h" and n: "0 < n" "n \<le> MAX_REQ" "b_size b \<le> n"
  obtains granted b' h' where "mutableEnsure n b h = Inr (granted, b', h')"
    "buffer_ok h' b'" "heap_ok h'" "frame (owns b) h h'" "b_size b' = b_size b"
    "b_cap b \<le> b_cap b'" "b_cap b' \<le> max (b_cap b) (n + 4095)" "view h' b' = view h b"
    "moves (owns b) (owns b') h h'"
    "granted \<longrightarrow> n \<le> b_cap b'"
    "granted \<longleftrightarrow> n \<le> b_cap b \<or> answers h (next_block h) (target_cap n b) \<noteq> Refuse"
proof (cases "b_cap b < n")
  case False
  with n have "mutableEnsure n b h = Inr (True, b, h)" by (simp add: mutableEnsure_def)
  then show thesis by (rule that) (use ok False in auto)
next
  case True
  then have eq: "mutableEnsure n b h = setCapacity n b h" by (simp add: mutableEnsure_def)
  have vw: "take n (view h b) = view h b"
    using n(3) length_view [OF mb_ok_ref_ok [OF buffer_ok_mb_ok [OF ok(1)]]] by simp
  obtain granted b' h' where S: "setCapacity n b h = Inr (granted, b', h')"
    "buffer_ok h' b'" "heap_ok h'" "frame (owns b) h h'"
    "b_size b' = min (b_size b) n" "view h' b' = take n (view h b)"
    "b_cap b' = (if granted then target_cap n b else b_cap b)"
    "moves (owns b) (owns b') h h'"
    "granted \<longleftrightarrow> n = b_cap b \<or> answers h (next_block h) (target_cap n b) \<noteq> Refuse"
    using setCapacity_spec [OF ok n(1,2)] by metis
  show thesis
    using S True n(3) vw target_cap_bounds(1,3) [OF n(1,2), of b] eq
    by (intro that [of granted b' h']) auto
qed

interpretation managed: ensure_contract mutableEnsure buffer_ok
proof
  fix h b n assume "buffer_ok h b" "heap_ok h" "0 < n" "n \<le> MAX_REQ" "b_size b \<le> n"
  then show "\<exists>ok b' h'. mutableEnsure n b h = Inr (ok, b', h')"
    by (rule mutableEnsure_spec) blast
next
  fix h b n ok b' h'
  assume a: "buffer_ok h b" "heap_ok h" "0 < n" "n \<le> MAX_REQ" "b_size b \<le> n"
    "mutableEnsure n b h = Inr (ok, b', h')"
  show "buffer_ok h' b' \<and> heap_ok h' \<and> frame (owns b) h h' \<and> b_size b' = b_size b \<and>
       b_cap b \<le> b_cap b' \<and> b_cap b' \<le> max (b_cap b) (n + 4095) \<and> view h' b' = view h b \<and>
       moves (owns b) (owns b') h h' \<and> (ok \<longrightarrow> n \<le> b_cap b')"
    by (rule mutableEnsure_spec [OF a(1-5)]) (use a(6) in auto)
qed (auto intro: buffer_ok_mb_ok buffer_ok_size buffer_ok_store)

interpretation fixed: ensure_contract immutableEnsure mb_ok
  by unfold_locales (auto simp: immutableEnsure_def intro: mb_ok_size mb_ok_store)

lemma grants_immutable [simp]: "grants immutableEnsure n b h \<longleftrightarrow> n \<le> b_cap b"
  by (simp add: grants_def immutableEnsure_def)

lemma grants_mutable:
  assumes "buffer_ok h b" "heap_ok h" "0 < n" "n \<le> MAX_REQ" "b_size b \<le> n"
  shows "grants mutableEnsure n b h \<longleftrightarrow>
    n \<le> b_cap b \<or> answers h (next_block h) (target_cap n b) \<noteq> Refuse"
  by (rule mutableEnsure_spec [OF assms]) (simp add: grants_def)

lemma always_grants_mutable:
  "\<forall>i n. A i n \<noteq> Refuse \<Longrightarrow> always_grants mutableEnsure buffer_ok A"
  by (auto simp: always_grants_def grants_mutable)

lemma shl_op_fixed_cap:
  assumes "shl_op immutableEnsure v b h = Inr (b', h')"
  shows "b_cap b' = b_cap b"
  using assms
  by (cases v) (auto simp: push_back_char_eq push_back_int_def push_back_long_def push_back_long_long_def
      push_back_unsigned_def push_back_unsigned_long_def push_back_unsigned_long_long_def
      push_back_ref_def push_back_string_def push_back_array_def Let_def push_back_def reserve_def
      immutableEnsure_def bnd_eq_Inr split: if_splits)

text \<open>What remains of a sequence of pieces in a region of \<open>cap\<close> bytes: a piece that does not fit is skipped.\<close>

fun fixed_append :: "nat \<Rightarrow> char list \<Rightarrow> char list list \<Rightarrow> char list" where
  "fixed_append cap acc [] = acc"
| "fixed_append cap acc (s # ss) =
     fixed_append cap (if length acc + length s \<le> cap then acc @ s else acc) ss"

lemma shl_ops_fixed:
  assumes "mb_ok h b" "heap_ok h" "b_cap b \<le> MAX_REQ" "\<forall>v \<in> set vs. pushable_ok h b v"
    "\<forall>v \<in> set vs. b_cap b + length (rendered h v) \<le> MAX_REQ"
  shows "\<exists>b' h'. shl_ops immutableEnsure vs b h = Inr (b', h') \<and> mb_ok h' b' \<and>
    frame (owns b) h h' \<and> b_cap b' = b_cap b \<and>
    view h' b' = fixed_append (b_cap b) (view h b) (map (rendered h) vs)"
  using assms
proof (induction vs arbitrary: b h)
  case (Cons v vs)
  let ?r = "rendered h v"
  have sz: "b_size b \<le> b_cap b" using Cons.prems(1) by (simp add: mb_ok_def)
  obtain b1 h1 where 1: "shl_op immutableEnsure v b h = Inr (b1, h1)"
    "appended mb_ok h b h1 b1 (if b_size b + length ?r \<le> b_cap b then ?r else [])"
    using fixed.shl_op_appended [OF Cons.prems(1,2), of v] Cons.prems(4,5) sz
    by (auto split del: if_split)
  have fr: "frame (owns b) h h1" "moves (owns b) (owns b1) h h1" using 1(2) by (simp_all add: appended_def)
  have cap: "b_cap b1 = b_cap b" using shl_op_fixed_cap [OF 1(1)] .
  have k: "pushable_ok h1 b1 w \<and> rendered h1 w = rendered h w" if "w \<in> set vs" for w
    using pushable_kept [OF _ Cons.prems(2) fr, of w] Cons.prems(4) that by simp
  then have eq: "map (rendered h1) vs = map (rendered h) vs" by simp
  have "\<exists>b' h'. shl_ops immutableEnsure vs b1 h1 = Inr (b', h') \<and> mb_ok h' b' \<and>
      frame (owns b1) h1 h' \<and> b_cap b' = b_cap b1 \<and>
      view h' b' = fixed_append (b_cap b1) (view h1 b1) (map (rendered h1) vs)"
    using 1(2) k cap Cons.prems by (intro Cons.IH) (simp_all add: appended_def)
  moreover have "frame (owns b) h h2" if "frame (owns b1) h1 h2" for h2
    using frame_trans_fresh [OF fr(1) that] moves_fresh [OF fr(2)] by simp
  moreover have "length (view h b) = b_size b" using length_view [OF mb_ok_ref_ok [OF Cons.prems(1)]] .
  ultimately show ?case
    using 1 cap unfolding eq by (auto simp: appended_def)
qed simp

section \<open>Laws of construction, assignment and destruction\<close>

lemma Buffer_destroy_spec:
  assumes ok: "buffer_ok h b" "heap_ok h"
  shows "\<exists>h'. Buffer_destroy b h = Inr h' \<and> heap_ok h' \<and> frame (owns b) h h' \<and> moves (owns b) {} h h'"
proof (cases "b_cap b = 0")
  case True
  with ok show ?thesis
    by (simp add: Buffer_destroy_def reserve_def mutableEnsure_def setCapacity_def buffer_ok_def owns_def)
next
  case False
  with ok have "block_at h (b_data b) (b_cap b)" by (simp add: buffer_ok_def)
  from free_block [OF this ok(2)] False show ?thesis
    by (auto simp: Buffer_destroy_def reserve_def mutableEnsure_def setCapacity_def owns_def)
qed

text \<open>Blocks after a buffer that was created in \<open>h\<close> is gone: those of \<open>h\<close>.\<close>

lemma moves_away: "moves {} {} h h' \<Longrightarrow> blocks h' = blocks h"
  by (auto simp: moves_def)

lemma push_back_fresh:
  assumes "heap_ok h" "fetch h src n = Inr bs" "n \<le> MAX_REQ"
  shows "\<exists>b' h'. push_back mutableEnsure src n empty_mbuf h = Inr (b', h') \<and>
    appended buffer_ok h empty_mbuf h' b' (if answers h (next_block h) n \<noteq> Refuse then bs else [])"
proof (cases "n = 0")
  case True
  then have "bs = []" using fetch_Inr_length [OF assms(2)] by simp
  with True assms show ?thesis by (auto simp: push_back_def intro: appended_refl)
next
  case False
  then have "grants mutableEnsure n empty_mbuf h \<longleftrightarrow> answers h (next_block h) n \<noteq> Refuse"
    using assms by (simp add: grants_mutable target_cap_def)
  then show ?thesis
    using managed.push_back_appended [OF buffer_ok_empty assms(1,2)] assms(3) by simp
qed

lemma clear_ok:
  assumes "buffer_ok h b"
  shows "buffer_ok h (clear b)" "view h (clear b) = []" "owns (clear b) = owns b" "b_size (clear b) = 0"
    "b_cap (clear b) = b_cap b" "b_data (clear b) = b_data b"
  using buffer_ok_size [OF assms, of 0] by (simp_all add: clear_def owns_def view_def)

lemma assign_spec:
  assumes ok: "buffer_ok h b" "heap_ok h" and src: "fetch h src n = Inr bs"
    and dis: "n = 0 \<or> source_block src \<inter> owns b = {}" and mx: "n \<le> MAX_REQ"
  shows "\<exists>b' h'. push_back mutableEnsure src n (clear b) h = Inr (b', h') \<and> buffer_ok h' b' \<and> heap_ok h' \<and>
    frame (owns b) h h' \<and> moves (owns b) (owns b') h h' \<and>
    view h' b' = (if n \<le> b_cap b \<or> answers h (next_block h) (target_cap n b) \<noteq> Refuse then bs else [])"
proof -
  note c = clear_ok [OF ok(1)]
  obtain b' h' where 1: "push_back mutableEnsure src n (clear b) h = Inr (b', h')"
    "appended buffer_ok h (clear b) h' b' (if grants mutableEnsure n (clear b) h then bs else [])"
    using managed.push_back_appended [OF c(1) ok(2) src] dis mx c by auto
  have "bs = []" if "n = 0" using fetch_Inr_length [OF src] that by simp
  moreover have "target_cap n (clear b) = target_cap n b" using c by (simp add: target_cap_def)
  ultimately show ?thesis
    using 1 c grants_mutable [OF c(1) ok(2), of n] mx by (cases "n = 0") (auto simp: appended_def)
qed

lemma move_assign_spec:
  assumes ok: "buffer_ok h b" "buffer_ok h v" "heap_ok h" and dis: "owns b \<inter> owns v = {}"
  shows "\<exists>h'. move_assign b v h = Inr (v, empty_mbuf, h') \<and> buffer_ok h' v \<and> heap_ok h' \<and>
    view h' v = view h v \<and> moves (owns b) {} h h'"
proof -
  obtain h' where h': "Buffer_destroy b h = Inr h'" "heap_ok h'" "frame (owns b) h h'" "moves (owns b) {} h h'"
    using Buffer_destroy_spec [OF ok(1,3)] by blast
  then have "\<exists>x y. reserve mutableEnsure 0 b h = Inr (x, y, h')"
    by (auto simp: Buffer_destroy_def bnd_eq_Inr)
  then have "move_assign b v h = Inr (v, empty_mbuf, h')"
    by (auto simp: move_assign_def empty_mbuf_def mk_mbuf_def)
  moreover have "view h' v = view h v" "buffer_ok h' v"
    using view_frame [OF mb_ok_ref_ok [OF buffer_ok_mb_ok [OF ok(2)]] ok(3) h'(3)]
      buffer_ok_frame [OF ok(2,3) h'(3)] dis by auto
  ultimately show ?thesis using h' by blast
qed

lemma c_str_spec:
  assumes ok: "buffer_ok h b" "heap_ok h" and mx: "b_size b < MAX_REQ"
    and yes: "b_size b < b_cap b \<or> answers h (next_block h) (target_cap (b_size b + 1) b) \<noteq> Refuse"
  shows "\<exists>p b' h'. c_str b h = Inr (p, b', h') \<and> appended buffer_ok h b h' b' [] \<and>
    load h' p (b_size b + 1) = Inr (view h b @ [NUL])"
proof -
  let ?n = "b_size b + 1"
  have n: "0 < ?n" "?n \<le> MAX_REQ" "b_size b \<le> ?n" using mx by simp_all
  have "grants mutableEnsure ?n b h" using grants_mutable [OF ok n] yes by auto
  then obtain b1 h1 where e: "mutableEnsure ?n b h = Inr (True, b1, h1)"
    using managed.ensure_total [OF ok n] by (auto simp: grants_def)
  note K = managed.ensure_keeps [OF ok n e]
  have k: "buffer_ok h1 b1" "heap_ok h1" "b_size b1 + length [NUL] \<le> b_cap b1" using K by auto
  obtain h2 where st: "store h1 (ptr_add (b_data b1) (b_size b1)) [NUL] = Inr h2"
    "buffer_ok h2 (b1\<lparr>b_size := b_size b1 + length [NUL]\<rparr>)" "heap_ok h2" "frame (owns b1) h1 h2"
    "view h2 (b1\<lparr>b_size := b_size b1 + length [NUL]\<rparr>) = view h1 b1 @ [NUL]"
    using managed.append_bytes [OF k refl] by blast
  have sz: "sz_add (b_size b) 1 = ?n" using mx by (simp add: MAX_REQ_def)
  have cs: "c_str b h = Inr (b_data b1, b1, h2)"
    unfolding c_str_def reserve_def sz e using st(1) by simp
  have rf: "ref_ok h2 (b1\<lparr>b_size := b_size b1 + length [NUL]\<rparr>)"
    using mb_ok_ref_ok [OF buffer_ok_mb_ok [OF st(2)]] .
  have ld: "load h2 (b_data b1) ?n = Inr (view h b @ [NUL])"
    using load_view [OF rf] st(5) K by simp
  have "view h2 (b1\<lparr>b_size := b_size b1\<rparr>) = view h b"
    using view_take [OF rf, of "b_size b1"] st(5) K
      length_view [OF mb_ok_ref_ok [OF buffer_ok_mb_ok [OF k(1)]]] by simp
  moreover have "b1\<lparr>b_size := b_size b1\<rparr> = b1" by simp
  ultimately have "view h2 b1 = view h b" by (simp only:)
  then have "appended buffer_ok h1 b1 h2 b1 []"
    using K st moves_store [OF st(1)] buffer_ok_store [OF k(1) st(1)] by (simp add: appended_def owns_def)
  moreover have "appended buffer_ok h b h1 b1 []" using K by (simp add: appended_def)
  ultimately show ?thesis using cs ld appended_trans [OF _ _ ok(2)] by fastforce
qed

end
