(* ===== verification/Buffer_Correctness.thy ===== *)
theory Buffer_Correctness
  imports Managed_Buffer
begin

text \<open>
  The properties of \<^verbatim>\<open>Buffer\<close> and \<^verbatim>\<open>FixedBuffer\<close> as their users see them: appending, growing, printing,
  copying, moving, slicing and destroying, for every behaviour of the allocator, and the two
  places where the code does not keep its memory safe.
\<close>

lemmas buffer_example_simps = example_simps buffer_ok_def mb_ok_def block_at_def mk_mbuf_def owns_def MAX_REQ_def

section \<open>Appending and growing\<close>

text \<open>
  C1. Appending \<open>n\<close> bytes from outside the buffer is memory safe whatever the allocator answers. It
  keeps the invariant, touches no other block and leaks none; the value of the buffer is
  extended by exactly these bytes, or unchanged if there was no room and the allocator refused.
\<close>

theorem push_back_appends:
  assumes "buffer_ok h b" "heap_ok h" "fetch h src n = Inr bs" "source_block src \<inter> owns b = {}"
    "0 < n" "b_size b + n \<le> MAX_REQ"
  shows "\<exists>b' h'. push_back mutableEnsure src n b h = Inr (b', h') \<and> buffer_ok h' b' \<and> heap_ok h' \<and>
    frame (owns b) h h' \<and> moves (owns b) (owns b') h h' \<and>
    view h' b' = view h b @
      (if b_size b + n \<le> b_cap b \<or> answers h (next_block h) (target_cap (b_size b + n) b) \<noteq> Refuse
       then bs else [])"
  using managed.push_back_appended [OF assms(1-3)] assms(4-6) grants_mutable [OF assms(1,2), of "b_size b + n"]
  by (auto simp: appended_def)

theorem push_back_appends_witness:
  "\<exists>b' h'. push_back mutableEnsure (Local ''def'') 3 (mk_mbuf (Addr 0 0) 4 3) (one_block ''abc.'') = Inr (b', h') \<and>
     view h' b' = ''abcdef''"
  using push_back_appends [of "one_block ''abc.''" "mk_mbuf (Addr 0 0) 4 3" "Local ''def''" 3 "''def''"]
  by (auto simp: buffer_example_simps)

text \<open>
  C27. \<^verbatim>\<open>setCapacity\<close> to a positive value cuts the value of the buffer to that length and keeps its
  bytes, whether or not the allocator grants the request; when it does, the new capacity is
  at least the requested one, otherwise it is the old one.
\<close>

theorem setCapacity_keeps:
  assumes "buffer_ok h b" "heap_ok h" "0 < value" "value \<le> MAX_REQ"
  shows "\<exists>granted b' h'. setCapacity value b h = Inr (granted, b', h') \<and> buffer_ok h' b' \<and> heap_ok h' \<and>
    frame (owns b) h h' \<and> moves (owns b) (owns b') h h' \<and> view h' b' = take value (view h b) \<and>
    (if granted then value \<le> b_cap b' \<and> b_cap b' < value + 4096 else b_cap b' = b_cap b)"
proof (rule setCapacity_spec [OF assms])
  fix granted b' h'
  assume a: "setCapacity value b h = Inr (granted, b', h')"
    "buffer_ok h' b'" "heap_ok h'" "frame (owns b) h h'"
    "view h' b' = take value (view h b)"
    "b_cap b' = (if granted then target_cap value b else b_cap b)"
    "moves (owns b) (owns b') h h'"
  then show ?thesis
    using target_cap_bounds(1,3) [OF assms(3,4), of b]
    by (intro exI [of _ granted] exI [of _ b'] exI [of _ h']) auto
qed

theorem setCapacity_keeps_witness:
  "\<exists>granted b' h'. setCapacity 2 (mk_mbuf (Addr 0 0) 4 3) (one_block ''abc.'') = Inr (granted, b', h') \<and>
     view h' b' = ''ab''"
  using setCapacity_keeps [of "one_block ''abc.''" "mk_mbuf (Addr 0 0) 4 3" 2]
  by (auto simp: buffer_example_simps)

text \<open>
  C3. A chain \<^verbatim>\<open>buf << x << y << ...\<close> on a managed buffer, with an allocator that does not refuse, makes
  the value of the buffer its old value followed by the printed forms of the operands.
\<close>

theorem shl_chain_concat:
  assumes "buffer_ok h b" "heap_ok h" "\<forall>v \<in> set vs. pushable_ok h b v"
    "b_size b + length (concat (map (rendered h) vs)) \<le> MAX_REQ" "\<forall>i n. answers h i n \<noteq> Refuse"
  shows "\<exists>b' h'. shl_ops mutableEnsure vs b h = Inr (b', h') \<and> buffer_ok h' b' \<and> heap_ok h' \<and>
    frame (owns b) h h' \<and> view h' b' = view h b @ concat (map (rendered h) vs)"
proof -
  obtain ws b' h' where "shl_ops mutableEnsure vs b h = Inr (b', h')"
    "appended buffer_ok h b h' b' (concat ws)" "ws = map (rendered h) vs"
    using managed.shl_ops_appended [OF assms(1-4)] always_grants_mutable [OF assms(5)] by auto
  then show ?thesis by (auto simp: appended_def)
qed

theorem shl_chain_concat_witness:
  "\<exists>b' h'. shl_ops mutableEnsure [PString ''n='', PInt 12, PChar (CHR '';'')] empty_mbuf (one_block ''x'') = Inr (b', h') \<and>
     view h' b' = ''n=12;''"
proof -
  have "show_int 12 = ''12''" by code_simp
  then show ?thesis
    using shl_chain_concat [of "one_block ''x''" empty_mbuf "[PString ''n='', PInt 12, PChar (CHR '';'')]"]
    by (auto simp: one_block_def heap_ok_def MAX_REQ_def)
qed

text \<open>
  C2. The life of a buffer leaks no memory and frees none twice: for every allocator, after a chain of \<^verbatim>\<open><<\<close>
  on a new buffer and its destruction, exactly the blocks of before are live, with the
  bytes they had.
\<close>

theorem buffer_lifecycle:
  assumes "heap_ok h" "\<forall>v \<in> set vs. pushable_ok h empty_mbuf v"
    "length (concat (map (rendered h) vs)) \<le> MAX_REQ"
  shows "\<exists>b' h' h''. shl_ops mutableEnsure vs empty_mbuf h = Inr (b', h') \<and>
    Buffer_destroy b' h' = Inr h'' \<and> blocks h'' = blocks h"
proof -
  obtain ws b' h' where 1: "shl_ops mutableEnsure vs empty_mbuf h = Inr (b', h')"
    "appended buffer_ok h empty_mbuf h' b' (concat ws)"
    using managed.shl_ops_appended [OF buffer_ok_empty assms(1,2)] assms(3) by auto
  then have 2: "buffer_ok h' b'" "heap_ok h'" "moves {} (owns b') h h'" "next_block h \<le> next_block h'"
    by (auto simp: appended_def frame_def)
  obtain h'' where 3: "Buffer_destroy b' h' = Inr h''" "moves (owns b') {} h' h''"
    using Buffer_destroy_spec [OF 2(1,2)] by blast
  have "moves {} {} h h''" using moves_trans [OF 2(3) 3(2) assms(1) 2(4)] .
  then show ?thesis using 1(1) 3(1) moves_away by blast
qed

theorem buffer_lifecycle_witness:
  "\<exists>b' h' h''. shl_ops mutableEnsure [PString ''ab'', PRef (mk_ref (Addr 0 0) 1)] empty_mbuf (one_block ''x'') = Inr (b', h') \<and>
     Buffer_destroy b' h' = Inr h'' \<and> blocks h'' = [0 \<mapsto> ''x'']"
  using buffer_lifecycle [of "one_block ''x''" "[PString ''ab'', PRef (mk_ref (Addr 0 0) 1)]"]
  by (simp add: buffer_example_simps)

text \<open>
  A \<^verbatim>\<open>FixedBuffer\<close> never writes outside its region: a chain of \<^verbatim>\<open><<\<close> stores each piece that still
  fits and skips the others, and keeps data pointer's block and capacity.
\<close>

theorem fixed_chain_skips:
  assumes "mb_ok h b" "heap_ok h" "b_cap b \<le> MAX_REQ" "\<forall>v \<in> set vs. pushable_ok h b v"
    "\<forall>v \<in> set vs. b_cap b + length (rendered h v) \<le> MAX_REQ"
  shows "\<exists>b' h'. shl_ops immutableEnsure vs b h = Inr (b', h') \<and> mb_ok h' b' \<and>
    frame (owns b) h h' \<and> b_cap b' = b_cap b \<and>
    view h' b' = fixed_append (b_cap b) (view h b) (map (rendered h) vs)"
  using assms by (rule shl_ops_fixed)

theorem fixed_chain_skips_witness:
  "\<exists>b' h'. shl_ops immutableEnsure [PString ''ab'', PString ''long'', PChar (CHR ''c'')]
       (FixedBuffer (Addr 0 0) 3 0) (one_block ''....'') = Inr (b', h') \<and> view h' b' = ''abc''"
  using fixed_chain_skips [of "one_block ''....''" "FixedBuffer (Addr 0 0) 3 0"
      "[PString ''ab'', PString ''long'', PChar (CHR ''c'')]"]
  by (auto simp: buffer_example_simps FixedBuffer_def)

section \<open>Printing\<close>



text \<open>
  \<^verbatim>\<open>printf\<close> on a \<^verbatim>\<open>FixedBuffer\<close> that is full drops the text, and overwrites the last byte of the
  buffer's value with NUL although its size stays the same.
\<close>

theorem fixed_printf_clobbers:
  assumes ok: "mb_ok h b" "heap_ok h" and full: "b_size b = b_cap b" "0 < b_cap b"
    and cap: "b_cap b + strlen fmt + length s < 576460752303423488" and fuel: "0 < fuel"
  shows "\<exists>h'. printf immutableEnsure fmt (Some s) fuel b h = Some (Inr (b, h')) \<and>
    view h' b = butlast (view h b) @ [NUL]"
proof -
  let ?p = "ptr_add (b_data b) (b_cap b - 1)"
  have rf: "readable h (b_data b) (b_cap b)" using ok by (simp add: mb_ok_def)
  then have "readable h ?p (length [NUL])" using full by (intro readable_ptr_add) auto
  then obtain h' where st: "store h ?p [NUL] = Inr h'" using store_ok by blast
  have "bytes_at h' (b_data b) (b_cap b - 1 + length [NUL]) = bytes_at h (b_data b) (b_cap b - 1) @ [NUL]"
    using full rf by (intro bytes_at_store_append [OF st]) simp
  then have v: "view h' b = butlast (view h b) @ [NUL]"
    using full bytes_at_take [OF rf, of "b_cap b - 1"] rf
    by (simp add: view_def butlast_conv_take)
  obtain f where f: "fuel = Suc f" using fuel by (metis gr0_implies_Suc)
  have sz: "sz_sub (b_cap b) (Suc 0) = b_cap b - Suc 0" "sz_sub (b_cap b) (b_cap b) = 0"
    "sz_add (sz_add (b_cap b) (strlen fmt)) 1 = b_cap b + strlen fmt + 1"
    "sz_add (b_cap b) (of_ssize (int (length s) + 1)) = b_cap b + length s + 1"
    using cap full by (simp_all add: nat_add_distrib)
  have "printf immutableEnsure fmt (Some s) fuel b h = Some (Inr (b, h'))"
    unfolding f printf_def reserve_def immutableEnsure_def
    by (simp add: printf_loop.simps(2) full(1) sz snprintf_def reserve_def immutableEnsure_def
        Let_def st [simplified])
  with v show ?thesis by blast
qed

theorem fixed_printf_clobbers_witness:
  "\<exists>h'. printf immutableEnsure (''%d'' @ [NUL]) (Some ''7'') 1 (FixedBuffer (Addr 0 0) 3 3) (one_block ''abc'') =
       Some (Inr (FixedBuffer (Addr 0 0) 3 3, h')) \<and> view h' (FixedBuffer (Addr 0 0) 3 3) = ''ab'' @ [NUL]"
  using fixed_printf_clobbers [of "one_block ''abc''" "FixedBuffer (Addr 0 0) 3 3" "''%d'' @ [NUL]" "''7''" 1]
  by (auto simp: buffer_example_simps FixedBuffer_def strlen_def)

lemma length_show_nat: "0 < k \<Longrightarrow> n < 10 ^ k \<Longrightarrow> length (show_nat n) \<le> k"
proof (induction k arbitrary: n)
  case (Suc k)
  show ?case
  proof (cases "n < 10")
    case False
    with Suc have "0 < k" "n div 10 < 10 ^ k" by (auto intro: gr0I simp: less_mult_imp_div_less)
    then show ?thesis using Suc.IH [of "n div 10"] False by (simp add: show_nat.simps [of n])
  qed (simp add: show_nat.simps [of n])
qed simp

lemma length_show_int: "- 2147483648 \<le> i \<Longrightarrow> i \<le> 2147483647 \<Longrightarrow> length (show_int i) \<le> 11"
proof -
  assume "- 2147483648 \<le> i" "i \<le> 2147483647"
  then have "nat i < 10000000000" "nat (- i) < 10000000000" by linarith+
  then show ?thesis
    using length_show_nat [of 10 "nat i"] length_show_nat [of 10 "nat (- i)"] by (simp add: show_int_def)
qed



section \<open>Copies, moves, slices\<close>

text \<open>
  \<^verbatim>\<open>c_str()\<close> returns a pointer to the bytes of the buffer followed by NUL, if there is room or the
  allocator grants it, and leaves the value of the buffer as it was.
\<close>

theorem c_str_terminated:
  assumes "buffer_ok h b" "heap_ok h" "b_size b < MAX_REQ"
    "b_size b < b_cap b \<or> answers h (next_block h) (target_cap (b_size b + 1) b) \<noteq> Refuse"
  shows "\<exists>p b' h'. c_str b h = Inr (p, b', h') \<and> buffer_ok h' b' \<and> view h' b' = view h b \<and>
    frame (owns b) h h' \<and> load h' p (b_size b + 1) = Inr (view h b @ [NUL])"
  using c_str_spec [OF assms] by (auto simp: appended_def)

theorem c_str_terminated_witness:
  "\<exists>p b' h'. c_str (mk_mbuf (Addr 0 0) 3 3) (one_block ''abc'') = Inr (p, b', h') \<and>
     load h' p 4 = Inr (''abc'' @ [NUL])"
  using c_str_terminated [of "one_block ''abc''" "mk_mbuf (Addr 0 0) 3 3"]
  by (auto simp: buffer_example_simps)

text \<open>
  C29. A copied buffer is independent of its original: whatever is appended to the copy, and whether or
  not the copy is then destroyed, the original keeps its value and its memory.
\<close>

theorem copy_independent:
  assumes ok: "buffer_ok h v" "heap_ok h" and mx: "b_size v \<le> MAX_REQ"
    and src: "fetch h src n = Inr bs" "source_block src = {}" and n: "b_size v + n \<le> MAX_REQ"
  shows "\<exists>c h1 c' h2 h3. Buffer_copy v h = Inr (c, h1) \<and> push_back mutableEnsure src n c h1 = Inr (c', h2) \<and>
    Buffer_destroy c' h2 = Inr h3 \<and> buffer_ok h2 v \<and> view h1 v = view h v \<and> view h2 v = view h v \<and>
    view h1 c = (if answers h (next_block h) (b_size v) \<noteq> Refuse then view h v else []) \<and> blocks h3 = blocks h"
proof -
  have rv: "ref_ok h v" using mb_ok_ref_ok [OF buffer_ok_mb_ok [OF ok(1)]] .
  obtain c h1 where 1: "Buffer_copy v h = Inr (c, h1)" "appended buffer_ok h empty_mbuf h1 c
      (if answers h (next_block h) (b_size v) \<noteq> Refuse then view h v else [])"
    using push_back_fresh [OF ok(2), of "Heap (b_data v)" "b_size v" "view h v"] load_view [OF rv] mx
    by (auto simp: Buffer_copy_def)
  have c: "buffer_ok h1 c" "heap_ok h1" using 1(2) by (auto simp: appended_def)
  have f1: "frame {} h h1" using 1(2) by (auto simp: appended_def)
  have src1: "fetch h1 src n = Inr bs" using fetch_frame [OF f1 ok(2) _ src(1)] by simp
  have sz: "b_size c \<le> b_size v" using 1(2) length_view [OF rv] by (auto simp: appended_def)
  obtain c' h2 zs where 2: "push_back mutableEnsure src n c h1 = Inr (c', h2)" "appended buffer_ok h1 c h2 c' zs"
    using managed.push_back_appended [OF c src1] src(2) n sz by force
  have 12: "appended buffer_ok h empty_mbuf h2 c' ((if answers h (next_block h) (b_size v) \<noteq> Refuse then view h v else []) @ zs)"
    using appended_trans [OF 1(2) 2(2) ok(2)] .
  then have f2: "frame {} h h2" "moves {} (owns c') h h2" "buffer_ok h2 c'" "heap_ok h2" "next_block h \<le> next_block h2"
    by (auto simp: appended_def frame_def)
  obtain h3 where 3: "Buffer_destroy c' h2 = Inr h3" "moves (owns c') {} h2 h3"
    using Buffer_destroy_spec [OF f2(3,4)] by blast
  have "blocks h3 = blocks h" using moves_away [OF moves_trans [OF f2(2) 3(2) ok(2) f2(5)]] .
  moreover have "view h1 v = view h v" "view h2 v = view h v" "buffer_ok h2 v"
    using view_frame [OF rv ok(2) f1] view_frame [OF rv ok(2) f2(1)] buffer_ok_frame [OF ok f2(1)] by auto
  ultimately show ?thesis using 1 2 3 by (auto simp: appended_def)
qed

theorem copy_independent_witness:
  "\<exists>c h1 c' h2. Buffer_copy (mk_mbuf (Addr 0 0) 4 3) (one_block ''abc.'') = Inr (c, h1) \<and>
     push_back mutableEnsure (Local ''def'') 3 c h1 = Inr (c', h2) \<and>
     view h1 c = ''abc'' \<and> view h2 (mk_mbuf (Addr 0 0) 4 3) = ''abc''"
  using copy_independent [of "one_block ''abc.''" "mk_mbuf (Addr 0 0) 4 3" "Local ''def''" 3 "''def''"]
  by (auto simp: buffer_example_simps)

text \<open>
  Move assignment frees the old memory of the target exactly once, hands the memory of the source
  over without copying and leaves the source empty.
\<close>

theorem move_assign_transfers:
  assumes "buffer_ok h b" "buffer_ok h v" "heap_ok h" "owns b \<inter> owns v = {}"
  shows "\<exists>h'. move_assign b v h = Inr (v, empty_mbuf, h') \<and> buffer_ok h' v \<and> view h' v = view h v \<and>
    (\<forall>k. blocks h' k = (if k \<in> owns b then None else blocks h k))"
  using move_assign_spec [OF assms] by (auto simp: moves_def)

theorem move_assign_transfers_witness:
  "\<exists>h'. move_assign empty_mbuf (mk_mbuf (Addr 0 0) 4 3) (one_block ''abc.'') =
       Inr (mk_mbuf (Addr 0 0) 4 3, empty_mbuf, h') \<and> view h' (mk_mbuf (Addr 0 0) 4 3) = ''abc''"
  using move_assign_transfers [of "one_block ''abc.''" empty_mbuf "mk_mbuf (Addr 0 0) 4 3"]
  by (auto simp: buffer_example_simps)

text \<open>
  C4. A slice survives the growth of its buffer and a reference need not: after the buffer was
  appended to, its slices still denote the same bytes, while a reference to the same range,
  taken before, faults on access if the growth moved the storage.
\<close>

theorem slice_survives_growth:
  assumes ok: "buffer_ok h b" "heap_ok h" and s: "slice_sub name b off n = Inr s" "n \<noteq> npos" "off + n < SIZE_MOD"
    and vs: "\<forall>v \<in> set vs. pushable_ok h b v" "b_size b + length (concat (map (rendered h) vs)) \<le> MAX_REQ"
  shows "\<exists>b' h' r. shl_ops mutableEnsure vs b h = Inr (b', h') \<and> slice_ref (bufs(name := b')) s = Inr r \<and>
    ref_ok h' r \<and> view h' r = take n (drop off (view h b)) \<and>
    (owns b' \<noteq> owns b \<and> 0 < n \<longrightarrow> (\<forall>c. ref_sub b off n = Inr c \<longrightarrow> str h' c = Inl UseAfterFree))"
proof -
  have le: "off + n \<le> b_size b"
    and s': "s = \<lparr>s_buffer = Some name, s_offset = off, s_size = n\<rparr>"
    using s by (auto simp: slice_sub_def assertC_def split: if_splits)
  have rb: "ref_ok h b" using mb_ok_ref_ok [OF buffer_ok_mb_ok [OF ok(1)]] .
  obtain ws b' h' where 1: "shl_ops mutableEnsure vs b h = Inr (b', h')" "appended buffer_ok h b h' b' (concat ws)"
    using managed.shl_ops_appended [OF ok vs] by auto
  have rb': "ref_ok h' b'" using 1(2) by (auto simp: appended_def intro: mb_ok_ref_ok buffer_ok_mb_ok)
  let ?r = "mk_ref (ptr_add (b_data b') off) n"
  have sz: "off + n \<le> b_size b'" using le 1(2) by (simp add: appended_def)
  have r: "ref_ok h' ?r" "view h' ?r = take n (drop off (view h b))"
    using mk_ref_sub [OF rb' sz] 1(2) le length_view [OF rb] by (auto simp: appended_def)
  have "str h' c = Inl UseAfterFree" if mv: "owns b' \<noteq> owns b" and n: "0 < n" and c: "ref_sub b off n = Inr c" for c
  proof -
    have c': "c = mk_ref (ptr_add (b_data b) off) n" using ref_sub_eq [OF rb le] c by simp
    obtain k where k: "b_data b = Addr k 0"
      using ok(1) le n by (auto simp: buffer_ok_def block_at_def split: if_splits)
    have "k \<notin> owns b'"
    proof
      assume "k \<in> owns b'"
      moreover from this have "owns b' = {k}" by (cases "b_data b'") (auto simp: owns_def)
      ultimately show False using mv k by (simp add: owns_def)
    qed
    then have "blocks h' k = None" using 1(2) k by (auto simp: appended_def moves_def owns_def)
    then show ?thesis using c' k n by (simp add: str_def substr_from_def Let_def)
  qed
  then show ?thesis using 1(1) r s' by (auto simp: slice_ref_def)
qed

theorem slice_survives_growth_witness:
  "\<exists>b' h' r. shl_ops mutableEnsure [PString ''def''] (mk_mbuf (Addr 0 0) 3 3) (one_block ''abc'') = Inr (b', h') \<and>
     slice_ref ((\<lambda>_. empty_mbuf)(7 := b')) \<lparr>s_buffer = Some 7, s_offset = 1, s_size = 2\<rparr> = Inr r \<and>
     view h' r = ''bc''"
  using slice_survives_growth [of "one_block ''abc''" "mk_mbuf (Addr 0 0) 3 3" 7 1 2
      "\<lparr>s_buffer = Some 7, s_offset = 1, s_size = 2\<rparr>" "[PString ''def'']" "\<lambda>_. empty_mbuf"]
  by (force simp: buffer_example_simps slice_sub_def npos_def)

text \<open>
  \<^verbatim>\<open>setCapacity(0)\<close> and \<^verbatim>\<open>reserve(0)\<close> free the storage of a buffer but keep the pointer to it: the next
  append hands the freed pointer to \<^verbatim>\<open>realloc\<close>.
\<close>

theorem reserve_zero_dangles:
  assumes ok: "buffer_ok h b" "0 < b_cap b" and n: "0 < n" "b_size b + n < SIZE_MOD"
  shows "\<exists>b' h'. reserve mutableEnsure 0 b h = Inr (True, b', h') \<and>
    push_back mutableEnsure src n b' h' = Inl UseAfterFree"
proof -
  obtain k xs where k: "b_data b = Addr k 0" "blocks h k = Some xs"
    using ok by (auto simp: buffer_ok_def block_at_def)
  let ?h = "h\<lparr>blocks := (blocks h)(k := None)\<rparr>" and ?b = "b\<lparr>b_cap := 0\<rparr>"
  have "reserve mutableEnsure 0 b h = Inr (True, ?b, ?h)"
    using k ok(2) by (simp add: reserve_def mutableEnsure_def setCapacity_def)
  moreover have "push_back mutableEnsure src n ?b ?h = Inl UseAfterFree"
    using k n by (simp add: push_back_def reserve_def mutableEnsure_def setCapacity_def setCapacity_realloc_def)
  ultimately show ?thesis by blast
qed

theorem reserve_zero_dangles_witness:
  "\<exists>b' h'. reserve mutableEnsure 0 (mk_mbuf (Addr 0 0) 4 3) (one_block ''abc.'') = Inr (True, b', h') \<and>
     push_back mutableEnsure (Local ''x'') 1 b' h' = Inl UseAfterFree"
  using reserve_zero_dangles [of "one_block ''abc.''" "mk_mbuf (Addr 0 0) 4 3" 1 "Local ''x''"]
  by (simp add: buffer_example_simps)

text \<open>The assertion of \<^verbatim>\<open>push_back(ref, offset, length)\<close> refuses every proper part but a tail.\<close>

lemma push_back_sub_refuses:
  "off + len < b_size v \<Longrightarrow> off + len < SIZE_MOD \<Longrightarrow> push_back_sub ensure v off len b h = Inl AssertFailed"
  by (simp add: push_back_sub_def assertC_def)

end
