(* ===== verification/Buffer_Dump.thy ===== *)
theory Buffer_Dump
  imports Buffer_Base
begin

text \<open>
  The hex dump of a memory region, \<^verbatim>\<open>BufferBase::dump\<close> of \<^verbatim>\<open>lib/Buffer.cpp\<close>, with the writes into its array \<^verbatim>\<open>line\<close>
  made explicit. The result of the model is the list of the lines that are printed.
\<close>

section \<open>Definitions\<close>

definition hex_digits :: string where
  "hex_digits = ''0123456789ABCDEF''"

definition HEX_WIDTH :: nat where "HEX_WIDTH = 54"
definition PLAIN_WIDTH :: nat where "PLAIN_WIDTH = 16"

text \<open>\<^verbatim>\<open>hex[(*p >> 4) & 0x0F]\<close> and \<^verbatim>\<open>hex[*p & 0x0F]\<close> on a signed \<^verbatim>\<open>char\<close>.\<close>

definition hex_hi :: "char \<Rightarrow> char" where
  "hex_hi c = hex_digits ! nat ((schar c div 16) mod 16)"

definition hex_lo :: "char \<Rightarrow> char" where
  "hex_lo c = hex_digits ! nat (schar c mod 16)"

definition plain :: "char \<Rightarrow> char" where
  "plain c = (if isprint c then c else CHR ''.'')"

definition put :: "nat \<Rightarrow> char \<Rightarrow> string \<Rightarrow> string res" where
  "put i c l = (if i < length l then Inr (l[i := c]) else Inl OutOfBounds)"

text \<open>A sequence of \<^verbatim>\<open>*u++ = c\<close>.\<close>

fun put_all :: "nat \<Rightarrow> string \<Rightarrow> string \<Rightarrow> string res" where
  "put_all u [] l = Inr l"
| "put_all u (c # cs) l = bnd (put u c l) (put_all (Suc u) cs)"

text \<open>
  One block: bytes while there are some, blanks for the remaining ones of its \<open>j\<close> places. The bytes that are left, the
  positions \<^verbatim>\<open>u\<close> and \<^verbatim>\<open>v\<close>, and the array.
\<close>

fun dump_block :: "nat \<Rightarrow> char list \<Rightarrow> nat \<Rightarrow> nat \<Rightarrow> string \<Rightarrow> (char list \<times> nat \<times> nat \<times> string) res" where
  "dump_block 0 p u v l = Inr (p, u, v, l)"
| "dump_block (Suc j) [] u v l = bnd (put_all u ''   '' l) (\<lambda>l1. dump_block j [] (u + 3) v l1)"
| "dump_block (Suc j) (c # p) u v l =
     bnd (put_all u [hex_hi c, hex_lo c, CHR '' ''] l) (\<lambda>l1.
     bnd (put v (plain c) l1) (\<lambda>l2. dump_block j p (u + 3) (v + 1) l2))"

text \<open>All blocks of a line; a block behind the last byte has blanks only.\<close>

fun dump_blocks :: "nat \<Rightarrow> char list \<Rightarrow> nat \<Rightarrow> nat \<Rightarrow> string \<Rightarrow> (char list \<times> nat \<times> nat \<times> string) res" where
  "dump_blocks 0 p u v l = Inr (p, u, v, l)"
| "dump_blocks (Suc b) p u v l =
     bnd (dump_block 8 p u v l) (\<lambda>(p1, u1, v1, l1).
     bnd (put_all u1 ''   '' l1) (\<lambda>l2. dump_blocks b p1 (u1 + 3) v1 l2))"

text \<open>One line: its text, the bytes that are left, and the array.\<close>

definition dump_line :: "char list \<Rightarrow> string \<Rightarrow> (string \<times> char list \<times> string) res" where
  "dump_line p l =
     bnd (dump_blocks 2 p 0 HEX_WIDTH l) (\<lambda>(p1, u, v, l1).
     bnd (put v NUL l1) (\<lambda>l2.
       if NUL \<in> set l2 then Inr (takeWhile (\<lambda>c. c \<noteq> NUL) l2, p1, l2) else Inl OutOfBounds))"

lemma dump_block_rest: "dump_block j p u v l = Inr (p', r) \<Longrightarrow> p' = drop j p"
  by (induction j p u v l rule: dump_block.induct) (auto simp: bnd_eq_Inr)

lemma dump_blocks_rest: "dump_blocks b p u v l = Inr (p', r) \<Longrightarrow> p' = drop (8 * b) p"
  by (induction b p u v l rule: dump_blocks.induct) (fastforce simp: bnd_eq_Inr add.commute dest: dump_block_rest)+

lemma dump_line_rest: "dump_line p l = Inr (t, p', l') \<Longrightarrow> p' = drop 16 p"
  by (auto simp: dump_line_def bnd_eq_Inr split: if_splits dest: dump_blocks_rest)

function dump_loop :: "char list \<Rightarrow> string \<Rightarrow> string list res" where
  "dump_loop p l =
     (if p = [] then Inr []
      else bnd (dump_line p l) (\<lambda>(t, p1, l1). bnd (dump_loop p1 l1) (\<lambda>ts. Inr (t # ts))))"
  by auto
termination by (relation "measure (\<lambda>(p, l). length p)") (auto dest!: dump_line_rest)

declare dump_loop.simps [simp del]

definition dump_header :: "string \<Rightarrow> nat \<Rightarrow> string" where
  "dump_header description n =
     (if description \<noteq> [] then description else ''Memory dump'') @ '' ('' @ show_nat n @ '' bytes):''"

text \<open>\<open>l\<close> is what the array holds before.\<close>

definition dump :: "string \<Rightarrow> char list \<Rightarrow> string \<Rightarrow> string list res" where
  "dump l bytes description =
     bnd (dump_loop bytes l) (\<lambda>ts. Inr (dump_header description (length bytes) # ts))"

section \<open>What a line is\<close>

definition hexcols :: "char list \<Rightarrow> string" where
  "hexcols xs = concat (map (\<lambda>c. [hex_hi c, hex_lo c, CHR '' '']) xs)"

definition hexblock :: "nat \<Rightarrow> char list \<Rightarrow> string" where
  "hexblock j xs = hexcols (take j xs) @ replicate (3 * (j - length xs)) CHR '' ''"

lemma hexblock_simps [simp]: "hexblock 0 xs = []" "hexblock (Suc j) [] = ''   '' @ hexblock j []"
  "hexblock (Suc j) (c # xs) = [hex_hi c, hex_lo c, CHR '' ''] @ hexblock j xs"
  by (simp_all add: hexblock_def hexcols_def numeral_3_eq_3)

lemma length_hexblock [simp]: "length (hexblock j xs) = 3 * j"
  by (induction j arbitrary: xs) (simp, case_tac xs, auto)

lemma put_at: "put (length h) c (h @ r # t) = Inr (h @ c # t)"
  by (simp add: put_def)

lemma put_all_at: "length cs \<le> length r \<Longrightarrow> put_all (length h) cs (h @ r @ t) = Inr (h @ cs @ drop (length cs) r @ t)"
proof (induction cs arbitrary: h r)
  case (Cons c cs)
  then obtain x r' where r: "r = x # r'" by (cases r) auto
  show ?case using Cons.IH [of r' "h @ [c]"] Cons.prems r put_at [of h c x "r' @ t"] by simp
qed simp

text \<open>The array is the hex columns so far, the rest of their space, the text columns so far, and the rest.\<close>

lemma dump_block_law:
  assumes "3 * j \<le> length r" "min j (length p) \<le> length s"
  shows "dump_block j p (length h) (length (h @ r @ q)) (h @ r @ q @ s) =
    Inr (drop j p, length (h @ hexblock j p), length (h @ r @ q @ map plain (take j p)),
      (h @ hexblock j p) @ drop (3 * j) r @ (q @ map plain (take j p)) @ drop (min j (length p)) s)"
  using assms
proof (induction j arbitrary: p h r q s)
  case (Suc j)
  obtain a b c r' where r: "r = a # b # c # r'" using Suc.prems by (cases r; cases "tl r"; cases "tl (tl r)") auto
  have l: "length h + 3 = length (h @ [d, e, f])" for d e f :: char by simp
  show ?case
  proof (cases p)
    case Nil
    have 1: "put_all (length h) ''   '' (h @ r @ q @ s) = Inr (h @ ''   '' @ r' @ q @ s)"
      using put_all_at [of "''   ''" r h "q @ s"] r by simp
    show ?thesis unfolding Nil dump_block.simps 1 bnd.simps l
      using Suc.IH [of r' "[]" s "h @ ''   ''" q] Suc.prems r by (simp add: numeral_3_eq_3)
  next
    case (Cons x p')
    then obtain y s' where s: "s = y # s'" using Suc.prems by (cases s) auto
    let ?x = "[hex_hi x, hex_lo x, CHR '' '']"
    have 1: "put_all (length h) ?x (h @ r @ q @ s) = Inr ((h @ ?x @ r' @ q) @ y # s')"
      using put_all_at [of ?x r h "q @ s"] r s by simp
    have 2: "length (h @ r @ q) = length (h @ ?x @ r' @ q)" using r by simp
    show ?thesis unfolding Cons dump_block.simps 1 bnd.simps 2 put_at l [of "hex_hi x" "hex_lo x" "CHR '' ''"]
      using Suc.IH [of r' p' s' "h @ ?x" "q @ [plain x]"] Suc.prems r s Cons by (simp add: numeral_3_eq_3)
  qed
qed simp

lemma dump_blocks_step:
  assumes "27 \<le> length r" "min 8 (length p) \<le> length s"
    and h': "h' = h @ hexblock 8 p @ ''   ''" "r' = drop 27 r" "q' = q @ map plain (take 8 p)" "s' = drop (min 8 (length p)) s"
  shows "dump_blocks (Suc b) p (length h) (length (h @ r @ q)) (h @ r @ q @ s) =
    dump_blocks b (drop 8 p) (length h') (length (h' @ r' @ q')) (h' @ r' @ q' @ s')"
proof -
  have 1: "put_all (length (h @ hexblock 8 p)) ''   '' ((h @ hexblock 8 p) @ drop 24 r @ q' @ s') = Inr (h' @ r' @ q' @ s')"
    using put_all_at [of "''   ''" "drop 24 r" "h @ hexblock 8 p" "q' @ s'"] assms(1) h'(1,2) by (simp add: numeral_3_eq_3)
  have 2: "length (h @ hexblock 8 p) + 3 = length h'" "length (h @ r @ q') = length (h' @ r' @ q')" using assms(1) h' by auto
  have 3: "dump_block 8 p (length h) (length (h @ r @ q)) (h @ r @ q @ s) =
      Inr (drop 8 p, length (h @ hexblock 8 p), length (h @ r @ q'), (h @ hexblock 8 p) @ drop 24 r @ q' @ s')"
    using dump_block_law [of 8 r p s h q] assms(1,2) h'(3,4) by simp
  show ?thesis unfolding dump_blocks.simps 3 bnd.simps prod.case 1 2 ..
qed

definition line_text :: "char list \<Rightarrow> string" where
  "line_text p = (hexblock 8 p @ ''   '') @ (hexblock 8 (drop 8 p) @ ''   '') @ map plain (take 16 p)"

lemma no_NUL: "NUL \<notin> set (line_text p)"
proof -
  have d: "d < 16 \<Longrightarrow> hex_digits ! d \<noteq> NUL" for d
    using nth_mem [of d hex_digits] by (auto simp: hex_digits_def)
  have "NUL \<noteq> hex_hi c" "NUL \<noteq> hex_lo c" for c unfolding hex_hi_def hex_lo_def by (auto intro!: d [symmetric])
  moreover have "NUL \<noteq> plain c" for c by (auto simp: plain_def isprint_def)
  ultimately show ?thesis by (auto simp: line_text_def hexblock_def hexcols_def)
qed

lemma dump_line_law:
  assumes "length l = 71"
  shows "\<exists>l'. dump_line p l = Inr (line_text p, drop 16 p, l') \<and> length l' = 71"
proof -
  let ?r = "take 54 l" and ?s = "drop 54 l" and ?h = "hexblock 8 p @ ''   ''" and ?q = "map plain (take 8 p)"
  let ?r1 = "drop 27 ?r" and ?s1 = "drop (min 8 (length p)) ?s"
  let ?h2 = "?h @ hexblock 8 (drop 8 p) @ ''   ''" and ?q2 = "?q @ map plain (take 8 (drop 8 p))"
  let ?s2 = "drop (min 8 (length (drop 8 p))) ?s1"
  have a: "dump_blocks 2 p 0 54 l = dump_blocks (Suc 0) (drop 8 p) (length ?h) (length (?h @ ?r1 @ ?q)) (?h @ ?r1 @ ?q @ ?s1)"
    using dump_blocks_step [of ?r p ?s ?h "[]" ?r1 ?q "[]" ?s1 "Suc 0"] assms by (simp add: numeral_2_eq_2)
  have "drop 27 ?r1 = []" using assms by simp
  then have b: "dump_blocks 2 p 0 54 l = Inr (drop 16 p, length ?h2, length (?h2 @ ?q2), ?h2 @ ?q2 @ ?s2)"
    unfolding a using dump_blocks_step [of ?r1 "drop 8 p" ?s1 ?h2 ?h "[]" ?q2 ?q ?s2 0] assms by simp
  have "length ?s2 \<noteq> 0" using assms by auto
  then obtain x s3 where s: "?s2 = x # s3" by (cases ?s2) auto
  have t: "?h2 @ ?q2 = line_text p" by (simp add: line_text_def take_add [of 8 8 p, simplified])
  then have "put (length (?h2 @ ?q2)) NUL (?h2 @ ?q2 @ ?s2) = Inr (line_text p @ NUL # s3)"
    using put_at [of "line_text p" NUL x s3] s by (metis append_assoc)
  moreover have "length (line_text p @ NUL # s3) = 71" using assms s t by (auto simp: line_text_def dest!: arg_cong [of _ _ length])
  moreover have "takeWhile (\<lambda>c. c \<noteq> NUL) (line_text p @ NUL # s3) = line_text p"
    using no_NUL [of p] by (simp add: takeWhile_append)
  ultimately show ?thesis unfolding dump_line_def HEX_WIDTH_def b bnd.simps prod.case by simp
qed

section \<open>Reading a dump\<close>

definition hex_value :: "char \<Rightarrow> nat" where
  "hex_value c = length (takeWhile (\<lambda>d. d \<noteq> c) hex_digits)"

fun unhex :: "string \<Rightarrow> char list" where
  "unhex (a # b # _ # t) = (if a = CHR '' '' then [] else char_of (16 * hex_value a + hex_value b) # unhex t)"
| "unhex _ = []"

definition line_bytes :: "string \<Rightarrow> char list" where
  "line_bytes t = unhex (take 24 t) @ unhex (take 24 (drop 27 t))"

lemma hex_value_digit: "d < 16 \<Longrightarrow> hex_value (hex_digits ! d) = d \<and> hex_digits ! d \<noteq> CHR '' ''"
  by (simp add: hex_value_def hex_digits_def less_Suc_eq numeral_eq_Suc nth_Cons split: nat.splits) auto

lemma nibbles: "nat ((schar c div 16) mod 16) = of_char c div 16" "nat (schar c mod 16) = of_char c mod 16"
proof -
  have 1: "nat ((if n < 128 then int n else int n - 256) div 16 mod 16) = n div 16" if n: "n < 256" for n :: nat
  proof -
    have "(int n - 256) div 16 mod 16 = int n div 16 mod 16" using div_mult_self2 [of "16 :: int" "int n" "- 16"] by simp
    moreover have "nat (int n div 16 mod 16) = n div 16 mod 16" by (simp add: nat_mod_distrib nat_div_distrib)
    moreover have "n div 16 < 16" using n by (intro less_mult_imp_div_less) simp
    ultimately show ?thesis by simp
  qed
  have 2: "nat ((if n < 128 then int n else int n - 256) mod 16) = n mod 16" for n :: nat
  proof -
    have "(int n - 256) mod 16 = int n mod 16" using mod_mult_self2 [of "int n" 16 "- 16"] by simp
    moreover have "nat (int n mod 16) = n mod 16" by (simp add: nat_mod_distrib)
    ultimately show ?thesis by simp
  qed
  show "nat ((schar c div 16) mod 16) = of_char c div 16" "nat (schar c mod 16) = of_char c mod 16"
    unfolding schar_def Let_def by (rule 1 [OF nat_of_char_less_256], rule 2)
qed

lemma unhex_block: "unhex (hexblock j xs) = take j xs"
proof (induction j arbitrary: xs)
  case (Suc j)
  show ?case
  proof (cases xs)
    case (Cons c ys)
    have "of_char c div 16 < (16 :: nat)" by (rule less_mult_imp_div_less) simp
    note v = hex_value_digit [OF this] hex_value_digit [of "of_char c mod 16"]
    then show ?thesis using Cons Suc.IH [of ys] by (simp add: hex_hi_def hex_lo_def nibbles)
  qed simp
qed simp

lemma line_bytes_text: "line_bytes (line_text p) = take 16 p"
  using unhex_block [of 8 p] unhex_block [of 8 "drop 8 p"]
  by (simp add: line_bytes_def line_text_def take_add [of 8 8 p, simplified])

lemma dump_loop_law:
  "length l = 71 \<Longrightarrow> \<exists>ts. dump_loop p l = Inr ts \<and> concat (map line_bytes ts) = p \<and>
     concat (map (drop HEX_WIDTH) ts) = map plain p \<and> length ts = (length p + 15) div 16 \<and>
     (\<forall>t \<in> set ts. HEX_WIDTH < length t \<and> length t \<le> HEX_WIDTH + PLAIN_WIDTH)"
proof (induction p l rule: dump_loop.induct)
  case (1 p l)
  show ?case
  proof (cases "p = []")
    case False
    obtain l' where d: "dump_line p l = Inr (line_text p, drop 16 p, l')" "length l' = 71"
      using dump_line_law [OF 1(2)] by blast
    from 1(1) [OF False d(1) refl refl d(2)] obtain ts where ts: "dump_loop (drop 16 p) l' = Inr ts"
      "concat (map line_bytes ts) = drop 16 p" "concat (map (drop HEX_WIDTH) ts) = map plain (drop 16 p)"
      "length ts = (length (drop 16 p) + 15) div 16" "\<forall>t \<in> set ts. HEX_WIDTH < length t \<and> length t \<le> HEX_WIDTH + PLAIN_WIDTH"
      by blast
    have "drop HEX_WIDTH (line_text p) = map plain (take 16 p)" "length (line_text p) = 54 + min 16 (length p)"
      by (simp_all add: line_text_def HEX_WIDTH_def)
    moreover have "length (line_text p # ts) = (length p + 15) div 16"
      using ts(4) False by (cases "16 \<le> length p") (auto simp: le_div_geq Suc_le_eq)
    ultimately show ?thesis using False d(1) ts
      by (subst dump_loop.simps) (simp add: line_bytes_text HEX_WIDTH_def PLAIN_WIDTH_def flip: map_append)
  qed (simp add: dump_loop.simps)
qed

section \<open>Properties\<close>

text \<open>
  C33. A dump stays inside its array of 71 bytes, whatever this held before, and it can be read back: each line has 54
  hex columns and at most 16 text columns, there is one line for every 16 bytes, and the hex columns of all lines
  denote exactly the dumped bytes, as the text columns show their printable ones.
\<close>

theorem dump_readable:
  assumes "length l = HEX_WIDTH + PLAIN_WIDTH + 1"
  shows "\<exists>ts. dump l bytes description = Inr (dump_header description (length bytes) # ts) \<and>
    concat (map line_bytes ts) = bytes \<and> concat (map (drop HEX_WIDTH) ts) = map plain bytes \<and>
    length ts = (length bytes + 15) div 16 \<and> (\<forall>t \<in> set ts. HEX_WIDTH < length t \<and> length t \<le> HEX_WIDTH + PLAIN_WIDTH)"
  using dump_loop_law [of l bytes] assms by (simp add: dump_def HEX_WIDTH_def PLAIN_WIDTH_def) (elim exE, simp)

theorem dump_readable_witness:
  "\<exists>t. dump (replicate 71 NUL) ''hi'' [] = Inr [dump_header [] 2, t] \<and> line_bytes t = ''hi'' \<and> drop 54 t = ''hi''"
proof -
  have "map plain ''hi'' = ''hi''" by (simp add: plain_def isprint_def)
  moreover obtain ts where ts: "dump (replicate 71 NUL) ''hi'' [] = Inr (dump_header [] 2 # ts)" "concat (map line_bytes ts) = ''hi''"
    "concat (map (drop 54) ts) = map plain ''hi''" "length ts = 1"
    using dump_readable [of "replicate 71 NUL" "''hi''" "[]"] by (auto simp: HEX_WIDTH_def PLAIN_WIDTH_def numeral_2_eq_2)
  moreover from ts(4) obtain t where "ts = [t]" by (cases ts) auto
  ultimately show ?thesis by auto
qed

end
