(* ===== verification/Buffer_Values.thy ===== *)
theory Buffer_Values
  imports Managed_Buffer Buffer_Dump
begin

text \<open>
  Buffers as values: the comparison operators and the hash functions of \<^verbatim>\<open>include/xio/Buffer.h\<close>, the handles \<^verbatim>\<open>BufferOffset\<close> and
  \<^verbatim>\<open>BufferSlice\<close> with their copies and moves, and the conversions to floating point numbers, over the parameters \<open>strtod\<close>
  and \<open>strtof\<close>.
\<close>

section \<open>Operators\<close>

definition op_eq :: "heap \<Rightarrow> bool \<Rightarrow> 'a bufref_scheme \<Rightarrow> 'b bufref_scheme \<Rightarrow> bool res" where
  "op_eq h same a b = equals h same a b"

definition op_eq_string :: "heap \<Rightarrow> 'a bufref_scheme \<Rightarrow> string \<Rightarrow> bool res" where
  "op_eq_string h a s = equals_string h a s"

definition op_eq_array :: "heap \<Rightarrow> 'a bufref_scheme \<Rightarrow> char list \<Rightarrow> bool res" where
  "op_eq_array h a b = equals_array h a b"

text \<open>The array on the left.\<close>

definition op_array_eq :: "heap \<Rightarrow> char list \<Rightarrow> 'a bufref_scheme \<Rightarrow> bool res" where
  "op_array_eq h a b = equals_array h b a"

definition op_neq :: "heap \<Rightarrow> bool \<Rightarrow> 'a bufref_scheme \<Rightarrow> 'b bufref_scheme \<Rightarrow> bool res" where
  "op_neq h same a b = bnd (op_eq h same a b) (\<lambda>e. Inr (\<not> e))"

definition op_neq_string :: "heap \<Rightarrow> 'a bufref_scheme \<Rightarrow> string \<Rightarrow> bool res" where
  "op_neq_string h a s = bnd (op_eq_string h a s) (\<lambda>e. Inr (\<not> e))"

definition op_neq_array :: "heap \<Rightarrow> 'a bufref_scheme \<Rightarrow> char list \<Rightarrow> bool res" where
  "op_neq_array h a b = bnd (op_eq_array h a b) (\<lambda>e. Inr (\<not> e))"

definition op_array_neq :: "heap \<Rightarrow> char list \<Rightarrow> 'a bufref_scheme \<Rightarrow> bool res" where
  "op_array_neq h a b = bnd (op_array_eq h a b) (\<lambda>e. Inr (\<not> e))"

definition ref_assign :: "bufref \<Rightarrow> bufref \<Rightarrow> bufref" where
  "ref_assign v r = r\<lparr>b_data := b_data v, b_size := b_size v\<rparr>"

text \<open>Moving a \<^verbatim>\<open>MutableBuffer\<close> copies its members, and leaves them in the source.\<close>

definition mbuf_move :: "mbuf \<Rightarrow> mbuf \<times> mbuf" where
  "mbuf_move v = (mk_mbuf (b_data v) (b_cap v) (b_size v), v)"

definition mb_capacity :: "mbuf \<Rightarrow> nat" where
  "mb_capacity b = b_cap b"

definition mb_not :: "mbuf \<Rightarrow> bool" where
  "mb_not b \<longleftrightarrow> bempty b"

definition index_const :: "heap \<Rightarrow> mbuf \<Rightarrow> nat \<Rightarrow> char res" where
  "index_const h b i = assertC (i < b_size b) (load1 h (ptr_add (b_data b) i))"

text \<open>\<^verbatim>\<open>std::hash<BufferRef>\<close> and \<^verbatim>\<open>std::hash<Buffer>\<close>.\<close>

definition std_hash :: "heap \<Rightarrow> 'a bufref_scheme \<Rightarrow> 32 word res" where
  "std_hash h r = hash h r"

section \<open>Offsets and slices\<close>

record boffset =
  bo_buffer :: "nat option"
  bo_offset :: nat

definition BufferOffset_null :: boffset where
  "BufferOffset_null = \<lparr>bo_buffer = None, bo_offset = 0\<rparr>"

definition BufferOffset_new :: "nat option \<Rightarrow> nat \<Rightarrow> boffset" where
  "BufferOffset_new buffer offset = \<lparr>bo_buffer = buffer, bo_offset = offset\<rparr>"

definition BufferOffset_copy :: "boffset \<Rightarrow> boffset" where
  "BufferOffset_copy v = \<lparr>bo_buffer = bo_buffer v, bo_offset = bo_offset v\<rparr>"

text \<open>The new object, and the source, which no longer refers to the buffer.\<close>

definition BufferOffset_move :: "boffset \<Rightarrow> boffset \<times> boffset" where
  "BufferOffset_move v = (\<lparr>bo_buffer = bo_buffer v, bo_offset = bo_offset v\<rparr>, v\<lparr>bo_buffer := None, bo_offset := 0\<rparr>)"

definition BufferOffset_assign :: "boffset \<Rightarrow> boffset \<Rightarrow> boffset" where
  "BufferOffset_assign v self = self\<lparr>bo_buffer := bo_buffer v, bo_offset := bo_offset v\<rparr>"

definition offset_buffer :: "boffset \<Rightarrow> nat option" where
  "offset_buffer v = bo_buffer v"

definition offset_offset :: "boffset \<Rightarrow> nat" where
  "offset_offset v = bo_offset v"

definition BufferSlice_null :: bslice where
  "BufferSlice_null = \<lparr>s_buffer = bo_buffer BufferOffset_null, s_offset = bo_offset BufferOffset_null, s_size = 0\<rparr>"

definition BufferSlice_new :: "nat \<Rightarrow> nat \<Rightarrow> nat \<Rightarrow> bslice" where
  "BufferSlice_new buffer offset n =
     (let d = BufferOffset_new (Some buffer) offset in \<lparr>s_buffer = bo_buffer d, s_offset = bo_offset d, s_size = n\<rparr>)"

definition BufferSlice_copy :: "bslice \<Rightarrow> bslice" where
  "BufferSlice_copy v =
     (let d = BufferOffset_copy (BufferOffset_new (s_buffer v) (s_offset v)) in
      \<lparr>s_buffer = bo_buffer d, s_offset = bo_offset d, s_size = s_size v\<rparr>)"

definition BufferSlice_assign :: "bslice \<Rightarrow> bslice \<Rightarrow> bslice" where
  "BufferSlice_assign v self =
     (let d = BufferOffset_assign (BufferOffset_new (s_buffer v) (s_offset v)) (BufferOffset_new (s_buffer self) (s_offset self)) in
      \<lparr>s_buffer = bo_buffer d, s_offset = bo_offset d, s_size = s_size v\<rparr>)"

text \<open>\<^verbatim>\<open>ref\<close> of a slice gives a plain view.\<close>

definition slice_ref_from :: "(nat \<Rightarrow> mbuf) \<Rightarrow> bslice \<Rightarrow> nat \<Rightarrow> bufref res" where
  "slice_ref_from bufs s off =
     assertC (off \<le> s_size s) (bnd (slice_ref bufs s) (\<lambda>r. Inr (mk_ref (ptr_add (b_data r) off) (sz_sub (s_size s) off))))"

definition slice_ref_sub :: "(nat \<Rightarrow> mbuf) \<Rightarrow> bslice \<Rightarrow> nat \<Rightarrow> nat \<Rightarrow> bufref res" where
  "slice_ref_sub bufs s off count =
     assertC (off \<le> s_size s) (assertC (count = npos \<or> sz_add off count \<le> s_size s)
       (bnd (slice_ref bufs s) (\<lambda>r.
          Inr (if count \<noteq> npos then mk_ref (ptr_add (b_data r) off) count
               else mk_ref (ptr_add (b_data r) off) (sz_sub (s_size s) off)))))"

text \<open>\<^verbatim>\<open>equals\<close> and \<^verbatim>\<open>std::hash\<close> on slices: the offsets become pointers where the bytes are accessed.\<close>

definition slice_eq :: "heap \<Rightarrow> (nat \<Rightarrow> mbuf) \<Rightarrow> bool \<Rightarrow> bslice \<Rightarrow> bslice \<Rightarrow> bool res" where
  "slice_eq h bufs same a b =
     (if same then Inr True
      else if s_size a \<noteq> s_size b then Inr False
      else bnd (slice_ref bufs a) (\<lambda>ra. bnd (slice_ref bufs b) (\<lambda>rb. memcmp_eq h (b_data ra) (Heap (b_data rb)) (s_size a))))"

definition slice_hash :: "heap \<Rightarrow> (nat \<Rightarrow> mbuf) \<Rightarrow> bslice \<Rightarrow> 32 word res" where
  "slice_hash h bufs s = bnd (slice_ref bufs s) (hash h)"

section \<open>Floating point\<close>

text \<open>
  \<open>strtod\<close> on the bytes from a pointer to the end of its block: the number and the count of bytes it has, or \<open>None\<close> if
  the bytes end before the number does. \<^verbatim>\<open>toDouble\<close> hands it the start of the view, which has no end for it.
\<close>

definition toDouble :: "(char list \<Rightarrow> ('d::zero \<times> nat) option) \<Rightarrow> heap \<Rightarrow> 'a bufref_scheme \<Rightarrow> 'd res" where
  "toDouble strtod h r =
     bnd (load1 h (b_data r)) (\<lambda>_.
       case strtod (bytes_at h (b_data r) (avail h (b_data r))) of
         None \<Rightarrow> Inl OutOfBounds
       | Some (result, n) \<Rightarrow> Inr (if n \<le> b_size r then result else 0))"

definition toFloat :: "(char list \<Rightarrow> ('d \<times> nat) option) \<Rightarrow> heap \<Rightarrow> 'a bufref_scheme \<Rightarrow> 'd res" where
  "toFloat strtof h r =
     bnd (load h (b_data r) (b_size r)) (\<lambda>cs.
       case strtof (cs @ [NUL]) of None \<Rightarrow> Inl OutOfBounds | Some (result, _) \<Rightarrow> Inr result)"

section \<open>Dumping\<close>

definition dump_view :: "string \<Rightarrow> heap \<Rightarrow> 'a bufref_scheme \<Rightarrow> string \<Rightarrow> string list res" where
  "dump_view l h r description = bnd (load h (b_data r) (b_size r)) (\<lambda>bytes. dump l bytes description)"

section \<open>Laws\<close>

lemma equals_eq:
  assumes "ref_ok h a" "ref_ok h b" "same \<Longrightarrow> view h a = view h b"
  shows "equals h same a b = Inr (view h a = view h b)"
proof (cases "b_size a = b_size b")
  case True
  then have "memcmp_eq h (b_data a) (Heap (b_data b)) (b_size a) = Inr (view h a = view h b)"
    using load_view [OF assms(1)] load_view [OF assms(2)] by (simp add: memcmp_eq_def)
  then show ?thesis using True assms(3) by (simp add: equals_def)
next
  case False
  then have "view h a \<noteq> view h b" using length_view [OF assms(1)] length_view [OF assms(2)] by auto
  then show ?thesis using False assms(3) by (auto simp: equals_def)
qed

lemma equals_string_eq:
  assumes "ref_ok h a"
  shows "equals_string h a s = Inr (view h a = s)"
  using load_view [OF assms] length_view [OF assms] by (auto simp: equals_string_def memcmp_eq_def)

lemma equals_array_eq:
  assumes "ref_ok h a"
  shows "equals_array h a (s @ [NUL]) = Inr (view h a = s)"
  using load_view [OF assms] length_view [OF assms] by (auto simp: equals_array_def memcmp_eq_def Let_def)

lemma hash_view: "ref_ok h a \<Longrightarrow> hash h a = Inr (hash_loop 2166136261 (view h a))"
  by (simp add: hash_def load_view)

text \<open>A slice of a sound buffer, and what its \<^verbatim>\<open>ref\<close> sees.\<close>

lemma slice_new_size [simp]: "s_size (BufferSlice_new name off n) = n"
  by (simp add: BufferSlice_new_def Let_def)

lemma slice_ref_view:
  assumes "ref_ok h (bufs name)" "off + n \<le> b_size (bufs name)" "s = BufferSlice_new name off n"
  shows "\<exists>r. slice_ref bufs s = Inr r \<and> ref_ok h r \<and> view h r = take n (drop off (view h (bufs name))) \<and> b_size r = n"
  using mk_ref_sub [OF assms(1,2)] assms(3) by (simp add: slice_ref_def BufferSlice_new_def BufferOffset_new_def Let_def mk_ref_def)

lemma bytes_at_avail:
  assumes "ref_ok h r"
  shows "\<exists>rest. bytes_at h (b_data r) (avail h (b_data r)) = view h r @ rest"
proof (cases "b_size r = 0")
  case False
  then obtain k off xs where x: "b_data r = Addr k off" "blocks h k = Some xs" "off + b_size r \<le> length xs"
    using assms by (cases "b_data r") (auto simp: ref_ok_def readable_def split: option.splits if_splits)
  then have "bytes_at h (b_data r) (avail h (b_data r)) = drop off xs" "view h r = take (b_size r) (drop off xs)"
    using False by (simp_all add: bytes_at_def view_def)
  then show ?thesis by (metis append_take_drop_id)
qed (simp add: view_def)

text \<open>What the C standard says of \<^verbatim>\<open>strtod\<close>: the byte behind the number was seen, and what follows it does not matter.\<close>

locale c_strtod =
  fixes strtod :: "char list \<Rightarrow> ('d \<times> nat) option"
  assumes stops: "strtod xs = Some (v, n) \<Longrightarrow> n < length xs"
    and more: "strtod xs = Some x \<Longrightarrow> strtod (xs @ ys) = Some x"
    and terminator: "NUL \<in> set xs \<Longrightarrow> strtod xs \<noteq> None"
begin

lemma nonempty: "strtod [] = None"
  using stops [of "[]"] by (cases "strtod []") auto

lemma parses: "\<exists>v n. strtod (xs @ [NUL]) = Some (v, n) \<and> n \<le> length xs"
proof -
  obtain v n where "strtod (xs @ [NUL]) = Some (v, n)" using terminator [of "xs @ [NUL]"] by auto
  then show ?thesis using stops by fastforce
qed

lemma inside: "strtod xs = Some (v, n) \<Longrightarrow> strtod (xs @ [NUL]) = Some (v, n) \<and> n \<le> length xs"
  using more stops by fastforce

end

text \<open>Unsigned decimal numbers: a reference instance.\<close>

definition strtoul10 :: "char list \<Rightarrow> (nat \<times> nat) option" where
  "strtoul10 xs =
     (let ds = takeWhile isdigit xs in
      if length ds < length xs then Some (foldl (\<lambda>n c. 10 * n + (of_char c - 48)) 0 ds, length ds) else None)"

lemma takeWhile_stops: "length (takeWhile P xs) < length xs \<Longrightarrow> takeWhile P (xs @ ys) = takeWhile P xs"
  by (induction xs) (auto split: if_splits)

interpretation decimal: c_strtod strtoul10
proof
  fix xs :: "char list" assume "NUL \<in> set xs"
  then have "takeWhile isdigit xs \<noteq> xs" by (auto simp: takeWhile_eq_all_conv isdigit_def Let_def intro!: bexI [of _ NUL])
  then have "length (takeWhile isdigit xs) < length xs"
    by (metis length_takeWhile_le takeWhile_eq_take take_all_iff not_le)
  then show "strtoul10 xs \<noteq> None" by (simp add: strtoul10_def Let_def)
qed (auto simp: strtoul10_def Let_def takeWhile_stops split: if_splits)

section \<open>Properties\<close>

text \<open>
  C26. The comparison operators compare the bytes: of two views, of a view and a string, and of a view and a string literal on either side;
  the negated operators are their negations; and views that are equal have the same hash, as the unordered containers require. The same
  holds for slices of buffers.
\<close>

theorem buffer_equality:
  assumes a: "ref_ok h a" and b: "ref_ok h b" and same: "same \<longrightarrow> a = b"
    and sl: "ref_ok h (bufs x)" "off + n \<le> b_size (bufs x)" "ref_ok h (bufs y)" "off' + n' \<le> b_size (bufs y)"
  shows "op_eq h same a b = Inr (view h a = view h b) \<and> op_neq h same a b = Inr (view h a \<noteq> view h b) \<and>
    op_eq_string h a s = Inr (view h a = s) \<and> op_eq_array h a (s @ [NUL]) = Inr (view h a = s) \<and>
    op_array_eq h (s @ [NUL]) a = Inr (view h a = s) \<and> op_array_neq h (s @ [NUL]) a = Inr (view h a \<noteq> s) \<and>
    (op_eq h same a b = Inr True \<longrightarrow> std_hash h a = std_hash h b) \<and>
    slice_eq h bufs False (BufferSlice_new x off n) (BufferSlice_new y off' n') =
      Inr (take n (drop off (view h (bufs x))) = take n' (drop off' (view h (bufs y)))) \<and>
    (slice_eq h bufs False (BufferSlice_new x off n) (BufferSlice_new y off' n') = Inr True \<longrightarrow>
      slice_hash h bufs (BufferSlice_new x off n) = slice_hash h bufs (BufferSlice_new y off' n'))"
proof -
  obtain r q where r: "slice_ref bufs (BufferSlice_new x off n) = Inr r" "ref_ok h r" "view h r = take n (drop off (view h (bufs x)))" "b_size r = n"
    and q: "slice_ref bufs (BufferSlice_new y off' n') = Inr q" "ref_ok h q" "view h q = take n' (drop off' (view h (bufs y)))" "b_size q = n'"
    using slice_ref_view [of h bufs x off n, OF sl(1,2) refl] slice_ref_view [of h bufs y off' n', OF sl(3,4) refl] by blast
  have "slice_eq h bufs False (BufferSlice_new x off n) (BufferSlice_new y off' n') = equals h False r q"
    using r(1,4) q(1,4) by (cases "n = n'") (auto simp: slice_eq_def equals_def)
  then have e: "slice_eq h bufs False (BufferSlice_new x off n) (BufferSlice_new y off' n') = Inr (view h r = view h q)"
    using equals_eq [OF r(2) q(2)] by simp
  have "equals h same a b = Inr (view h a = view h b)" using equals_eq [OF a b] same by blast
  moreover have "slice_hash h bufs (BufferSlice_new x off n) = hash h r" "slice_hash h bufs (BufferSlice_new y off' n') = hash h q"
    using r(1) q(1) by (simp_all add: slice_hash_def)
  ultimately show ?thesis using e hash_view [OF a] hash_view [OF b] hash_view [OF r(2)] hash_view [OF q(2)] r(3) q(3)
    by (simp add: op_eq_def op_neq_def op_eq_string_def op_eq_array_def op_array_eq_def op_array_neq_def std_hash_def equals_string_eq [OF a] equals_array_eq [OF a])
qed

theorem buffer_equality_witness:
  "op_eq (one_block ''abab'') False (mk_ref (Addr 0 0) 2) (mk_ref (Addr 0 2) 2) = Inr True \<and>
   std_hash (one_block ''abab'') (mk_ref (Addr 0 0) 2) = std_hash (one_block ''abab'') (mk_ref (Addr 0 2) 2)"
proof -
  let ?h = "one_block ''abab''"
  have v: "ref_ok ?h (mk_ref (Addr 0 0) 2)" "ref_ok ?h (mk_ref (Addr 0 2) 2)" "view ?h (mk_ref (Addr 0 0) 2) = view ?h (mk_ref (Addr 0 2) 2)"
    by (simp_all add: ref_ok_def readable_def mk_ref_def one_block_def view_def bytes_at_def)
  have e: "ref_ok ?h ((\<lambda>_. empty_mbuf) (0 :: nat))" "0 + 0 \<le> b_size ((\<lambda>_. empty_mbuf) (0 :: nat))"
    by (simp_all add: ref_ok_def readable_def empty_mbuf_def mk_mbuf_def)
  have f: "False \<longrightarrow> mk_ref (Addr 0 0) 2 = mk_ref (Addr 0 2) 2" by simp
  show ?thesis using buffer_equality [of ?h "mk_ref (Addr 0 0) 2" "mk_ref (Addr 0 2) 2" False "\<lambda>_. empty_mbuf" 0 0 0 0 0 0, OF v(1,2) f e e] v(3) by simp
qed

text \<open>
  C38. The two conversions to floating point differ in where they stop. \<^verbatim>\<open>toFloat\<close> converts the bytes of the view. \<^verbatim>\<open>toDouble\<close> reads on behind the
  view: it has the same result if the number ends inside the view or a terminator follows it, but if the number goes on in the memory
  behind the view the result is zero; without such a terminator it can leave the block; and an empty view without memory is dereferenced.
\<close>

theorem toDouble_reads_on:
  fixes strtod :: "char list \<Rightarrow> ('d::zero \<times> nat) option"
  assumes std: "c_strtod strtod" and r: "ref_ok h r" "b_data r \<noteq> Null"
    and mem: "bytes_at h (b_data r) (avail h (b_data r)) = view h r @ rest" "rest \<noteq> []"
  shows "\<exists>v n. strtod (view h r @ [NUL]) = Some (v, n) \<and> toFloat strtod h r = Inr v \<and>
    (hd rest = NUL \<or> strtod (view h r) \<noteq> None \<longrightarrow> toDouble strtod h r = Inr v) \<and>
    (\<forall>w m. strtod (view h r @ rest) = Some (w, m) \<and> b_size r < m \<longrightarrow> toDouble strtod h r = Inr 0) \<and>
    (strtod (view h r @ rest) = None \<longrightarrow> toDouble strtod h r = Inl OutOfBounds) \<and>
    toDouble strtod h (mk_ref Null 0) = Inl NullDeref"
proof -
  obtain v n where v: "strtod (view h r @ [NUL]) = Some (v, n)" "n \<le> length (view h r)" using c_strtod.parses [OF std] by blast
  have l: "length (view h r) = b_size r" by (rule length_view [OF r(1)])
  have "0 < avail h (b_data r)"
  proof (rule ccontr)
    assume "\<not> 0 < avail h (b_data r)"
    then have "bytes_at h (b_data r) (avail h (b_data r)) = []" by simp
    then show False using mem by simp
  qed
  then obtain c where c: "load1 h (b_data r) = Inr c"
    using r(2) by (cases "b_data r") (auto simp: load1_def split: option.splits)
  then have d: "toDouble strtod h r = (case strtod (view h r @ rest) of None \<Rightarrow> Inl OutOfBounds
      | Some (result, n) \<Rightarrow> Inr (if n \<le> b_size r then result else 0))"
    using mem(1) by (simp add: toDouble_def)
  have "strtod (view h r @ rest) = Some (v, n)" if "hd rest = NUL"
  proof -
    have "view h r @ rest = (view h r @ [NUL]) @ tl rest" using that mem(2) by (cases rest) simp_all
    then show ?thesis using c_strtod.more [OF std v(1), of "tl rest"] by simp
  qed
  moreover have "strtod (view h r @ rest) = Some (v, n)" if "strtod (view h r) \<noteq> None"
    using that c_strtod.more [OF std] v(1) by fastforce
  moreover have "toFloat strtod h r = Inr v" using load_view [OF r(1)] v(1) by (simp add: toFloat_def)
  moreover have "toDouble strtod h (mk_ref Null 0) = Inl NullDeref" by (simp add: toDouble_def mk_ref_def load1_def)
  ultimately show ?thesis using v d l by auto
qed

theorem toDouble_reads_on_witness:
  "toFloat strtoul10 (one_block ''123 '') (mk_ref (Addr 0 0) 2) = Inr 12 \<and> toDouble strtoul10 (one_block ''123 '') (mk_ref (Addr 0 0) 2) = Inr 0"
proof -
  let ?h = "one_block ''123 ''" and ?r = "mk_ref (Addr 0 0) 2"
  have r: "ref_ok ?h ?r" "b_data ?r \<noteq> Null" "bytes_at ?h (b_data ?r) (avail ?h (b_data ?r)) = view ?h ?r @ ''3 ''" "''3 '' \<noteq> []" "view ?h ?r = ''12''"
    by (simp_all add: ref_ok_def readable_def mk_ref_def one_block_def view_def bytes_at_def)
  have s: "strtoul10 (''12'' @ [NUL]) = Some (12, 2)" "strtoul10 (''12'' @ ''3 '') = Some (123, 3)"
    by (simp_all add: strtoul10_def isdigit_def Let_def)
  show ?thesis using toDouble_reads_on [OF decimal.c_strtod_axioms r(1-4)] s unfolding r(5) by (auto simp: mk_ref_def)
qed

end
