(* ===== verification/Kernel.thy ===== *)
theory Kernel
  imports C_Memory
begin

text \<open>
  The system calls that pipes and streams make. The kernel is not part of the library: it is the
  parameter \<open>sys\<close>, a record of functions on an arbitrary kernel state, and what the code relies
  on is the locale \<open>posix_pipes\<close>, the documented behaviour of \<^verbatim>\<open>pipe2\<close>, \<^verbatim>\<open>read\<close>, \<^verbatim>\<open>write\<close>, \<^verbatim>\<open>splice\<close>
  and \<^verbatim>\<open>tee\<close> on pipes. A small kernel with bounded queues, \<open>queue_sys\<close>, interprets it.
\<close>

section \<open>System calls\<close>

text \<open>A call returns \<open>Inl errno\<close> or \<open>Inr\<close> of its result; the C return value is -1 or the byte count.\<close>

record 'k sysops =
  sys_pipe2 :: "nat \<Rightarrow> 'k \<Rightarrow> (nat + int \<times> int) \<times> 'k"
  sys_read :: "int \<Rightarrow> nat \<Rightarrow> 'k \<Rightarrow> (nat + char list) \<times> 'k"
  sys_write :: "int \<Rightarrow> char list \<Rightarrow> 'k \<Rightarrow> (nat + nat) \<times> 'k"
  sys_splice :: "int \<Rightarrow> int \<Rightarrow> nat \<Rightarrow> 'k \<Rightarrow> (nat + nat) \<times> 'k"
  sys_tee :: "int \<Rightarrow> int \<Rightarrow> nat \<Rightarrow> 'k \<Rightarrow> (nat + nat) \<times> 'k"
  sys_sendfile :: "int \<Rightarrow> int \<Rightarrow> nat \<Rightarrow> 'k \<Rightarrow> (nat + nat) \<times> 'k"
  sys_close :: "int \<Rightarrow> 'k \<Rightarrow> 'k"

fun rv_of :: "nat + nat \<Rightarrow> int" where
  "rv_of (Inl e) = - 1"
| "rv_of (Inr n) = int n"

text \<open>\<^verbatim>\<open>::read(fd, dst, n)\<close> and \<^verbatim>\<open>::write(fd, src, n)\<close> with the memory they access.\<close>

definition read_into :: "'k sysops \<Rightarrow> int \<Rightarrow> ptr \<Rightarrow> nat \<Rightarrow> heap \<times> 'k \<Rightarrow> (int \<times> heap \<times> 'k) res" where
  "read_into sys fd dst n w =
     (case sys_read sys fd n (snd w) of
        (Inl e, k') \<Rightarrow> Inr (- 1, fst w, k')
      | (Inr bs, k') \<Rightarrow> bnd (store (fst w) dst bs) (\<lambda>h'. Inr (int (length bs), h', k')))"

definition write_from :: "'k sysops \<Rightarrow> int \<Rightarrow> source \<Rightarrow> nat \<Rightarrow> heap \<times> 'k \<Rightarrow> (int \<times> heap \<times> 'k) res" where
  "write_from sys fd src n w =
     bnd (fetch (fst w) src n) (\<lambda>bs.
       case sys_write sys fd bs (snd w) of (r, k') \<Rightarrow> Inr (rv_of r, fst w, k'))"

section \<open>What the code relies on\<close>

text \<open>
  \<open>pipe_at k r w\<close>: the descriptors \<open>r\<close> and \<open>w\<close> are the two ends of an open pipe; \<open>queue k r\<close> are the bytes in
  it; \<open>sent k fd\<close> are the bytes accepted for the descriptor \<open>fd\<close> so far.
\<close>

locale posix_pipes =
  fixes sys :: "'k sysops"
    and pipe_at :: "'k \<Rightarrow> int \<Rightarrow> int \<Rightarrow> bool"
    and queue :: "'k \<Rightarrow> int \<Rightarrow> char list"
    and sent :: "'k \<Rightarrow> int \<Rightarrow> char list"
  assumes pipe_ends: "pipe_at k r w \<Longrightarrow> pipe_at k r' w' \<Longrightarrow> (r = r') = (w = w')"
    and pipe_ends_differ: "pipe_at k r w \<Longrightarrow> pipe_at k r' w' \<Longrightarrow> r \<noteq> w'"
    and close_other:
      "r \<noteq> fd \<Longrightarrow> w \<noteq> fd \<Longrightarrow> pipe_at k r w \<Longrightarrow>
       pipe_at (sys_close sys fd k) r w \<and> queue (sys_close sys fd k) r = queue k r"
    and pipe_fds: "pipe_at k r w \<Longrightarrow> 0 \<le> r \<and> 0 \<le> w"
    and pipe2_new:
      "sys_pipe2 sys flags k = (Inr (r, w), k') \<Longrightarrow>
       pipe_at k' r w \<and> queue k' r = [] \<and> (\<forall>r' w'. pipe_at k r' w' \<longrightarrow> r' \<noteq> r \<and> w' \<noteq> w) \<and>
       (\<forall>r' w'. r' \<noteq> r \<longrightarrow> pipe_at k' r' w' = pipe_at k r' w') \<and>
       (\<forall>r'. r' \<noteq> r \<longrightarrow> queue k' r' = queue k r') \<and> sent k' = sent k"
    and pipe2_fails:
      "sys_pipe2 sys flags k = (Inl e, k') \<Longrightarrow> 0 < e \<and> pipe_at k' = pipe_at k \<and> queue k' = queue k \<and> sent k' = sent k"
    and read_takes:
      "pipe_at k r w \<Longrightarrow> sys_read sys r n k = (Inr bs, k') \<Longrightarrow>
       length bs \<le> n \<and> queue k r = bs @ queue k' r \<and> (\<forall>r'. r' \<noteq> r \<longrightarrow> queue k' r' = queue k r') \<and>
       pipe_at k' = pipe_at k \<and> sent k' = sent k"
    and read_fails:
      "pipe_at k r w \<Longrightarrow> sys_read sys r n k = (Inl e, k') \<Longrightarrow>
       queue k' = queue k \<and> pipe_at k' = pipe_at k \<and> sent k' = sent k"
    and read_delivers:
      "pipe_at k r w \<Longrightarrow> queue k r \<noteq> [] \<Longrightarrow> 0 < n \<Longrightarrow> \<exists>bs k'. sys_read sys r n k = (Inr bs, k') \<and> bs \<noteq> []"
    and write_accepts:
      "sys_write sys fd bs k = (Inr m, k') \<Longrightarrow>
       m \<le> length bs \<and> pipe_at k' = pipe_at k \<and> sent k' = (sent k)(fd := sent k fd @ take m bs) \<and>
       queue k' = (\<lambda>r. if pipe_at k r fd then queue k r @ take m bs else queue k r)"
    and write_fails:
      "sys_write sys fd bs k = (Inl e, k') \<Longrightarrow> pipe_at k' = pipe_at k \<and> sent k' = sent k \<and> queue k' = queue k"
    and splice_out:
      "pipe_at k r w \<Longrightarrow> fd \<noteq> w \<Longrightarrow> sys_splice sys r fd n k = (Inr m, k') \<Longrightarrow>
       m \<le> n \<and> m \<le> length (queue k r) \<and> pipe_at k' = pipe_at k \<and>
       sent k' = (sent k)(fd := sent k fd @ take m (queue k r)) \<and>
       queue k' = (\<lambda>r'. if r' = r then drop m (queue k r)
                       else if pipe_at k r' fd then queue k r' @ take m (queue k r) else queue k r')"
    and splice_in:
      "pipe_at k r w \<Longrightarrow> (\<forall>w'. \<not> pipe_at k fd w') \<Longrightarrow> sys_splice sys fd w n k = (Inr m, k') \<Longrightarrow>
       m \<le> n \<and> pipe_at k' = pipe_at k \<and> (\<exists>bs. length bs = m \<and> queue k' = (queue k)(r := queue k r @ bs))"
    and splice_fails:
      "sys_splice sys fd fd' n k = (Inl e, k') \<Longrightarrow> pipe_at k' = pipe_at k \<and> sent k' = sent k \<and> queue k' = queue k"
    and tee_copies:
      "pipe_at k r w \<Longrightarrow> pipe_at k r' w' \<Longrightarrow> r \<noteq> r' \<Longrightarrow> sys_tee sys r w' n k = (Inr m, k') \<Longrightarrow>
       m \<le> n \<and> m \<le> length (queue k r) \<and> pipe_at k' = pipe_at k \<and>
       queue k' = (queue k)(r' := queue k r' @ take m (queue k r))"
    and tee_fails:
      "sys_tee sys fd fd' n k = (Inl e, k') \<Longrightarrow> pipe_at k' = pipe_at k \<and> sent k' = sent k \<and> queue k' = queue k"

section \<open>A kernel with bounded queues\<close>

text \<open>
  Pipes have an odd read end \<open>r\<close> and the write end \<open>r + 1\<close>. A pipe holds up to 65536 bytes; reading from an empty
  pipe and writing to a full one fail with \<^verbatim>\<open>EAGAIN\<close> (11). Other descriptors accept all bytes and
  deliver none. Descriptors run out at some point (\<^verbatim>\<open>EMFILE\<close>, 24).
\<close>

record kstate =
  k_pipes :: "int \<Rightarrow> char list option"
  k_sent :: "int \<Rightarrow> char list"
  k_next :: int

definition pipe_of :: "kstate \<Rightarrow> int \<Rightarrow> char list option" where
  "pipe_of k fd = (if 0 \<le> fd \<and> odd fd then k_pipes k fd else None)"

definition q_at :: "kstate \<Rightarrow> int \<Rightarrow> int \<Rightarrow> bool" where
  "q_at k r w \<longleftrightarrow> pipe_of k r \<noteq> None \<and> w = r + 1"

definition q_queue :: "kstate \<Rightarrow> int \<Rightarrow> char list" where
  "q_queue k r = (case pipe_of k r of None \<Rightarrow> [] | Some q \<Rightarrow> q)"

definition q_set :: "int \<Rightarrow> char list \<Rightarrow> kstate \<Rightarrow> kstate" where
  "q_set fd q k = k\<lparr>k_pipes := (k_pipes k)(fd \<mapsto> q)\<rparr>"

definition q_add :: "int \<Rightarrow> char list \<Rightarrow> kstate \<Rightarrow> kstate" where
  "q_add fd bs k =
     (let k' = k\<lparr>k_sent := (k_sent k)(fd := k_sent k fd @ bs)\<rparr> in
      case pipe_of k (fd - 1) of Some q \<Rightarrow> q_set (fd - 1) (q @ bs) k' | None \<Rightarrow> k')"

text \<open>How many of \<open>n\<close> bytes the descriptor has room for.\<close>

definition q_room :: "int \<Rightarrow> nat \<Rightarrow> kstate \<Rightarrow> nat" where
  "q_room fd n k =
     (case pipe_of k (fd - 1) of None \<Rightarrow> n | Some q \<Rightarrow> min n (65536 - length q))"

definition q_splice :: "int \<Rightarrow> int \<Rightarrow> nat \<Rightarrow> kstate \<Rightarrow> (nat + nat) \<times> kstate" where
  "q_splice fd fd' n k =
     (case pipe_of k fd of
        None \<Rightarrow> (Inl 22, k)
      | Some q \<Rightarrow> let m = q_room fd' (min n (length q)) k in
          if m = 0 \<or> fd' = fd + 1 then (Inl 11, k)
          else (Inr m, q_add fd' (take m q) (q_set fd (drop m q) k)))"

definition q_tee :: "int \<Rightarrow> int \<Rightarrow> nat \<Rightarrow> kstate \<Rightarrow> (nat + nat) \<times> kstate" where
  "q_tee fd fd' n k =
     (case pipe_of k fd of
        None \<Rightarrow> (Inl 22, k)
      | Some q \<Rightarrow> let m = q_room fd' (min n (length q)) k in
          if m = 0 then (Inl 11, k) else (Inr m, q_add fd' (take m q) k))"

definition queue_sys :: "kstate sysops" where
  "queue_sys = \<lparr>
     sys_pipe2 = (\<lambda>flags k. let r = k_next k in
       if 0 \<le> r \<and> odd r \<and> k_pipes k r = None then (Inr (r, r + 1), q_set r [] (k\<lparr>k_next := r + 2\<rparr>)) else (Inl 24, k)),
     sys_read = (\<lambda>fd n k. case pipe_of k fd of
         None \<Rightarrow> (Inl 9, k)
       | Some q \<Rightarrow> if q = [] then (Inl 11, k) else (Inr (take n q), q_set fd (drop n q) k)),
     sys_write = (\<lambda>fd bs k. let m = q_room fd (length bs) k in
       if m = 0 then (Inl 11, k) else (Inr m, q_add fd (take m bs) k)),
     sys_splice = q_splice, sys_tee = q_tee, sys_sendfile = (\<lambda>_ _ _ k. (Inl 22, k)),
     sys_close = (\<lambda>fd k. k\<lparr>k_pipes := (k_pipes k)(fd := None)\<rparr>)\<rparr>"

lemma q_set_simps [simp]:
  "pipe_of k fd \<noteq> None \<Longrightarrow> q_at (q_set fd q k) = q_at k"
  "pipe_of k fd \<noteq> None \<Longrightarrow> q_queue (q_set fd q k) = (q_queue k)(fd := q)"
  "k_sent (q_set fd q k) = k_sent k"
  by (auto simp: q_set_def q_at_def q_queue_def pipe_of_def fun_eq_iff split: if_splits)

lemma q_add_at [simp]: "q_at (q_add fd bs k) = q_at k"
  by (auto simp: q_at_def q_add_def q_set_def pipe_of_def fun_eq_iff Let_def split: option.splits if_splits)

lemma q_add_sent [simp]: "k_sent (q_add fd bs k) = (k_sent k)(fd := k_sent k fd @ bs)"
  by (simp add: q_add_def Let_def split: option.splits)

lemma q_add_queue: "q_queue (q_add fd bs k) = (\<lambda>r. if q_at k r fd then q_queue k r @ bs else q_queue k r)"
  by (auto simp: q_queue_def q_at_def q_add_def q_set_def pipe_of_def fun_eq_iff Let_def split: option.splits if_splits)

lemma q_room_le: "q_room fd n k \<le> n"
  by (simp add: q_room_def split: option.splits)

lemma q_splice_law:
  assumes "q_at k r w" "q_splice r fd n k = (Inr m, k')"
  shows "m \<le> n \<and> m \<le> length (q_queue k r) \<and> q_at k' = q_at k \<and>
    k_sent k' = (k_sent k)(fd := k_sent k fd @ take m (q_queue k r)) \<and>
    q_queue k' = (\<lambda>r'. if r' = r then drop m (q_queue k r)
                   else if q_at k r' fd then q_queue k r' @ take m (q_queue k r) else q_queue k r')"
proof -
  from assms(1) obtain q where q: "pipe_of k r = Some q" by (auto simp: q_at_def)
  then have r: "q_queue k r = q" by (simp add: q_queue_def)
  from assms(2) q have m: "m = q_room fd (min n (length q)) k" "k' = q_add fd (take m q) (q_set r (drop m q) k)"
    "fd \<noteq> r + 1"
    by (auto simp: q_splice_def Let_def split: if_splits)
  have "m \<le> min n (length q)" unfolding m(1) by (rule q_room_le)
  moreover have "\<not> q_at k r fd" using m(3) by (simp add: q_at_def)
  ultimately show ?thesis using r q unfolding m(2) by (auto simp: q_add_queue fun_eq_iff)
qed

lemma q_tee_law:
  assumes "q_at k r w" "q_at k r' w'" "q_tee r w' n k = (Inr m, k')"
  shows "m \<le> n \<and> m \<le> length (q_queue k r) \<and> q_at k' = q_at k \<and>
    q_queue k' = (q_queue k)(r' := q_queue k r' @ take m (q_queue k r))"
proof -
  from assms(1) obtain q where q: "pipe_of k r = Some q" by (auto simp: q_at_def)
  from assms(3) q have m: "m = q_room w' (min n (length q)) k" "k' = q_add w' (take m q) k"
    by (auto simp: q_tee_def Let_def split: if_splits)
  have "m \<le> min n (length q)" unfolding m(1) by (rule q_room_le)
  moreover have "q_queue k r = q" using q by (simp add: q_queue_def)
  ultimately show ?thesis using assms(2) unfolding m(2) by (auto simp: q_add_queue fun_eq_iff q_at_def)
qed

lemma q_write_law:
  assumes "sys_write queue_sys fd bs k = (Inr m, k')"
  shows "m \<le> length bs \<and> q_at k' = q_at k \<and> k_sent k' = (k_sent k)(fd := k_sent k fd @ take m bs) \<and>
    q_queue k' = (\<lambda>r. if q_at k r fd then q_queue k r @ take m bs else q_queue k r)"
  using assms q_room_le [of fd "length bs" k]
  by (auto simp: queue_sys_def Let_def q_add_queue split: if_splits)

lemma q_read_law:
  assumes "q_at k r w" "sys_read queue_sys r n k = (Inr bs, k')"
  shows "length bs \<le> n \<and> q_queue k r = bs @ q_queue k' r \<and>
    (\<forall>r'. r' \<noteq> r \<longrightarrow> q_queue k' r' = q_queue k r') \<and> q_at k' = q_at k \<and> k_sent k' = k_sent k"
proof -
  from assms(1) obtain q where q: "pipe_of k r = Some q" by (auto simp: q_at_def)
  then have "q_queue k r = q" by (simp add: q_queue_def)
  with assms(2) q show ?thesis by (auto simp: queue_sys_def split: if_splits)
qed

interpretation queue_kernel: posix_pipes queue_sys q_at q_queue k_sent
proof
  fix k r w n assume a: "q_at k r w" "q_queue k r \<noteq> []" "(0::nat) < n"
  then show "\<exists>bs k'. sys_read queue_sys r n k = (Inr bs, k') \<and> bs \<noteq> []"
    by (auto simp: queue_sys_def q_at_def q_queue_def)
next
  fix flags k r w k' assume "sys_pipe2 queue_sys flags k = (Inr (r, w), k')"
  then show "q_at k' r w \<and> q_queue k' r = [] \<and> (\<forall>r' w'. q_at k r' w' \<longrightarrow> r' \<noteq> r \<and> w' \<noteq> w) \<and>
       (\<forall>r' w'. r' \<noteq> r \<longrightarrow> q_at k' r' w' = q_at k r' w') \<and>
       (\<forall>r'. r' \<noteq> r \<longrightarrow> q_queue k' r' = q_queue k r') \<and> k_sent k' = k_sent k"
    by (auto simp: queue_sys_def Let_def q_at_def q_queue_def q_set_def pipe_of_def split: if_splits)
next
  fix k r w fd n m k'
  assume "q_at k r w" "\<forall>w'. \<not> q_at k fd w'" "sys_splice queue_sys fd w n k = (Inr m, k')"
  then show "m \<le> n \<and> q_at k' = q_at k \<and> (\<exists>bs. length bs = m \<and> q_queue k' = (q_queue k)(r := q_queue k r @ bs))"
    by (auto simp: queue_sys_def q_splice_def q_at_def split: option.splits)
next
  fix k r w n bs k' assume "q_at k r w" "sys_read queue_sys r n k = (Inr bs, k')"
  then show "length bs \<le> n \<and> q_queue k r = bs @ q_queue k' r \<and>
    (\<forall>r'. r' \<noteq> r \<longrightarrow> q_queue k' r' = q_queue k r') \<and> q_at k' = q_at k \<and> k_sent k' = k_sent k"
    by (rule q_read_law)
next
  fix fd bs k m k' assume "sys_write queue_sys fd bs k = (Inr m, k')"
  then show "m \<le> length bs \<and> q_at k' = q_at k \<and> k_sent k' = (k_sent k)(fd := k_sent k fd @ take m bs) \<and>
    q_queue k' = (\<lambda>r. if q_at k r fd then q_queue k r @ take m bs else q_queue k r)"
    by (rule q_write_law)
next
  fix k r w fd n m k' assume "q_at k r w" "sys_splice queue_sys r fd n k = (Inr m, k')"
  then show "m \<le> n \<and> m \<le> length (q_queue k r) \<and> q_at k' = q_at k \<and>
    k_sent k' = (k_sent k)(fd := k_sent k fd @ take m (q_queue k r)) \<and>
    q_queue k' = (\<lambda>r'. if r' = r then drop m (q_queue k r)
                   else if q_at k r' fd then q_queue k r' @ take m (q_queue k r) else q_queue k r')"
    by (intro q_splice_law) (auto simp: queue_sys_def)
next
  fix k r w r' w' n m k' assume "q_at k r w" "q_at k r' w'" "sys_tee queue_sys r w' n k = (Inr m, k')"
  then show "m \<le> n \<and> m \<le> length (q_queue k r) \<and> q_at k' = q_at k \<and>
    q_queue k' = (q_queue k)(r' := q_queue k r' @ take m (q_queue k r))"
    by (intro q_tee_law) (auto simp: queue_sys_def)
qed (auto simp: queue_sys_def q_at_def q_queue_def q_splice_def q_tee_def pipe_of_def Let_def split: if_splits option.splits)

text \<open>A kernel state with the pipes (3, 4) and (5, 6), used in examples.\<close>

definition two_pipes :: "char list \<Rightarrow> char list \<Rightarrow> kstate" where
  "two_pipes a b = \<lparr>k_pipes = [3 \<mapsto> a, 5 \<mapsto> b], k_sent = (\<lambda>_. []), k_next = 7\<rparr>"

lemma two_pipes_simps [simp]:
  "q_at (two_pipes a b) r w \<longleftrightarrow> r = 3 \<and> w = 4 \<or> r = 5 \<and> w = 6"
  "q_queue (two_pipes a b) 3 = a" "q_queue (two_pipes a b) 5 = b" "k_sent (two_pipes a b) fd = []"
  by (auto simp: two_pipes_def q_at_def q_queue_def pipe_of_def)

end
