(* ===== verification/Byte_Stream.thy ===== *)
theory Byte_Stream
  imports C_Memory
begin

text \<open>
  What a \<^verbatim>\<open>Stream\<close> (\<^verbatim>\<open>include/xio/Stream.h\<close>) promises for its two basic operations, \<^verbatim>\<open>write(const char*, size_t)\<close>
  and \<^verbatim>\<open>read(char*, size_t)\<close>: it is a first-in first-out queue of bytes that accepts a prefix of what is
  written and delivers a prefix of what it holds. The classes that keep this promise interpret
  the locale \<open>byte_stream\<close>; the order of bytes over whole sequences of calls is proved in it.
\<close>

text \<open>\<^verbatim>\<open>Stream::write(const char* str)\<close> and \<^verbatim>\<open>Stream::empty()\<close>, defined in the base class by the virtual operations.\<close>

definition stream_write_str :: "(source \<Rightarrow> nat \<Rightarrow> 's \<Rightarrow> 'w \<Rightarrow> (int \<times> 's \<times> 'w) res) \<Rightarrow>
    char list \<Rightarrow> 's \<Rightarrow> 'w \<Rightarrow> (int \<times> 's \<times> 'w) res" where
  "stream_write_str put str s w = put (Local str) (length (takeWhile (\<lambda>c. c \<noteq> NUL) str)) s w"

definition stream_empty :: "('s \<Rightarrow> nat) \<Rightarrow> 's \<Rightarrow> bool" where
  "stream_empty nbytes s \<longleftrightarrow> nbytes s = 0"

datatype stream_op = SWrite "char list" | SRead nat

fun written :: "stream_op list \<Rightarrow> char list" where
  "written [] = []"
| "written (SWrite bs # ops) = bs @ written ops"
| "written (SRead n # ops) = written ops"

text \<open>
  A sequence of calls by one client. Reads go to the client's memory at \<open>dst\<close>, and the client keeps
  what they deliver. The result has the bytes that were accepted and the bytes that were
  delivered.
\<close>

fun run_ops :: "(source \<Rightarrow> nat \<Rightarrow> 's \<Rightarrow> 'w \<Rightarrow> (int \<times> 's \<times> 'w) res) \<Rightarrow>
    (ptr \<Rightarrow> nat \<Rightarrow> 's \<Rightarrow> 'w \<Rightarrow> (int \<times> 's \<times> 'w) res) \<Rightarrow> ('w \<Rightarrow> heap) \<Rightarrow> ptr \<Rightarrow>
    stream_op list \<Rightarrow> 's \<Rightarrow> 'w \<Rightarrow> (char list \<times> char list \<times> 's \<times> 'w) res" where
  "run_ops put get mem dst [] s w = Inr ([], [], s, w)"
| "run_ops put get mem dst (SWrite bs # ops) s w =
     bnd (put (Local bs) (length bs) s w) (\<lambda>(n, s1, w1).
       bnd (run_ops put get mem dst ops s1 w1) (\<lambda>(acc, got, s2, w2).
         Inr (take (nat n) bs @ acc, got, s2, w2)))"
| "run_ops put get mem dst (SRead m # ops) s w =
     bnd (get dst m s w) (\<lambda>(n, s1, w1).
       bnd (run_ops put get mem dst ops s1 w1) (\<lambda>(acc, got, s2, w2).
         Inr (acc, bytes_at (mem w1) dst (nat n) @ got, s2, w2)))"

fun reads_fit :: "nat \<Rightarrow> stream_op list \<Rightarrow> bool" where
  "reads_fit m [] \<longleftrightarrow> True"
| "reads_fit m (SWrite bs # ops) \<longleftrightarrow> reads_fit m ops"
| "reads_fit m (SRead n # ops) \<longleftrightarrow> n \<le> m \<and> reads_fit m ops"

locale byte_stream =
  fixes ok :: "'s \<Rightarrow> 'w \<Rightarrow> bool"
    and contents :: "'s \<Rightarrow> 'w \<Rightarrow> char list"
    and foot :: "'s \<Rightarrow> nat set"
    and mem :: "'w \<Rightarrow> heap"
    and room :: "'s \<Rightarrow> nat \<Rightarrow> bool"
    and nbytes :: "'s \<Rightarrow> nat"
    and put :: "source \<Rightarrow> nat \<Rightarrow> 's \<Rightarrow> 'w \<Rightarrow> (int \<times> 's \<times> 'w) res"
    and get :: "ptr \<Rightarrow> nat \<Rightarrow> 's \<Rightarrow> 'w \<Rightarrow> (int \<times> 's \<times> 'w) res"
  assumes nbytes_contents: "ok s w \<Longrightarrow> nbytes s = length (contents s w)"
    and room_mono: "room s n \<Longrightarrow> m \<le> n \<Longrightarrow> room s m"
    and write_law:
      "ok s w \<Longrightarrow> heap_ok (mem w) \<Longrightarrow> room s n \<Longrightarrow> fetch (mem w) src n = Inr bs \<Longrightarrow>
       n = 0 \<or> source_block src \<inter> foot s = {} \<Longrightarrow>
       \<exists>m s' w'. put src n s w = Inr (m, s', w') \<and> ok s' w' \<and> heap_ok (mem w') \<and>
         frame (foot s) (mem w) (mem w') \<and> moves (foot s) (foot s') (mem w) (mem w') \<and>
         (\<forall>r. room s (n + r) \<longrightarrow> room s' r) \<and> - 1 \<le> m \<and> m \<le> int n \<and>
         contents s' w' = contents s w @ take (nat m) bs"
    and read_law:
      "ok s w \<Longrightarrow> heap_ok (mem w) \<Longrightarrow> readable (mem w) dst n \<Longrightarrow> n < 9223372036854775808 \<Longrightarrow>
       ptr_block dst \<inter> foot s = {} \<Longrightarrow>
       \<exists>m s' w'. get dst n s w = Inr (m, s', w') \<and> ok s' w' \<and> heap_ok (mem w') \<and>
         frame (ptr_block dst) (mem w) (mem w') \<and> foot s' = foot s \<and>
         (\<forall>l. readable (mem w) dst l \<longrightarrow> readable (mem w') dst l) \<and>
         (\<forall>r. room s r \<longrightarrow> room s' r) \<and> - 1 \<le> m \<and> m \<le> int n \<and>
         contents s w = bytes_at (mem w') dst (nat m) @ contents s' w'"
begin

text \<open>
  First in, first out: over any sequence of calls, what was held plus what was accepted is what
  was delivered plus what is still held, in this order.
\<close>

lemma fifo:
  assumes "ok s w" "heap_ok (mem w)" "readable (mem w) dst n" "n < 9223372036854775808" "0 < n"
    "ptr_block dst \<inter> foot s = {}" "room s (length (written ops))" "reads_fit n ops"
  shows "\<exists>acc got s' w'. run_ops put get mem dst ops s w = Inr (acc, got, s', w') \<and> ok s' w' \<and>
    heap_ok (mem w') \<and> contents s w @ acc = got @ contents s' w' \<and> nbytes s' = length (contents s' w')"
  using assms
proof (induction ops arbitrary: s w)
  case Nil
  then show ?case using nbytes_contents by auto
next
  case (Cons x ops)
  note IH = Cons.IH [OF _ _ _ Cons.prems(4,5)]
  have dst: "ptr_block dst \<subseteq> {k. k < next_block (mem w)}"
    using Cons.prems(3,5) live_lt_next [OF Cons.prems(2)]
    by (cases dst) (auto simp: readable_def split: option.splits)
  show ?case
  proof (cases x)
    case (SWrite bs)
    then have rm: "room s (length bs + length (written ops))" using Cons.prems(7) by simp
    then have "room s (length bs)" by (rule room_mono) simp
    with rm obtain m s1 w1 where 1: "put (Local bs) (length bs) s w = Inr (m, s1, w1)" "ok s1 w1"
      "heap_ok (mem w1)" "frame (foot s) (mem w) (mem w1)" "moves (foot s) (foot s1) (mem w) (mem w1)"
      "room s1 (length (written ops))" "contents s1 w1 = contents s w @ take (nat m) bs"
      using write_law [OF Cons.prems(1,2), of "length bs" "Local bs" bs] by auto
    have rd: "readable (mem w1) dst n"
      using readable_frame [OF 1(4) Cons.prems(2) Cons.prems(6) Cons.prems(3)] .
    have dj: "ptr_block dst \<inter> foot s1 = {}" using dst moves_fresh [OF 1(5)] Cons.prems(6) by blast
    obtain acc got s2 w2 where "run_ops put get mem dst ops s1 w1 = Inr (acc, got, s2, w2)" "ok s2 w2"
      "heap_ok (mem w2)" "contents s1 w1 @ acc = got @ contents s2 w2" "nbytes s2 = length (contents s2 w2)"
      using IH [OF 1(2,3) rd dj 1(6)] Cons.prems(8) SWrite by auto
    then show ?thesis using 1 SWrite by auto
  next
    case (SRead k)
    then have k: "k \<le> n" "k < 9223372036854775808" using Cons.prems(4,8) by auto
    obtain m s1 w1 where 1: "get dst k s w = Inr (m, s1, w1)" "ok s1 w1" "heap_ok (mem w1)"
      "frame (ptr_block dst) (mem w) (mem w1)" "foot s1 = foot s" "room s1 (length (written ops))"
      "contents s w = bytes_at (mem w1) dst (nat m) @ contents s1 w1" "readable (mem w1) dst n"
      using read_law [OF Cons.prems(1,2), of dst k] k readable_mono [OF Cons.prems(3)] Cons.prems(3,6,7) SRead
      by auto
    obtain acc got s2 w2 where "run_ops put get mem dst ops s1 w1 = Inr (acc, got, s2, w2)" "ok s2 w2"
      "heap_ok (mem w2)" "contents s1 w1 @ acc = got @ contents s2 w2" "nbytes s2 = length (contents s2 w2)"
      using IH [OF 1(2,3,8) _ 1(6)] Cons.prems(6,8) 1(5) SRead by auto
    then show ?thesis using 1 SRead by auto
  qed
qed

end

end
