(* ===== verification/Pipe_Stream.thy ===== *)
theory Pipe_Stream
  imports Managed_Buffer Kernel Byte_Stream
begin

text \<open>
  The class \<^verbatim>\<open>Pipe\<close> (\<^verbatim>\<open>include/xio/Pipe.h\<close>, \<^verbatim>\<open>lib/Pipe.cpp\<close>): a kernel pipe and a count of the bytes in it. The count
  is the class's own book-keeping; its invariant is that it agrees with the kernel. Loops whose end
  depends on the kernel are partial functions: \<open>None\<close> is a loop that does not end.
\<close>

section \<open>State and operations\<close>

record pipe =
  p_rd :: int
  p_wr :: int
  p_size :: nat

datatype stream_mode = COPY | MOVE

definition Pipe_new :: "'k sysops \<Rightarrow> nat \<Rightarrow> 'k \<Rightarrow> pipe \<times> 'k" where
  "Pipe_new sys flags k =
     (case sys_pipe2 sys flags k of
        (Inr (r, w), k') \<Rightarrow> (\<lparr>p_rd = r, p_wr = w, p_size = 0\<rparr>, k')
      | (Inl e, k') \<Rightarrow> (\<lparr>p_rd = - int e, p_wr = - 1, p_size = 0\<rparr>, k'))"

definition Pipe_isOpen :: "pipe \<Rightarrow> bool" where
  "Pipe_isOpen p \<longleftrightarrow> 0 \<le> p_rd p"

definition Pipe_size :: "pipe \<Rightarrow> nat" where
  "Pipe_size p = p_size p"

definition readFd :: "pipe \<Rightarrow> int" where
  "readFd p = p_rd p"

definition writeFd :: "pipe \<Rightarrow> int" where
  "writeFd p = p_wr p"

definition Pipe_isEmpty :: "pipe \<Rightarrow> bool" where
  "Pipe_isEmpty p \<longleftrightarrow> p_size p = 0"

definition Pipe_destroy :: "'k sysops \<Rightarrow> pipe \<Rightarrow> 'k \<Rightarrow> 'k" where
  "Pipe_destroy sys p k = (if Pipe_isOpen p then sys_close sys (p_wr p) (sys_close sys (p_rd p) k) else k)"

text \<open>\<^verbatim>\<open>if (rv > 0) size_ += rv\<close> and \<^verbatim>\<open>if (rv > 0) size_ -= rv\<close>.\<close>

definition grown :: "int \<Rightarrow> pipe \<Rightarrow> pipe" where
  "grown rv p = (if 0 < rv then p\<lparr>p_size := sz_add (p_size p) (nat rv)\<rparr> else p)"

definition shrunk :: "int \<Rightarrow> pipe \<Rightarrow> pipe" where
  "shrunk rv p = (if 0 < rv then p\<lparr>p_size := sz_sub (p_size p) (nat rv)\<rparr> else p)"

partial_function (option) Pipe_clear :: "'k sysops \<Rightarrow> pipe \<Rightarrow> 'k \<Rightarrow> (pipe \<times> 'k) option" where
  "Pipe_clear sys p k =
     (if 0 < p_size p
      then (case sys_read sys (p_rd p) (min (p_size p) 4096) k of
              (Inl e, k') \<Rightarrow> Pipe_clear sys (shrunk (- 1) p) k'
            | (Inr bs, k') \<Rightarrow> Pipe_clear sys (shrunk (int (length bs)) p) k')
      else Some (p, k))"

definition Pipe_write :: "'k sysops \<Rightarrow> source \<Rightarrow> nat \<Rightarrow> pipe \<Rightarrow> heap \<times> 'k \<Rightarrow> (int \<times> pipe \<times> heap \<times> 'k) res" where
  "Pipe_write sys src n p w =
     bnd (write_from sys (p_wr p) src n w) (\<lambda>(rv, w'). Inr (rv, grown rv p, w'))"

text \<open>\<open>fd\<close> is the handle of the socket.\<close>

definition Pipe_write_socket :: "'k sysops \<Rightarrow> int \<Rightarrow> nat \<Rightarrow> stream_mode \<Rightarrow> pipe \<Rightarrow> 'k \<Rightarrow> int \<times> pipe \<times> 'k" where
  "Pipe_write_socket sys fd n mode p k =
     (if mode \<noteq> MOVE then (- 1, p, k)
      else case sys_splice sys fd (p_wr p) n k of (r, k') \<Rightarrow> (rv_of r, grown (rv_of r) p, k'))"

text \<open>From the pipe \<open>q\<close> into \<open>p\<close>: moving ignores the argument \<open>n\<close>, copying leaves \<open>q\<close> alone.\<close>

definition Pipe_write_pipe ::
    "'k sysops \<Rightarrow> pipe \<Rightarrow> nat \<Rightarrow> stream_mode \<Rightarrow> pipe \<Rightarrow> 'k \<Rightarrow> int \<times> pipe \<times> pipe \<times> 'k" where
  "Pipe_write_pipe sys q n mode p k =
     (if mode = MOVE
      then case sys_splice sys (p_rd q) (p_wr p) (p_size q) k of
             (r, k') \<Rightarrow> (rv_of r, shrunk (rv_of r) q, grown (rv_of r) p, k')
      else case sys_tee sys (p_rd q) (p_wr p) n k of
             (r, k') \<Rightarrow> (rv_of r, q, grown (rv_of r) p, k'))"

definition Pipe_write_fd :: "'k sysops \<Rightarrow> int \<Rightarrow> nat \<Rightarrow> pipe \<Rightarrow> 'k \<Rightarrow> int \<times> pipe \<times> 'k" where
  "Pipe_write_fd sys fd n p k =
     (case sys_splice sys fd (p_wr p) n k of (r, k') \<Rightarrow> (rv_of r, grown (rv_of r) p, k'))"

text \<open>
  \<^verbatim>\<open>read(Buffer&, size_t)\<close>. \<open>Pipe_read_room\<close> is the test for room at the head of the loop; the factor 1.5 is
  exact below \<open>2 ^ 52\<close> bytes, where a \<^verbatim>\<open>double\<close> is.
\<close>

definition Pipe_read_room :: "mbuf \<Rightarrow> heap \<Rightarrow> (bool \<times> mbuf \<times> heap) res" where
  "Pipe_read_room b h =
     (if sz_sub (b_cap b) (b_size b) < 256
      then reserve mutableEnsure (max 4096 (b_size b * 3 div 2)) b h else Inr (True, b, h))"

partial_function (option) Pipe_read_loop :: "'k sysops \<Rightarrow> int \<Rightarrow> nat \<Rightarrow> int \<Rightarrow> mbuf \<Rightarrow> heap \<times> 'k \<Rightarrow>
    (int \<times> mbuf \<times> heap \<times> 'k) res option" where
  "Pipe_read_loop sys fd n nread b w =
     (if 0 < n
      then case Pipe_read_room b (fst w) of
        Inl e \<Rightarrow> Some (Inl e)
      | Inr (ok, b1, h1) \<Rightarrow>
          if \<not> ok then Some (Inr (if nread \<noteq> 0 then nread else - 1, b1, h1, snd w))
          else case read_into sys fd (ptr_add (b_data b1) (b_size b1))
                  (min (sz_sub (b_cap b1) (b_size b1)) n) (h1, snd w) of
            Inl e \<Rightarrow> Some (Inl e)
          | Inr (rv, w2) \<Rightarrow>
              if rv \<le> 0 then Some (Inr (if nread \<noteq> 0 then nread else rv, b1, w2))
              else if nat rv < min (sz_sub (b_cap b1) (b_size b1)) n
              then Some (Inr (nread + rv, snd (resize (sz_add (b_size b1) (nat rv)) b1), w2))
              else Pipe_read_loop sys fd (sz_sub n (nat rv)) (nread + rv)
                     (snd (resize (sz_add (b_size b1) (nat rv)) b1)) w2
      else Some (Inr (nread, b, w)))"

definition Pipe_read_buffer :: "'k sysops \<Rightarrow> nat \<Rightarrow> mbuf \<Rightarrow> pipe \<Rightarrow> heap \<times> 'k \<Rightarrow>
    (int \<times> mbuf \<times> pipe \<times> heap \<times> 'k) res option" where
  "Pipe_read_buffer sys n b p w =
     map_option (\<lambda>r. bnd r (\<lambda>(rv, b', w'). Inr (rv, b', p, w'))) (Pipe_read_loop sys (p_rd p) n 0 b w)"

definition Pipe_read :: "'k sysops \<Rightarrow> ptr \<Rightarrow> nat \<Rightarrow> pipe \<Rightarrow> heap \<times> 'k \<Rightarrow> (int \<times> pipe \<times> heap \<times> 'k) res" where
  "Pipe_read sys dst n p w =
     bnd (read_into sys (p_rd p) dst n w) (\<lambda>(rv, w'). Inr (rv, shrunk rv p, w'))"

definition Pipe_read_socket :: "pipe \<Rightarrow> 'k \<Rightarrow> int \<times> pipe \<times> 'k" where
  "Pipe_read_socket p k = (0, p, k)"

definition Pipe_read_pipe :: "pipe \<Rightarrow> pipe \<Rightarrow> 'k \<Rightarrow> int \<times> pipe \<times> pipe \<times> 'k" where
  "Pipe_read_pipe q p k = (0, q, p, k)"

definition Pipe_read_fd :: "'k sysops \<Rightarrow> int \<Rightarrow> nat \<Rightarrow> pipe \<Rightarrow> 'k \<Rightarrow> int \<times> pipe \<times> 'k" where
  "Pipe_read_fd sys fd n p k =
     (case sys_splice sys (p_rd p) fd n k of (r, k') \<Rightarrow> (rv_of r, shrunk (rv_of r) p, k'))"

text \<open>\<^verbatim>\<open>int read()\<close>, through a local \<^verbatim>\<open>char\<close>.\<close>

definition Pipe_read_char :: "'k sysops \<Rightarrow> pipe \<Rightarrow> 'k \<Rightarrow> int \<times> pipe \<times> 'k" where
  "Pipe_read_char sys p k =
     (if p_size p \<noteq> 0
      then case sys_read sys (p_rd p) 1 k of
             (Inr bs, k') \<Rightarrow>
               (if length bs = 1 then schar (hd bs) else - 1, shrunk (int (length bs)) p, k')
           | (Inl e, k') \<Rightarrow> (- 1, p, k')
      else (- 1, p, k))"

section \<open>Invariant\<close>

text \<open>The count is the number of bytes in the kernel's pipe.\<close>

definition pipe_ok :: "('k \<Rightarrow> int \<Rightarrow> int \<Rightarrow> bool) \<Rightarrow> ('k \<Rightarrow> int \<Rightarrow> char list) \<Rightarrow> pipe \<Rightarrow> 'k \<Rightarrow> bool" where
  "pipe_ok pipe_at queue p k \<longleftrightarrow> pipe_at k (p_rd p) (p_wr p) \<and>
     p_size p = length (queue k (p_rd p)) \<and> p_size p < SIZE_MOD"

lemma grown_sel [simp]: "p_rd (grown rv p) = p_rd p" "p_wr (grown rv p) = p_wr p"
  by (simp_all add: grown_def)

lemma shrunk_sel [simp]: "p_rd (shrunk rv p) = p_rd p" "p_wr (shrunk rv p) = p_wr p"
  by (simp_all add: shrunk_def)

lemma grown_size: "p_size p + m < SIZE_MOD \<Longrightarrow> p_size (grown (int m) p) = p_size p + m"
  by (simp add: grown_def)

lemma shrunk_size: "m \<le> p_size p \<Longrightarrow> p_size p < SIZE_MOD \<Longrightarrow> p_size (shrunk (int m) p) = p_size p - m"
  by (simp add: shrunk_def)

lemma grown_fail [simp]: "grown (- 1) p = p" "shrunk (- 1) p = p"
  by (simp_all add: grown_def shrunk_def)

section \<open>A pipe is a byte stream\<close>

context posix_pipes
begin

lemma pipe_write_law:
  assumes ok: "pipe_ok pipe_at queue p (snd w)" and rm: "p_size p + n < SIZE_MOD"
    and src: "fetch (fst w) src n = Inr bs"
  shows "\<exists>m p' w'. Pipe_write sys src n p w = Inr (m, p', w') \<and> pipe_ok pipe_at queue p' (snd w') \<and>
    fst w' = fst w \<and> p_rd p' = p_rd p \<and> p_size p' \<le> p_size p + n \<and> - 1 \<le> m \<and> m \<le> int n \<and>
    queue (snd w') (p_rd p') = queue (snd w) (p_rd p) @ take (nat m) bs"
proof -
  obtain r k' where c: "sys_write sys (p_wr p) bs (snd w) = (r, k')" by fastforce
  have pw: "Pipe_write sys src n p w = Inr (rv_of r, grown (rv_of r) p, fst w, k')"
    using src c by (simp add: Pipe_write_def write_from_def)
  have at: "pipe_at (snd w) (p_rd p) (p_wr p)" "p_size p = length (queue (snd w) (p_rd p))" "p_size p < SIZE_MOD"
    using ok by (simp_all add: pipe_ok_def)
  have len: "length bs = n" using src by (rule fetch_Inr_length)
  show ?thesis
  proof (cases r)
    case (Inl e)
    then show ?thesis using pw write_fails [of "p_wr p" bs "snd w" e k'] c at by (auto simp: pipe_ok_def)
  next
    case (Inr m)
    note W = write_accepts [OF c [unfolded Inr]]
    then have "p_size (grown (int m) p) = p_size p + m" using rm len by (intro grown_size) auto
    then show ?thesis using pw W at rm len Inr by (auto simp: pipe_ok_def)
  qed
qed

lemma pipe_read_law:
  assumes ok: "pipe_ok pipe_at queue p (snd w)" and hok: "heap_ok (fst w)" and rd: "readable (fst w) dst n"
  shows "\<exists>m p' w'. Pipe_read sys dst n p w = Inr (m, p', w') \<and> pipe_ok pipe_at queue p' (snd w') \<and>
    heap_ok (fst w') \<and> frame (ptr_block dst) (fst w) (fst w') \<and> p_rd p' = p_rd p \<and> p_size p' \<le> p_size p \<and>
    (\<forall>l. readable (fst w) dst l \<longrightarrow> readable (fst w') dst l) \<and> - 1 \<le> m \<and> m \<le> int n \<and>
    queue (snd w) (p_rd p) = bytes_at (fst w') dst (nat m) @ queue (snd w') (p_rd p')"
proof -
  obtain r k' where c: "sys_read sys (p_rd p) n (snd w) = (r, k')" by fastforce
  have at: "pipe_at (snd w) (p_rd p) (p_wr p)" "p_size p = length (queue (snd w) (p_rd p))" "p_size p < SIZE_MOD"
    using ok by (simp_all add: pipe_ok_def)
  show ?thesis
  proof (cases r)
    case (Inl e)
    then have "Pipe_read sys dst n p w = Inr (- 1, p, fst w, k')"
      using c by (simp add: Pipe_read_def read_into_def)
    then show ?thesis using read_fails [OF at(1), of n e k'] c Inl at hok by (auto simp: pipe_ok_def)
  next
    case (Inr bs)
    note R = read_takes [OF at(1) c [unfolded Inr]]
    then have rb: "readable (fst w) dst (length bs)" using rd by (auto intro: readable_mono)
    then obtain h' where st: "store (fst w) dst bs = Inr h'" using store_ok by blast
    have pr: "Pipe_read sys dst n p w = Inr (int (length bs), shrunk (int (length bs)) p, h', k')"
      using c Inr st by (simp add: Pipe_read_def read_into_def)
    have le: "length bs \<le> p_size p" using R at(2) by simp
    have "p_size (shrunk (int (length bs)) p) = p_size p - length bs" using le at by (simp add: shrunk_size)
    then show ?thesis
      using pr R at st le hok store_blocks(1,2) [OF st] bytes_at_store_same [OF st rb]
      by (auto simp: pipe_ok_def readable_store [OF st])
  qed
qed

end

sublocale posix_pipes \<subseteq> pq: byte_stream "\<lambda>p w. pipe_ok pipe_at queue p (snd w)" "\<lambda>p w. queue (snd w) (p_rd p)"
    "\<lambda>_. {}" fst "\<lambda>p n. p_size p + n < SIZE_MOD" p_size "Pipe_write sys" "Pipe_read sys"
proof
  fix p :: pipe and w :: "heap \<times> 'k" assume "pipe_ok pipe_at queue p (snd w)"
  then show "p_size p = length (queue (snd w) (p_rd p))" by (simp add: pipe_ok_def)
next
  fix p and w :: "heap \<times> 'k" and n src bs
  assume "pipe_ok pipe_at queue p (snd w)" "heap_ok (fst w)" "p_size p + n < SIZE_MOD" "fetch (fst w) src n = Inr bs"
  then show "\<exists>m p' w'. Pipe_write sys src n p w = Inr (m, p', w') \<and> pipe_ok pipe_at queue p' (snd w') \<and>
      heap_ok (fst w') \<and> frame {} (fst w) (fst w') \<and> moves {} {} (fst w) (fst w') \<and>
      (\<forall>r. p_size p + (n + r) < SIZE_MOD \<longrightarrow> p_size p' + r < SIZE_MOD) \<and> - 1 \<le> m \<and> m \<le> int n \<and>
      queue (snd w') (p_rd p') = queue (snd w) (p_rd p) @ take (nat m) bs"
    using pipe_write_law by fastforce
next
  fix p and w :: "heap \<times> 'k" and dst n
  assume "pipe_ok pipe_at queue p (snd w)" "heap_ok (fst w)" "readable (fst w) dst n"
  then show "\<exists>m p' w'. Pipe_read sys dst n p w = Inr (m, p', w') \<and> pipe_ok pipe_at queue p' (snd w') \<and>
      heap_ok (fst w') \<and> frame (ptr_block dst) (fst w) (fst w') \<and> {} = {} \<and>
      (\<forall>l. readable (fst w) dst l \<longrightarrow> readable (fst w') dst l) \<and>
      (\<forall>r. p_size p + r < SIZE_MOD \<longrightarrow> p_size p' + r < SIZE_MOD) \<and> - 1 \<le> m \<and> m \<le> int n \<and>
      queue (snd w) (p_rd p) = bytes_at (fst w') dst (nat m) @ queue (snd w') (p_rd p')"
    using pipe_read_law by fastforce
qed simp

section \<open>Reading into a buffer\<close>

text \<open>From \<open>k\<close> to \<open>k'\<close> the bytes \<open>bs\<close> were taken out of the pipe with the read end \<open>r\<close>.\<close>

definition taken :: "('k \<Rightarrow> int \<Rightarrow> int \<Rightarrow> bool) \<Rightarrow> ('k \<Rightarrow> int \<Rightarrow> char list) \<Rightarrow> int \<Rightarrow> char list \<Rightarrow> 'k \<Rightarrow> 'k \<Rightarrow> bool" where
  "taken pipe_at queue r bs k k' \<longleftrightarrow> queue k r = bs @ queue k' r \<and>
     (\<forall>r'. r' \<noteq> r \<longrightarrow> queue k' r' = queue k r') \<and> pipe_at k' = pipe_at k"

lemma taken_trans:
  "taken pipe_at queue r bs k k1 \<Longrightarrow> taken pipe_at queue r cs k1 k2 \<Longrightarrow> taken pipe_at queue r (bs @ cs) k k2"
  by (simp add: taken_def)

lemma Pipe_read_room_spec:
  assumes ok: "buffer_ok h b" "heap_ok h" and sz: "b_size b < 1125899906842624"
  obtains granted b' h' where "Pipe_read_room b h = Inr (granted, b', h')" "appended buffer_ok h b h' b' []"
    "granted \<Longrightarrow> b_size b' < b_cap b'"
proof (cases "sz_sub (b_cap b) (b_size b) < 256")
  case False
  have "b_size b \<le> b_cap b" "b_cap b < SIZE_MOD" using ok by (auto simp: buffer_ok_def)
  with False have "b_size b < b_cap b" by auto
  with False ok show thesis
    by (intro that [of True b h]) (auto simp: Pipe_read_room_def appended_refl)
next
  case True
  let ?n = "max 4096 (b_size b * 3 div 2)"
  have n: "0 < ?n" "?n \<le> MAX_REQ" "b_size b \<le> ?n" "b_size b < ?n" using sz by (auto simp: MAX_REQ_def)
  obtain granted b' h' where e: "mutableEnsure ?n b h = Inr (granted, b', h')"
    using managed.ensure_total [OF ok n(1-3)] by auto
  note K = managed.ensure_keeps [OF ok n(1-3) e]
  show thesis
    using K e True n(4)
    by (intro that [of granted b' h']) (auto simp: Pipe_read_room_def reserve_def appended_def)
qed

context posix_pipes
begin

text \<open>One \<^verbatim>\<open>::read\<close> into the spare room of a buffer.\<close>

lemma read_spare:
  assumes at: "pipe_at k r w0" and ok: "buffer_ok h b" "heap_ok h" and n: "b_size b + n \<le> b_cap b"
  obtains e k' where "read_into sys r (ptr_add (b_data b) (b_size b)) n (h, k) = Inr (- 1, h, k')"
      "queue k' = queue k" "pipe_at k' = pipe_at k"
  | bs h' k' where "read_into sys r (ptr_add (b_data b) (b_size b)) n (h, k) = Inr (int (length bs), h', k')"
      "appended buffer_ok h b h' (b\<lparr>b_size := b_size b + length bs\<rparr>) bs"
      "length bs \<le> n" "queue k r = bs @ queue k' r" "\<forall>r'. r' \<noteq> r \<longrightarrow> queue k' r' = queue k r'" "pipe_at k' = pipe_at k"
proof -
  obtain res k' where c: "sys_read sys r n k = (res, k')" by fastforce
  show thesis
  proof (cases res)
    case (Inl e)
    then show thesis using that(1) [of k'] c read_fails [OF at, of n e k'] by (simp add: read_into_def)
  next
    case (Inr bs)
    note R = read_takes [OF at c [unfolded Inr]]
    then have "b_size b + length bs \<le> b_cap b" using n by simp
    from managed.append_bytes [OF ok this refl] obtain h' where
      st: "store h (ptr_add (b_data b) (b_size b)) bs = Inr h'" "buffer_ok h' (b\<lparr>b_size := b_size b + length bs\<rparr>)"
      "heap_ok h'" "frame (owns b) h h'" "view h' (b\<lparr>b_size := b_size b + length bs\<rparr>) = view h b @ bs"
      by blast
    have "moves (owns b) (owns b) h h'" using moves_store [OF st(1)] by (simp add: owns_def)
    then have "appended buffer_ok h b h' (b\<lparr>b_size := b_size b + length bs\<rparr>) bs"
      using st by (simp add: appended_def owns_def)
    then show thesis using that(2) [of bs h' k'] c Inr st(1) R by (simp add: read_into_def)
  qed
qed

lemma Pipe_read_step:
  assumes at: "pipe_at k r w0" and ok: "buffer_ok h b" "heap_ok h" and sz: "b_size b + n < 1125899906842624"
    and n: "n \<noteq> 0" and nread: "0 \<le> nread"
  shows "\<exists>b1 h1 k1 bs. appended buffer_ok h b h1 b1 bs \<and> taken pipe_at queue r bs k k1 \<and> length bs \<le> n \<and>
    ((\<exists>rv. Pipe_read_loop sys r n nread b (h, k) = Some (Inr (rv, b1, h1, k1)) \<and>
        (rv = nread + int (length bs) \<or> nread = 0 \<and> bs = [] \<and> rv = - 1)) \<or>
     bs \<noteq> [] \<and> Pipe_read_loop sys r n nread b (h, k) =
       Pipe_read_loop sys r (n - length bs) (nread + int (length bs)) b1 (h1, k1))"
proof -
  note L = Pipe_read_loop.simps [of sys r n nread b "(h, k)"]
  obtain granted b1 h1 where rm: "Pipe_read_room b h = Inr (granted, b1, h1)" "appended buffer_ok h b h1 b1 []"
    "granted \<Longrightarrow> b_size b1 < b_cap b1"
    using Pipe_read_room_spec [OF ok] sz by auto
  show ?thesis
  proof (cases granted)
    case False
    then show ?thesis
      using rm(1,2) n unfolding L
      by (intro exI [of _ b1] exI [of _ h1] exI [of _ k] exI [of _ "[]"]) (auto simp: taken_def)
  next
    case True
    have ok1: "buffer_ok h1 b1" "heap_ok h1" using rm(2) by (auto simp: appended_def)
    then have cap: "b_cap b1 < SIZE_MOD" by (simp add: buffer_ok_def)
    let ?m = "min (b_cap b1 - b_size b1) n"
    have m: "sz_sub (b_cap b1) (b_size b1) = b_cap b1 - b_size b1" "0 < ?m" "b_size b1 + ?m \<le> b_cap b1"
      using rm(3) [OF True] cap n by auto
    show ?thesis
    proof (rule read_spare [OF at ok1 m(3)])
      fix e k' assume "read_into sys r (ptr_add (b_data b1) (b_size b1)) ?m (h1, k) = Inr (- 1, h1, k')"
        "queue k' = queue k" "pipe_at k' = pipe_at k"
      then show ?thesis using rm True n m(1) unfolding L
        by (intro exI [of _ b1] exI [of _ h1] exI [of _ k'] exI [of _ "[]"]) (auto simp: taken_def)
    next
      fix bs h' k'
      assume a: "read_into sys r (ptr_add (b_data b1) (b_size b1)) ?m (h1, k) = Inr (int (length bs), h', k')"
        "appended buffer_ok h1 b1 h' (b1\<lparr>b_size := b_size b1 + length bs\<rparr>) bs"
        "length bs \<le> ?m" "queue k r = bs @ queue k' r" "\<forall>r'. r' \<noteq> r \<longrightarrow> queue k' r' = queue k r'"
        "pipe_at k' = pipe_at k"
      let ?b = "b1\<lparr>b_size := b_size b1 + length bs\<rparr>"
      have ap: "appended buffer_ok h b h' ?b bs" using appended_trans [OF rm(2) a(2) ok(2)] by simp
      have "b_size b1 + length bs \<le> b_cap b1" using a(3) m(3) by linarith
      then have rz: "snd (resize (sz_add (b_size b1) (length bs)) b1) = ?b" using cap by (simp add: resize_def)
      have sn: "sz_sub n (length bs) = n - length bs" using a(3) sz by simp
      have tk: "taken pipe_at queue r bs k k'" using a by (simp add: taken_def)
      show ?thesis
        using a(1,3) ap tk rm(1) True n m(1) rz sn unfolding L
        by (intro exI [of _ "if bs = [] then b1 else ?b"] exI [of _ h'] exI [of _ k'] exI [of _ bs]) auto
    qed
  qed
qed

lemma Pipe_read_loop_law:
  assumes "pipe_at k r w0" "buffer_ok h b" "heap_ok h" "b_size b + n < 1125899906842624" "0 \<le> nread"
  shows "\<exists>rv b' h' k' bs. Pipe_read_loop sys r n nread b (h, k) = Some (Inr (rv, b', h', k')) \<and>
    appended buffer_ok h b h' b' bs \<and> taken pipe_at queue r bs k k' \<and> length bs \<le> n \<and>
    (rv = nread + int (length bs) \<or> nread = 0 \<and> bs = [] \<and> rv = - 1)"
  using assms
proof (induction n arbitrary: nread b h k rule: less_induct)
  case (less n)
  show ?case
  proof (cases "n = 0")
    case True
    then have "Pipe_read_loop sys r n nread b (h, k) = Some (Inr (nread, b, h, k))"
      by (simp add: Pipe_read_loop.simps)
    then show ?thesis using appended_refl [of buffer_ok h b] less.prems by (auto simp: taken_def)
  next
    case False
    obtain b1 h1 k1 bs where 1: "appended buffer_ok h b h1 b1 bs" "taken pipe_at queue r bs k k1" "length bs \<le> n"
      "(\<exists>rv. Pipe_read_loop sys r n nread b (h, k) = Some (Inr (rv, b1, h1, k1)) \<and>
          (rv = nread + int (length bs) \<or> nread = 0 \<and> bs = [] \<and> rv = - 1)) \<or>
       bs \<noteq> [] \<and> Pipe_read_loop sys r n nread b (h, k) =
         Pipe_read_loop sys r (n - length bs) (nread + int (length bs)) b1 (h1, k1)"
      using Pipe_read_step [OF less.prems(1-4) False less.prems(5)] by blast
    show ?thesis
    proof (cases "\<exists>rv. Pipe_read_loop sys r n nread b (h, k) = Some (Inr (rv, b1, h1, k1)) \<and>
          (rv = nread + int (length bs) \<or> nread = 0 \<and> bs = [] \<and> rv = - 1)")
      case True
      then show ?thesis using 1(1-3) by blast
    next
      case False
      then have bs: "bs \<noteq> []" and eq: "Pipe_read_loop sys r n nread b (h, k) =
         Pipe_read_loop sys r (n - length bs) (nread + int (length bs)) b1 (h1, k1)" using 1(4) by blast+
      have pos: "nread + int (length bs) \<noteq> 0" using bs less.prems(5) by (cases bs) auto
      have lt: "n - length bs < n" using bs \<open>n \<noteq> 0\<close> by simp
      have "\<exists>rv b' h' k' cs. Pipe_read_loop sys r (n - length bs) (nread + int (length bs)) b1 (h1, k1) =
            Some (Inr (rv, b', h', k')) \<and> appended buffer_ok h1 b1 h' b' cs \<and> taken pipe_at queue r cs k1 k' \<and>
          length cs \<le> n - length bs \<and>
          (rv = nread + int (length bs) + int (length cs) \<or> nread + int (length bs) = 0 \<and> cs = [] \<and> rv = - 1)"
        using lt 1(1-3) less.prems by (intro less.IH) (auto simp: appended_def taken_def)
      then obtain rv b' h' k' cs where 2: "Pipe_read_loop sys r n nread b (h, k) = Some (Inr (rv, b', h', k'))"
        "appended buffer_ok h1 b1 h' b' cs" "taken pipe_at queue r cs k1 k'" "length cs \<le> n - length bs"
        "rv = nread + int (length bs) + int (length cs)"
        using pos eq by auto
      have "appended buffer_ok h b h' b' (bs @ cs)" using appended_trans [OF 1(1) 2(2) less.prems(3)] .
      moreover have "taken pipe_at queue r (bs @ cs) k k'" using taken_trans [OF 1(2) 2(3)] .
      ultimately show ?thesis using 2(1,4,5) 1(3)
        by (intro exI [of _ rv] exI [of _ b'] exI [of _ h'] exI [of _ k'] exI [of _ "bs @ cs"]) auto
    qed
  qed
qed

section \<open>Clearing and moving\<close>

lemma Pipe_clear_law:
  assumes "pipe_ok pipe_at queue p k"
  shows "\<exists>k'. Pipe_clear sys p k = Some (p\<lparr>p_size := 0\<rparr>, k') \<and> taken pipe_at queue (p_rd p) (queue k (p_rd p)) k k'"
  using assms
proof (induction "p_size p" arbitrary: p k rule: less_induct)
  case less
  then have at: "pipe_at k (p_rd p) (p_wr p)" "p_size p = length (queue k (p_rd p))" "p_size p < SIZE_MOD"
    by (simp_all add: pipe_ok_def)
  show ?case
  proof (cases "p_size p = 0")
    case True
    then show ?thesis using at by (auto simp: Pipe_clear.simps [of sys p k] taken_def)
  next
    case False
    then have "queue k (p_rd p) \<noteq> []" using at by auto
    then obtain bs k1 where c: "sys_read sys (p_rd p) (min (p_size p) 4096) k = (Inr bs, k1)" "bs \<noteq> []"
      using read_delivers [OF at(1)] False by (metis gr0I min_0R min_def zero_neq_numeral)
    note R = read_takes [OF at(1) c(1)]
    let ?p = "shrunk (int (length bs)) p"
    have le: "length bs \<le> p_size p" using R by simp
    then have sz: "p_size ?p = p_size p - length bs" using at by (simp add: shrunk_size)
    then have ok1: "pipe_ok pipe_at queue ?p k1" using R at by (simp add: pipe_ok_def)
    have "p_size ?p < p_size p" using sz False c(2) by (cases bs) auto
    then obtain k' where 2: "Pipe_clear sys ?p k1 = Some (?p\<lparr>p_size := 0\<rparr>, k')"
      "taken pipe_at queue (p_rd p) (queue k1 (p_rd p)) k1 k'"
      using less.hyps [OF _ ok1] by auto
    moreover have "?p\<lparr>p_size := 0\<rparr> = p\<lparr>p_size := 0\<rparr>" by (simp add: shrunk_def)
    moreover have "taken pipe_at queue (p_rd p) bs k k1" using R by (simp add: taken_def)
    ultimately show ?thesis
      using False c R taken_trans [of pipe_at queue "p_rd p" bs k k1] by (auto simp: Pipe_clear.simps [of sys p k])
  qed
qed

text \<open>A count that is too high is never cleared.\<close>

lemma Pipe_clear_stuck:
  assumes "pipe_at k (p_rd p) (p_wr p)" "queue k (p_rd p) = []" "0 < p_size p"
  shows "Pipe_clear sys p k = None"
proof -
  have "s = sys \<longrightarrow> \<not> (pipe_at k (p_rd p) (p_wr p) \<and> queue k (p_rd p) = [] \<and> 0 < p_size p)"
    if "Pipe_clear s p k = Some y" for s p k y
    using that
  proof (rule Pipe_clear.raw_induct [rotated], intro impI notI)
    fix f s p k y
    assume IH: "\<And>s p k y. f s p k = Some y \<Longrightarrow>
        s = sys \<longrightarrow> \<not> (pipe_at k (p_rd p) (p_wr p) \<and> queue k (p_rd p) = [] \<and> 0 < p_size p)"
      and step: "(if 0 < p_size p
        then case sys_read s (p_rd p) (min (p_size p) 4096) k of
             (Inl e, k') \<Rightarrow> f s (shrunk (- 1) p) k'
           | (Inr bs, k') \<Rightarrow> f s (shrunk (int (length bs)) p) k' else Some (p, k)) = Some y"
      and s: "s = sys" and a: "pipe_at k (p_rd p) (p_wr p) \<and> queue k (p_rd p) = [] \<and> 0 < p_size p"
    obtain res k' where c: "sys_read sys (p_rd p) (min (p_size p) 4096) k = (res, k')" by fastforce
    show False
    proof (cases res)
      case (Inl e)
      with step a c s have "f sys p k' = Some y" by simp
      moreover have "queue k' = queue k" "pipe_at k' = pipe_at k"
        using a c Inl read_fails by blast+
      ultimately show False using IH [of sys p k' y] a by simp
    next
      case (Inr bs)
      with a c read_takes [of k "p_rd p" "p_wr p" _ bs k']
      have e: "bs = []" "queue k' (p_rd p) = []" "pipe_at k' = pipe_at k" by auto
      with step a c s Inr have "f sys p k' = Some y" by (simp add: shrunk_def)
      with IH [of sys p k' y] a e show False by simp
    qed
  qed
  then show ?thesis using assms by (cases "Pipe_clear sys p k") auto
qed

lemma Pipe_write_pipe_law:
  assumes p: "pipe_ok pipe_at queue p k" and q: "pipe_ok pipe_at queue q k" and ne: "p_rd p \<noteq> p_rd q"
    and sz: "p_size p + p_size q < SIZE_MOD"
  shows "\<exists>rv q' p' k'. Pipe_write_pipe sys q n mode p k = (rv, q', p', k') \<and>
    pipe_ok pipe_at queue p' k' \<and> pipe_ok pipe_at queue q' k' \<and>
    queue k' (p_rd p) = queue k (p_rd p) @ take (nat rv) (queue k (p_rd q)) \<and>
    queue k' (p_rd q) = (if mode = MOVE then drop (nat rv) (queue k (p_rd q)) else queue k (p_rd q))"
proof -
  have at: "pipe_at k (p_rd p) (p_wr p)" "pipe_at k (p_rd q) (p_wr q)" "p_size q = length (queue k (p_rd q))"
    "p_size p = length (queue k (p_rd p))" "p_size q < SIZE_MOD" "p_size p < SIZE_MOD"
    using p q by (simp_all add: pipe_ok_def)
  have wr: "p_wr p \<noteq> p_wr q" using pipe_ends [OF at(1,2)] ne by simp
  have un: "pipe_at k r (p_wr p) \<longleftrightarrow> r = p_rd p" for r using pipe_ends [of k r "p_wr p"] at(1) by auto
  show ?thesis
  proof (cases mode)
    case MOVE
    obtain r k' where c: "sys_splice sys (p_rd q) (p_wr p) (p_size q) k = (r, k')" by fastforce
    show ?thesis
    proof (cases r)
      case (Inl e)
      then show ?thesis using MOVE c splice_fails [of "p_rd q" "p_wr p" "p_size q" k e k'] p q
        by (auto simp: Pipe_write_pipe_def pipe_ok_def)
    next
      case (Inr m)
      note S = splice_out [OF at(2) wr c [unfolded Inr]]
      have "p_size (grown (int m) p) = p_size p + m" "p_size (shrunk (int m) q) = p_size q - m"
        using S sz at by (simp_all add: grown_size shrunk_size)
      then show ?thesis using MOVE c Inr S sz at ne by (auto simp: Pipe_write_pipe_def pipe_ok_def un)
    qed
  next
    case COPY
    obtain r k' where c: "sys_tee sys (p_rd q) (p_wr p) n k = (r, k')" by fastforce
    show ?thesis
    proof (cases r)
      case (Inl e)
      then show ?thesis using COPY c tee_fails [of "p_rd q" "p_wr p" n k e k'] p q
        by (auto simp: Pipe_write_pipe_def pipe_ok_def)
    next
      case (Inr m)
      note S = tee_copies [OF at(2,1) ne [symmetric] c [unfolded Inr]]
      have "p_size (grown (int m) p) = p_size p + m" using S sz at by (simp add: grown_size)
      then show ?thesis using COPY c Inr S sz at ne by (auto simp: Pipe_write_pipe_def pipe_ok_def)
    qed
  qed
qed

lemma Pipe_write_fd_law:
  assumes p: "pipe_ok pipe_at queue p k" and fd: "\<forall>w. \<not> pipe_at k fd w" and sz: "p_size p + n < SIZE_MOD"
  shows "\<exists>rv p' k' bs. Pipe_write_fd sys fd n p k = (rv, p', k') \<and> pipe_ok pipe_at queue p' k' \<and>
    length bs = nat rv \<and> queue k' (p_rd p) = queue k (p_rd p) @ bs"
proof -
  have at: "pipe_at k (p_rd p) (p_wr p)" "p_size p = length (queue k (p_rd p))" "p_size p < SIZE_MOD"
    using p by (simp_all add: pipe_ok_def)
  obtain r k' where c: "sys_splice sys fd (p_wr p) n k = (r, k')" by fastforce
  show ?thesis
  proof (cases r)
    case (Inl e)
    then show ?thesis using c splice_fails [of fd "p_wr p" n k e k'] p
      by (auto simp: Pipe_write_fd_def pipe_ok_def)
  next
    case (Inr m)
    from splice_in [OF at(1) fd c [unfolded Inr]] obtain bs where
      S: "m \<le> n" "pipe_at k' = pipe_at k" "length bs = m" "queue k' = (queue k)(p_rd p := queue k (p_rd p) @ bs)"
      by auto
    have "p_size (grown (int m) p) = p_size p + m" using S sz by (simp add: grown_size)
    then show ?thesis using c Inr S sz at
      by (intro exI [of _ "int m"] exI [of _ "grown (int m) p"] exI [of _ k'] exI [of _ bs])
        (auto simp: Pipe_write_fd_def pipe_ok_def)
  qed
qed

lemma Pipe_read_fd_law:
  assumes p: "pipe_ok pipe_at queue p k" and fd: "fd \<noteq> p_wr p"
  shows "\<exists>rv p' k'. Pipe_read_fd sys fd n p k = (rv, p', k') \<and> pipe_ok pipe_at queue p' k' \<and> rv \<le> int n \<and>
    queue k' (p_rd p) = drop (nat rv) (queue k (p_rd p)) \<and>
    sent k' fd = sent k fd @ take (nat rv) (queue k (p_rd p))"
proof -
  have at: "pipe_at k (p_rd p) (p_wr p)" "p_size p = length (queue k (p_rd p))" "p_size p < SIZE_MOD"
    using p by (simp_all add: pipe_ok_def)
  obtain r k' where c: "sys_splice sys (p_rd p) fd n k = (r, k')" by fastforce
  show ?thesis
  proof (cases r)
    case (Inl e)
    then show ?thesis using c splice_fails [of "p_rd p" fd n k e k'] p
      by (auto simp: Pipe_read_fd_def pipe_ok_def)
  next
    case (Inr m)
    note S = splice_out [OF at(1) fd c [unfolded Inr]]
    have "p_size (shrunk (int m) p) = p_size p - m" using S at by (simp add: shrunk_size)
    then show ?thesis using c Inr S at by (auto simp: Pipe_read_fd_def pipe_ok_def)
  qed
qed

lemma Pipe_read_char_law:
  assumes p: "pipe_ok pipe_at queue p k"
  shows "\<exists>rv p' k'. Pipe_read_char sys p k = (rv, p', k') \<and> pipe_ok pipe_at queue p' k' \<and>
    (case queue k (p_rd p) of [] \<Rightarrow> rv = - 1 \<and> k' = k
     | c # cs \<Rightarrow> rv = schar c \<and> queue k' (p_rd p) = cs)"
proof (cases "queue k (p_rd p)")
  case Nil
  then show ?thesis using p by (auto simp: Pipe_read_char_def pipe_ok_def)
next
  case (Cons c cs)
  have at: "pipe_at k (p_rd p) (p_wr p)" "p_size p = Suc (length cs)" "p_size p < SIZE_MOD"
    using p Cons by (simp_all add: pipe_ok_def)
  obtain bs k' where r: "sys_read sys (p_rd p) 1 k = (Inr bs, k')" "bs \<noteq> []"
    using read_delivers [OF at(1), of 1] Cons by auto
  note R = read_takes [OF at(1) r(1)]
  obtain b t where bt: "bs = b # t" using r(2) by (cases bs) auto
  then have "t = []" using R by simp
  then have bs: "bs = [c]" "queue k' (p_rd p) = cs" using R Cons bt by simp_all
  have "Pipe_read_char sys p k = (schar c, p\<lparr>p_size := length cs\<rparr>, k')"
    using r(1) at bs(1) by (simp add: Pipe_read_char_def shrunk_def)
  moreover have "pipe_ok pipe_at queue (p\<lparr>p_size := length cs\<rparr>) k'"
    using R at bs(2) by (simp add: pipe_ok_def)
  ultimately show ?thesis using bs(2) Cons by simp
qed

lemma pipe_fifo_law:
  assumes "pipe_ok pipe_at queue p (snd w)" "heap_ok (fst w)" "readable (fst w) dst n" "n < 9223372036854775808" "0 < n"
    "p_size p + length (written ops) < SIZE_MOD" "reads_fit n ops"
  shows "\<exists>acc got p' w'. run_ops (Pipe_write sys) (Pipe_read sys) fst dst ops p w = Inr (acc, got, p', w') \<and>
    pipe_ok pipe_at queue p' (snd w') \<and> queue (snd w) (p_rd p) @ acc = got @ queue (snd w') (p_rd p')"
  using pq.fifo [OF assms(1-5) _ assms(6,7)] by auto

end

section \<open>Properties\<close>

text \<open>
  C5. A \<^verbatim>\<open>Pipe\<close> is a first-in first-out queue: over any sequence of \<^verbatim>\<open>write\<close> and \<^verbatim>\<open>read\<close>, the bytes held before
  followed by the accepted ones are the delivered ones followed by those still held, and the
  count stays the number of bytes in the kernel's pipe, for every kernel that behaves as
  documented.
\<close>

theorem pipe_fifo:
  assumes "posix_pipes sys pipe_at queue sent" "pipe_ok pipe_at queue p (snd w)" "heap_ok (fst w)"
    "readable (fst w) dst n" "n < 9223372036854775808" "0 < n"
    "p_size p + length (written ops) < SIZE_MOD" "reads_fit n ops"
  shows "\<exists>acc got p' w'. run_ops (Pipe_write sys) (Pipe_read sys) fst dst ops p w = Inr (acc, got, p', w') \<and>
    pipe_ok pipe_at queue p' (snd w') \<and> queue (snd w) (p_rd p) @ acc = got @ queue (snd w') (p_rd p')"
  using posix_pipes.pipe_fifo_law [OF assms] .

theorem pipe_fifo_witness:
  "\<exists>acc got p' w'. run_ops (Pipe_write queue_sys) (Pipe_read queue_sys) fst (Addr 0 0) [SWrite ''cd'', SRead 3, SWrite ''e'', SRead 2]
      \<lparr>p_rd = 3, p_wr = 4, p_size = 2\<rparr> (one_block ''....'', two_pipes ''ab'' []) = Inr (acc, got, p', w') \<and>
     ''ab'' @ acc = got @ q_queue (snd w') (p_rd p')"
  using pipe_fifo [OF queue_kernel.posix_pipes_axioms, of "\<lparr>p_rd = 3, p_wr = 4, p_size = 2\<rparr>"
      "(one_block ''....'', two_pipes ''ab'' [])" "Addr 0 0" 4 "[SWrite ''cd'', SRead 3, SWrite ''e'', SRead 2]"]
  by (auto simp: pipe_ok_def one_block_def heap_ok_def readable_def)

text \<open>
  C30. Writing one pipe into another hands over the oldest bytes in order, removing them from the source when
  moving and leaving them there when copying, and keeps both counts right.
\<close>

theorem pipe_transfer:
  assumes "posix_pipes sys pipe_at queue sent" "pipe_ok pipe_at queue p k" "pipe_ok pipe_at queue q k"
    "p_rd p \<noteq> p_rd q" "p_size p + p_size q < SIZE_MOD"
  shows "\<exists>rv q' p' k'. Pipe_write_pipe sys q n mode p k = (rv, q', p', k') \<and>
    pipe_ok pipe_at queue p' k' \<and> pipe_ok pipe_at queue q' k' \<and>
    queue k' (p_rd p) = queue k (p_rd p) @ take (nat rv) (queue k (p_rd q)) \<and>
    queue k' (p_rd q) = (if mode = MOVE then drop (nat rv) (queue k (p_rd q)) else queue k (p_rd q))"
  using posix_pipes.Pipe_write_pipe_law [OF assms] .

theorem pipe_transfer_witness:
  "\<exists>rv q' p' k'. Pipe_write_pipe queue_sys \<lparr>p_rd = 5, p_wr = 6, p_size = 3\<rparr> 2 MOVE \<lparr>p_rd = 3, p_wr = 4, p_size = 1\<rparr>
       (two_pipes ''a'' ''bcd'') = (rv, q', p', k') \<and> q_queue k' 3 = ''a'' @ take (nat rv) ''bcd''"
  using pipe_transfer [OF queue_kernel.posix_pipes_axioms, of "\<lparr>p_rd = 3, p_wr = 4, p_size = 1\<rparr>"
      "two_pipes ''a'' ''bcd''" "\<lparr>p_rd = 5, p_wr = 6, p_size = 3\<rparr>" 2 MOVE]
  by (auto simp: pipe_ok_def)

text \<open>
  C19. \<^verbatim>\<open>clear()\<close> terminates on a pipe whose count is right: it empties the kernel's pipe and sets the count to zero.
\<close>

theorem pipe_clear_terminates:
  assumes "posix_pipes sys pipe_at queue sent" "pipe_ok pipe_at queue p k"
  shows "\<exists>k'. Pipe_clear sys p k = Some (p\<lparr>p_size := 0\<rparr>, k') \<and> queue k' (p_rd p) = [] \<and>
    (\<forall>r. r \<noteq> p_rd p \<longrightarrow> queue k' r = queue k r)"
  using posix_pipes.Pipe_clear_law [OF assms] by (auto simp: taken_def)

theorem pipe_clear_terminates_witness:
  "\<exists>k'. Pipe_clear queue_sys \<lparr>p_rd = 3, p_wr = 4, p_size = 2\<rparr> (two_pipes ''ab'' ''x'') =
       Some (\<lparr>p_rd = 3, p_wr = 4, p_size = 0\<rparr>, k') \<and> q_queue k' 5 = ''x''"
  using pipe_clear_terminates [OF queue_kernel.posix_pipes_axioms, of "\<lparr>p_rd = 3, p_wr = 4, p_size = 2\<rparr>" "two_pipes ''ab'' ''x''"]
  by (auto simp: pipe_ok_def)

text \<open>
  C18. \<^verbatim>\<open>read(Buffer&, size_t)\<close> returns and appends the oldest bytes of the pipe to the buffer, in order, for every
  answer of the allocator and every short read of the kernel. It does not take them off the
  count: once it has drained the pipe, \<^verbatim>\<open>clear()\<close> does not return.
\<close>

theorem pipe_read_buffer_count:
  assumes P: "posix_pipes sys pipe_at queue sent" "pipe_ok pipe_at queue p k"
    and b: "buffer_ok h b" "heap_ok h" "b_size b + n < 1125899906842624"
  shows "\<exists>rv b' h' k' bs. Pipe_read_buffer sys n b p (h, k) = Some (Inr (rv, b', p, h', k')) \<and>
    buffer_ok h' b' \<and> frame (owns b) h h' \<and> view h' b' = view h b @ bs \<and>
    queue k (p_rd p) = bs @ queue k' (p_rd p) \<and> (rv = int (length bs) \<or> bs = [] \<and> rv = - 1) \<and>
    (bs \<noteq> [] \<and> queue k' (p_rd p) = [] \<longrightarrow> Pipe_clear sys p k' = None)"
proof -
  have at: "pipe_at k (p_rd p) (p_wr p)" "p_size p = length (queue k (p_rd p))" using P(2) by (simp_all add: pipe_ok_def)
  obtain rv b' h' k' bs where 1: "Pipe_read_loop sys (p_rd p) n 0 b (h, k) = Some (Inr (rv, b', h', k'))"
    "appended buffer_ok h b h' b' bs" "taken pipe_at queue (p_rd p) bs k k'"
    "rv = int (length bs) \<or> bs = [] \<and> rv = - 1"
    using posix_pipes.Pipe_read_loop_law [OF P(1) at(1) b, of 0] by auto
  have "Pipe_clear sys p k' = None" if "bs \<noteq> []" "queue k' (p_rd p) = []"
    using posix_pipes.Pipe_clear_stuck [OF P(1), of k' p] that 1(3) at by (auto simp: taken_def)
  then show ?thesis using 1 by (auto simp: Pipe_read_buffer_def appended_def taken_def)
qed

theorem pipe_read_buffer_count_witness:
  "\<exists>rv b' h' k' bs. Pipe_read_buffer queue_sys 9 empty_mbuf \<lparr>p_rd = 3, p_wr = 4, p_size = 2\<rparr> (one_block [], two_pipes ''ab'' []) =
       Some (Inr (rv, b', \<lparr>p_rd = 3, p_wr = 4, p_size = 2\<rparr>, h', k')) \<and> view h' b' = bs \<and> ''ab'' = bs @ q_queue k' 3"
  using pipe_read_buffer_count [OF queue_kernel.posix_pipes_axioms, of "\<lparr>p_rd = 3, p_wr = 4, p_size = 2\<rparr>"
      "two_pipes ''ab'' []" "one_block []" empty_mbuf 9]
  by (auto simp: pipe_ok_def one_block_def heap_ok_def)

text \<open>
  The transfers between a pipe and a descriptor keep the count right: \<^verbatim>\<open>write(fd)\<close> appends what the kernel
  took from the descriptor, \<^verbatim>\<open>read(fd)\<close> sends the oldest bytes to it in order, and \<^verbatim>\<open>read()\<close> delivers the
  oldest byte, as a signed number, or -1 when the pipe is empty.
\<close>

theorem pipe_fd_transfers:
  assumes "posix_pipes sys pipe_at queue sent" "pipe_ok pipe_at queue p k"
    "\<forall>w. \<not> pipe_at k fd w" "fd \<noteq> p_wr p" "p_size p + n < SIZE_MOD"
  shows "(\<exists>rv p' k' bs. Pipe_write_fd sys fd n p k = (rv, p', k') \<and> pipe_ok pipe_at queue p' k' \<and>
      length bs = nat rv \<and> queue k' (p_rd p) = queue k (p_rd p) @ bs) \<and>
    (\<exists>rv p' k'. Pipe_read_fd sys fd n p k = (rv, p', k') \<and> pipe_ok pipe_at queue p' k' \<and>
      queue k' (p_rd p) = drop (nat rv) (queue k (p_rd p)) \<and>
      sent k' fd = sent k fd @ take (nat rv) (queue k (p_rd p))) \<and>
    (\<exists>rv p' k'. Pipe_read_char sys p k = (rv, p', k') \<and> pipe_ok pipe_at queue p' k' \<and>
      (case queue k (p_rd p) of [] \<Rightarrow> rv = - 1 \<and> k' = k | c # cs \<Rightarrow> rv = schar c \<and> queue k' (p_rd p) = cs))"
  using posix_pipes.Pipe_write_fd_law [OF assms(1,2,3,5)] posix_pipes.Pipe_read_fd_law [OF assms(1,2,4), of n]
    posix_pipes.Pipe_read_char_law [OF assms(1,2)]
  by blast

theorem pipe_fd_transfers_witness:
  "\<exists>rv p' k'. Pipe_read_fd queue_sys 9 5 \<lparr>p_rd = 3, p_wr = 4, p_size = 2\<rparr> (two_pipes ''ab'' []) = (rv, p', k') \<and>
     k_sent k' 9 = take (nat rv) ''ab''"
  using pipe_fd_transfers [OF queue_kernel.posix_pipes_axioms, of "\<lparr>p_rd = 3, p_wr = 4, p_size = 2\<rparr>" "two_pipes ''ab'' []" 9 5]
  by (auto simp: pipe_ok_def)

end
