(* ===== verification/Net_Kernel.thy ===== *)
theory Net_Kernel
  imports Complex_Main Kernel Buffer_Base
begin

text \<open>
  The system calls of the socket classes and of \<^verbatim>\<open>sd-daemon\<close>, and the watchers of libev. Both are parameters:
  \<open>sys\<close> is a record of functions on an arbitrary state of kernel and process, \<open>ev\<close> a record of functions on
  arbitrary watchers. What the code relies on are the locales \<open>fd_table\<close>, \<open>process_env\<close> and \<open>ev_watchers\<close>;
  a small process (\<open>demo_net\<close>) and a watcher that keeps its settings (\<open>demo_ev\<close>) interpret them. The functions
  of the C library that the sources call on strings (\<^verbatim>\<open>strtok_r\<close>, \<^verbatim>\<open>atoi\<close>, \<^verbatim>\<open>strtoul\<close>) are defined here.
\<close>

unbundle bit_operations_syntax

section \<open>System calls\<close>

datatype file_kind = FifoFile | SockFile | OtherFile

record stat_info =
  st_kind :: file_kind
  st_dev :: nat
  st_ino :: nat

text \<open>
  A call returns \<open>Inl errno\<close> or its result. Descriptor flags and file status flags are 32-bit words. A socket
  address is its bytes.
\<close>

record 'k netops =
  sc_getenv :: "string \<Rightarrow> 'k \<Rightarrow> string option"
  sc_unsetenv :: "string \<Rightarrow> 'k \<Rightarrow> 'k"
  sc_getpid :: "'k \<Rightarrow> int"
  sc_getfd :: "int \<Rightarrow> 'k \<Rightarrow> nat + 32 word"
  sc_setfd :: "int \<Rightarrow> 32 word \<Rightarrow> 'k \<Rightarrow> (nat + unit) \<times> 'k"
  sc_getfl :: "int \<Rightarrow> 'k \<Rightarrow> nat + 32 word"
  sc_setfl :: "int \<Rightarrow> 32 word \<Rightarrow> 'k \<Rightarrow> (nat + unit) \<times> 'k"
  sc_fstat :: "int \<Rightarrow> 'k \<Rightarrow> nat + stat_info"
  sc_stat :: "string \<Rightarrow> 'k \<Rightarrow> nat + stat_info"
  sc_lstat :: "string \<Rightarrow> 'k \<Rightarrow> nat + stat_info"
  sc_getsockopt :: "int \<Rightarrow> int \<Rightarrow> int \<Rightarrow> 'k \<Rightarrow> nat + int \<times> nat"
  sc_setsockopt :: "int \<Rightarrow> int \<Rightarrow> int \<Rightarrow> int \<Rightarrow> 'k \<Rightarrow> (nat + unit) \<times> 'k"
  sc_getsockname :: "int \<Rightarrow> 'k \<Rightarrow> nat + char list"
  sc_mq_getattr :: "int \<Rightarrow> 'k \<Rightarrow> nat + unit"
  sc_socket :: "int \<Rightarrow> 32 word \<Rightarrow> int \<Rightarrow> 'k \<Rightarrow> (nat + int) \<times> 'k"
  sc_bind :: "int \<Rightarrow> char list \<Rightarrow> 'k \<Rightarrow> (nat + unit) \<times> 'k"
  sc_listen :: "int \<Rightarrow> int \<Rightarrow> 'k \<Rightarrow> (nat + unit) \<times> 'k"
  sc_accept4 :: "int \<Rightarrow> 32 word \<Rightarrow> 'k \<Rightarrow> (nat + int) \<times> 'k"
  sc_accept :: "int \<Rightarrow> 'k \<Rightarrow> (nat + int) \<times> 'k"
  sc_connect :: "int \<Rightarrow> char list \<Rightarrow> 'k \<Rightarrow> (nat + unit) \<times> 'k"
  sc_sendmsg :: "int \<Rightarrow> char list \<Rightarrow> char list \<Rightarrow> 'k \<Rightarrow> (nat + nat) \<times> 'k"
  sc_close :: "int \<Rightarrow> 'k \<Rightarrow> 'k"
  sc_unlink :: "string \<Rightarrow> 'k \<Rightarrow> 'k"
  sc_chmod :: "string \<Rightarrow> nat \<Rightarrow> 'k \<Rightarrow> (nat + unit) \<times> 'k"

definition EINVAL :: nat where "EINVAL = 22"
definition FD_CLOEXEC :: "32 word" where "FD_CLOEXEC = 1"
definition O_NONBLOCK :: "32 word" where "O_NONBLOCK = 2048"
definition O_CLOEXEC :: "32 word" where "O_CLOEXEC = 524288"
definition AF_UNIX :: int where "AF_UNIX = 1"
definition AF_INET :: int where "AF_INET = 2"
definition AF_INET6 :: int where "AF_INET6 = 10"
definition SOCK_STREAM :: int where "SOCK_STREAM = 1"
definition SOL_SOCKET :: int where "SOL_SOCKET = 1"
definition SO_TYPE :: int where "SO_TYPE = 3"
definition SO_ERROR :: int where "SO_ERROR = 4"
definition SO_ACCEPTCONN :: int where "SO_ACCEPTCONN = 30"

lemmas net_consts = EINVAL_def FD_CLOEXEC_def O_NONBLOCK_def O_CLOEXEC_def AF_UNIX_def AF_INET_def AF_INET6_def
  SOCK_STREAM_def SOL_SOCKET_def SO_TYPE_def SO_ERROR_def SO_ACCEPTCONN_def

text \<open>The value of \<^verbatim>\<open>fcntl(fd, F_GETFL)\<close> or \<^verbatim>\<open>fcntl(fd, F_GETFD)\<close> as an \<^verbatim>\<open>int\<close>: all bits are set on failure.\<close>

fun flags_of :: "nat + 32 word \<Rightarrow> 32 word" where
  "flags_of (Inl e) = - 1"
| "flags_of (Inr f) = f"

text \<open>\<^verbatim>\<open>fcntl(fd, F_SETFL, fcntl(fd, F_GETFL) | flags) < 0\<close> and the same for the descriptor flags: \<open>None\<close> is success.\<close>

definition add_fl :: "'k netops \<Rightarrow> int \<Rightarrow> 32 word \<Rightarrow> 'k \<Rightarrow> nat option \<times> 'k" where
  "add_fl sys fd f k =
     (case sc_setfl sys fd (flags_of (sc_getfl sys fd k) OR f) k of
        (Inl e, k') \<Rightarrow> (Some e, k') | (Inr _, k') \<Rightarrow> (None, k'))"

definition add_fd :: "'k netops \<Rightarrow> int \<Rightarrow> 32 word \<Rightarrow> 'k \<Rightarrow> nat option \<times> 'k" where
  "add_fd sys fd f k =
     (case sc_setfd sys fd (flags_of (sc_getfd sys fd k) OR f) k of
        (Inl e, k') \<Rightarrow> (Some e, k') | (Inr _, k') \<Rightarrow> (None, k'))"

section \<open>Strings of the C library\<close>

text \<open>
  \<^verbatim>\<open>strtok_r\<close>: skips delimiters, and gives the token and what follows the delimiter that ends it. \<open>None\<close> is the
  null pointer.
\<close>

definition strtok :: "char \<Rightarrow> string \<Rightarrow> (string \<times> string) option" where
  "strtok d s =
     (let s' = dropWhile (\<lambda>c. c = d) s in
      if s' = [] then None else Some (takeWhile (\<lambda>c. c \<noteq> d) s', drop 1 (dropWhile (\<lambda>c. c \<noteq> d) s')))"

text \<open>Conversion of digits, by accumulation.\<close>

fun digits_val :: "nat \<Rightarrow> string \<Rightarrow> nat" where
  "digits_val a [] = a"
| "digits_val a (c # cs) = (if isdigit c then digits_val (a * 10 + (of_char c - 48)) cs else a)"

definition int_range :: "int \<Rightarrow> int res" where
  "int_range i = (if - 2147483648 \<le> i \<and> i < 2147483648 then Inr i else Inl SignedOverflow)"

text \<open>\<^verbatim>\<open>atoi\<close>; a null pointer is a fault, and so is a value that is no \<^verbatim>\<open>int\<close>.\<close>

definition atoi :: "string option \<Rightarrow> int res" where
  "atoi s =
     (case s of
        None \<Rightarrow> Inl NullDeref
      | Some cs \<Rightarrow>
          (case dropWhile isspace cs of
             [] \<Rightarrow> Inr 0
           | c # r \<Rightarrow>
               if c = CHR ''-'' then int_range (- int (digits_val 0 r))
               else if c = CHR ''+'' then int_range (int (digits_val 0 r))
               else int_range (int (digits_val 0 (c # r)))))"

text \<open>
  \<^verbatim>\<open>strtoul(s, &p, 10)\<close>: the error number (0 or \<^verbatim>\<open>ERANGE\<close>), the value, and the string at \<^verbatim>\<open>p\<close>. A minus sign negates
  the value modulo the size of an \<^verbatim>\<open>unsigned long\<close>; without digits nothing is consumed.
\<close>

definition strtoul :: "string \<Rightarrow> nat \<times> nat \<times> string" where
  "strtoul s =
     (let t = dropWhile isspace s;
          neg = (t \<noteq> [] \<and> hd t = CHR ''-'');
          ds = (if t \<noteq> [] \<and> (hd t = CHR ''-'' \<or> hd t = CHR ''+'') then tl t else t);
          v = digits_val 0 ds in
      if ds = [] \<or> \<not> isdigit (hd ds) then (0, 0, s)
      else if SIZE_MOD \<le> v then (34, npos, dropWhile isdigit ds)
      else (0, if neg then sz_sub 0 v else v, dropWhile isdigit ds))"

text \<open>Conversion of an \<^verbatim>\<open>unsigned long\<close> to a 32-bit signed integer.\<close>

definition to_int32 :: "nat \<Rightarrow> int" where
  "to_int32 l = (let m = int (l mod 4294967296) in if m < 2147483648 then m else m - 4294967296)"

text \<open>A 16-bit number in network byte order and in host byte order.\<close>

definition be16 :: "int \<Rightarrow> char list" where
  "be16 i = [char_of (nat (i div 256 mod 256)), char_of (nat (i mod 256))]"

definition le16 :: "int \<Rightarrow> char list" where
  "le16 i = [char_of (nat (i mod 256)), char_of (nat (i div 256 mod 256))]"

text \<open>Printed numbers are read back.\<close>

lemma schar_isdigit: "48 \<le> schar c \<Longrightarrow> schar c \<le> 57 \<Longrightarrow> isdigit c"
proof -
  assume a: "48 \<le> schar c" "schar c \<le> 57"
  have "(of_char c :: nat) \<in> {0..<256}" unfolding range_nat_of_char [symmetric] by simp
  then have n: "(of_char c :: nat) < 256" by simp
  then have "schar c = int (of_char c :: nat) \<or> schar c < 0" by (auto simp: schar_def Let_def simp del: of_nat_of_char)
  with a have "48 \<le> (of_char c :: nat)" "(of_char c :: nat) \<le> 57" by linarith+
  then show ?thesis by (simp add: isdigit_def)
qed

lemma show_nat_isdigit: "\<forall>c \<in> set (show_nat n). isdigit c"
  using show_nat_digits [of n] schar_isdigit by blast

lemma isdigit_not_space: "isdigit c \<Longrightarrow> \<not> isspace c"
  by (auto simp: isdigit_def isspace_def Let_def)

lemma digits_val_append:
  "\<forall>c \<in> set ds. isdigit c \<Longrightarrow> digits_val a (ds @ e) = digits_val (digits_val a ds) e"
  by (induction ds arbitrary: a) auto

lemma digits_val_digit_char: "d < 10 \<Longrightarrow> digits_val a [digit_char d] = a * 10 + d"
proof -
  assume d: "d < 10"
  then have "isdigit (digit_char d)" using schar_digit_char [of d] by (intro schar_isdigit) simp_all
  moreover have "(of_char (digit_char d) :: nat) = 48 + d" using d by (simp add: digit_char_def)
  ultimately show ?thesis by simp
qed

lemma digits_val_show_nat: "digits_val 0 (show_nat n) = n"
proof (induction n rule: show_nat.induct)
  case (1 n)
  show ?case
  proof (cases "n < 10")
    case True
    then show ?thesis by (simp add: show_nat.simps [of n] digits_val_digit_char del: digits_val.simps)
  next
    case False
    then show ?thesis using 1
      by (simp add: show_nat.simps [of n] digits_val_append [OF show_nat_isdigit] digits_val_digit_char del: digits_val.simps)
  qed
qed

lemma show_nat_Cons: "\<exists>c cs. show_nat n = c # cs \<and> isdigit c \<and> c \<noteq> CHR ''-'' \<and> c \<noteq> CHR ''+''"
  using show_nat_hd [of n] show_nat_isdigit [of n] by (cases "show_nat n") auto

lemma atoi_show_int: "- 2147483648 \<le> i \<Longrightarrow> i < 2147483648 \<Longrightarrow> atoi (Some (show_int i)) = Inr i"
proof (cases "i < 0")
  case True
  assume "- 2147483648 \<le> i" "i < 2147483648"
  with True show ?thesis by (simp add: atoi_def show_int_def isspace_def digits_val_show_nat int_range_def)
next
  case False
  assume i: "- 2147483648 \<le> i" "i < 2147483648"
  obtain c cs where "show_nat (nat i) = c # cs" "isdigit c" "c \<noteq> CHR ''-''" "c \<noteq> CHR ''+''"
    using show_nat_Cons [of "nat i"] by blast
  with False i show ?thesis using digits_val_show_nat [of "nat i"] isdigit_not_space [of c]
    by (simp add: atoi_def show_int_def int_range_def del: digits_val.simps)
qed

lemma strtoul_show_nat: "n < SIZE_MOD \<Longrightarrow> strtoul (show_nat n) = (0, n, [])"
proof -
  assume n: "n < SIZE_MOD"
  obtain c cs where c: "show_nat n = c # cs" "isdigit c" "c \<noteq> CHR ''-''" "c \<noteq> CHR ''+''"
    using show_nat_Cons [of n] by blast
  have "dropWhile isdigit (c # cs) = []" using show_nat_isdigit [of n] c(1) by auto
  then show ?thesis using n c digits_val_show_nat [of n] isdigit_not_space [of c]
    by (simp add: strtoul_def Let_def del: digits_val.simps)
qed

section \<open>What the code relies on\<close>

text \<open>\<open>fds k\<close>: the open descriptors of the process.\<close>

locale fd_table =
  fixes sys :: "'k netops" and fds :: "'k \<Rightarrow> int set"
  assumes socket_new: "sc_socket sys d t p k = (Inr fd, k') \<Longrightarrow> 0 \<le> fd \<and> fd \<notin> fds k \<and> fds k' = insert fd (fds k)"
    and socket_fails: "sc_socket sys d t p k = (Inl e, k') \<Longrightarrow> fds k' = fds k"
    and accept4_new: "sc_accept4 sys s f k = (Inr fd, k') \<Longrightarrow> 0 \<le> fd \<and> fd \<notin> fds k \<and> fds k' = insert fd (fds k)"
    and accept4_fails: "sc_accept4 sys s f k = (Inl e, k') \<Longrightarrow> fds k' = fds k"
    and accept_new: "sc_accept sys s k = (Inr fd, k') \<Longrightarrow> 0 \<le> fd \<and> fd \<notin> fds k \<and> fds k' = insert fd (fds k)"
    and accept_fails: "sc_accept sys s k = (Inl e, k') \<Longrightarrow> fds k' = fds k"
    and close_removes: "fds (sc_close sys fd k) = fds k - {fd}"
    and setfd_keeps: "fds (snd (sc_setfd sys fd f k)) = fds k"
    and setfl_keeps: "fds (snd (sc_setfl sys fd f k)) = fds k"
    and setsockopt_keeps: "fds (snd (sc_setsockopt sys fd l opt v k)) = fds k"
    and bind_keeps: "fds (snd (sc_bind sys fd a k)) = fds k"
    and listen_keeps: "fds (snd (sc_listen sys fd b k)) = fds k"
    and connect_keeps: "fds (snd (sc_connect sys fd a k)) = fds k"
    and chmod_keeps: "fds (snd (sc_chmod sys path mode k)) = fds k"
    and unlink_keeps: "fds (sc_unlink sys path k) = fds k"
    and sendmsg_keeps: "fds (snd (sc_sendmsg sys fd a msg k)) = fds k"
    and unsetenv_keeps: "fds (sc_unsetenv sys x k) = fds k"
begin

lemma add_fl_keeps: "fds (snd (add_fl sys fd f k)) = fds k"
proof -
  obtain r k' where "sc_setfl sys fd (flags_of (sc_getfl sys fd k) OR f) k = (r, k')" by fastforce
  then show ?thesis using setfl_keeps [of fd "flags_of (sc_getfl sys fd k) OR f" k] by (cases r) (simp_all add: add_fl_def)
qed

lemma add_fd_keeps: "fds (snd (add_fd sys fd f k)) = fds k"
proof -
  obtain r k' where "sc_setfd sys fd (flags_of (sc_getfd sys fd k) OR f) k = (r, k')" by fastforce
  then show ?thesis using setfd_keeps [of fd "flags_of (sc_getfd sys fd k) OR f" k] by (cases r) (simp_all add: add_fd_def)
qed

end

locale process_env =
  fixes sys :: "'k netops"
  assumes getenv_unset: "sc_getenv sys x (sc_unsetenv sys y k) = (if x = y then None else sc_getenv sys x k)"
    and getfd_unset: "sc_getfd sys fd (sc_unsetenv sys y k) = sc_getfd sys fd k"
    and setfd_sets: "sc_setfd sys fd f k = (Inr u, k') \<Longrightarrow>
      (\<forall>x. sc_getfd sys x k' = (if x = fd then Inr f else sc_getfd sys x k)) \<and> (\<forall>x. sc_getenv sys x k' = sc_getenv sys x k)"
    and setfd_fails: "sc_setfd sys fd f k = (Inl e, k') \<Longrightarrow>
      (\<forall>x. sc_getfd sys x k' = sc_getfd sys x k) \<and> (\<forall>x. sc_getenv sys x k' = sc_getenv sys x k)"
    and errno_pos: "sc_getfd sys fd k = Inl e \<Longrightarrow> 0 < e" "sc_setfd sys fd f k = (Inl e, k') \<Longrightarrow> 0 < e"

text \<open>
  Watchers: \<^verbatim>\<open>ev::io\<close> with \<^verbatim>\<open>set\<close>, \<^verbatim>\<open>start\<close>, \<^verbatim>\<open>start(fd, events)\<close> (which sets and starts), \<^verbatim>\<open>stop\<close> and \<^verbatim>\<open>is_active\<close>, and
  \<^verbatim>\<open>ev::timer\<close> with \<^verbatim>\<open>start(after)\<close>, \<^verbatim>\<open>stop\<close> and \<^verbatim>\<open>is_active\<close>. Times are in seconds.
\<close>

record ('i, 't) evops =
  io_set :: "int \<Rightarrow> int \<Rightarrow> 'i \<Rightarrow> 'i"
  io_start :: "'i \<Rightarrow> 'i"
  io_stop :: "'i \<Rightarrow> 'i"
  io_active :: "'i \<Rightarrow> bool"
  io_watches :: "'i \<Rightarrow> int \<times> int"
  timer_start :: "rat \<Rightarrow> 't \<Rightarrow> 't"
  timer_stop :: "'t \<Rightarrow> 't"
  timer_active :: "'t \<Rightarrow> bool"

locale ev_watchers =
  fixes ev :: "('i, 't) evops"
  assumes io_set_active: "io_active ev (io_set ev fd m i) = io_active ev i"
    and io_set_watches: "io_watches ev (io_set ev fd m i) = (fd, m)"
    and io_start_active: "io_active ev (io_start ev i)"
    and io_start_watches: "io_watches ev (io_start ev i) = io_watches ev i"
    and io_stop_active: "\<not> io_active ev (io_stop ev i)"
    and timer_start_active: "timer_active ev (timer_start ev sec tm)"
    and timer_stop_active: "\<not> timer_active ev (timer_stop ev tm)"

record demo_watcher =
  w_target :: "int \<times> int"
  w_active :: bool

definition demo_ev :: "(demo_watcher, demo_watcher) evops" where
  "demo_ev = \<lparr>io_set = (\<lambda>fd m w. w\<lparr>w_target := (fd, m)\<rparr>), io_start = (\<lambda>w. w\<lparr>w_active := True\<rparr>),
     io_stop = (\<lambda>w. w\<lparr>w_active := False\<rparr>), io_active = w_active, io_watches = w_target,
     timer_start = (\<lambda>s w. w\<lparr>w_active := True\<rparr>), timer_stop = (\<lambda>w. w\<lparr>w_active := False\<rparr>),
     timer_active = w_active\<rparr>"

interpretation kept_ev: ev_watchers demo_ev
  by unfold_locales (simp_all add: demo_ev_def)

section \<open>A small process\<close>

text \<open>
  Open descriptors are below \<open>d_next\<close> and each has flags, a kind, a socket type, a name and whether it listens.
  Connecting fails unless something was bound before; there are no files with names.
\<close>

record fdesc =
  fd_flags :: "32 word"
  fl_flags :: "32 word"
  fd_kind :: file_kind
  fd_type :: int
  fd_listens :: bool
  fd_name :: "char list"

record dstate =
  d_env :: "string \<Rightarrow> string option"
  d_pid :: int
  d_fds :: "int \<Rightarrow> fdesc option"
  d_next :: nat

definition d_open :: "dstate \<Rightarrow> int set" where
  "d_open k = {fd. 0 \<le> fd \<and> fd < int (d_next k) \<and> d_fds k fd \<noteq> None}"

definition d_at :: "int \<Rightarrow> dstate \<Rightarrow> nat + fdesc" where
  "d_at fd k = (if 0 \<le> fd \<and> fd < int (d_next k) then (case d_fds k fd of None \<Rightarrow> Inl 9 | Some d \<Rightarrow> Inr d) else Inl 9)"

definition d_upd :: "int \<Rightarrow> (fdesc \<Rightarrow> fdesc) \<Rightarrow> dstate \<Rightarrow> (nat + unit) \<times> dstate" where
  "d_upd fd f k = (case d_at fd k of Inl e \<Rightarrow> (Inl e, k) | Inr d \<Rightarrow> (Inr (), k\<lparr>d_fds := (d_fds k)(fd \<mapsto> f d)\<rparr>))"

definition d_new :: "fdesc \<Rightarrow> dstate \<Rightarrow> (nat + int) \<times> dstate" where
  "d_new d k =
     (if d_next k < 1024 then (Inr (int (d_next k)), k\<lparr>d_fds := (d_fds k)(int (d_next k) \<mapsto> d), d_next := d_next k + 1\<rparr>)
      else (Inl 24, k))"

definition new_socket :: "int \<Rightarrow> 32 word \<Rightarrow> fdesc" where
  "new_socket family f = \<lparr>fd_flags = 0, fl_flags = f, fd_kind = SockFile, fd_type = SOCK_STREAM, fd_listens = False,
     fd_name = le16 family\<rparr>"

definition demo_net :: "dstate netops" where
  "demo_net = \<lparr>
     sc_getenv = (\<lambda>x k. d_env k x),
     sc_unsetenv = (\<lambda>x k. k\<lparr>d_env := (d_env k)(x := None)\<rparr>),
     sc_getpid = d_pid,
     sc_getfd = (\<lambda>fd k. case d_at fd k of Inl e \<Rightarrow> Inl e | Inr d \<Rightarrow> Inr (fd_flags d)),
     sc_setfd = (\<lambda>fd f. d_upd fd (fd_flags_update (\<lambda>_. f))),
     sc_getfl = (\<lambda>fd k. case d_at fd k of Inl e \<Rightarrow> Inl e | Inr d \<Rightarrow> Inr (fl_flags d)),
     sc_setfl = (\<lambda>fd f. d_upd fd (fl_flags_update (\<lambda>_. f))),
     sc_fstat = (\<lambda>fd k. case d_at fd k of Inl e \<Rightarrow> Inl e | Inr d \<Rightarrow> Inr \<lparr>st_kind = fd_kind d, st_dev = 0, st_ino = nat fd\<rparr>),
     sc_stat = (\<lambda>_ _. Inl 2),
     sc_lstat = (\<lambda>_ _. Inl 2),
     sc_getsockopt = (\<lambda>fd level opt k. case d_at fd k of Inl e \<Rightarrow> Inl e
        | Inr d \<Rightarrow> Inr (if opt = SO_TYPE then fd_type d else if opt = SO_ACCEPTCONN then of_bool (fd_listens d) else 0, 4)),
     sc_setsockopt = (\<lambda>fd level opt v. d_upd fd id),
     sc_getsockname = (\<lambda>fd k. case d_at fd k of Inl e \<Rightarrow> Inl e | Inr d \<Rightarrow> Inr (fd_name d)),
     sc_mq_getattr = (\<lambda>_ _. Inl 9),
     sc_socket = (\<lambda>family type _. d_new (new_socket family (type AND NOT 1))),
     sc_bind = (\<lambda>fd a. d_upd fd (fd_name_update (\<lambda>_. a))),
     sc_listen = (\<lambda>fd _. d_upd fd (fd_listens_update (\<lambda>_. True))),
     sc_accept4 = (\<lambda>fd f k. case d_at fd k of Inl e \<Rightarrow> (Inl e, k)
        | Inr d \<Rightarrow> if fd_listens d then d_new (new_socket 0 f) k else (Inl EINVAL, k)),
     sc_accept = (\<lambda>fd k. case d_at fd k of Inl e \<Rightarrow> (Inl e, k)
        | Inr d \<Rightarrow> if fd_listens d then d_new (new_socket 0 0) k else (Inl EINVAL, k)),
     sc_connect = (\<lambda>fd a k. (Inl 115, k)),
     sc_sendmsg = (\<lambda>fd a msg k. (Inr (length msg), k)),
     sc_close = (\<lambda>fd k. k\<lparr>d_fds := (d_fds k)(fd := None)\<rparr>),
     sc_unlink = (\<lambda>_ k. k),
     sc_chmod = (\<lambda>_ _ k. (Inr (), k))\<rparr>"

lemma d_open_upd [simp]: "d_open (snd (d_upd fd f k)) = d_open k"
  by (auto simp: d_upd_def d_at_def d_open_def split: sum.splits if_splits option.splits)

lemma d_new_law: "d_new d k = (Inr fd, k') \<Longrightarrow> 0 \<le> fd \<and> fd \<notin> d_open k \<and> d_open k' = insert fd (d_open k)"
  by (auto simp: d_new_def d_open_def split: if_splits)

lemma d_new_fails: "d_new d k = (Inl e, k') \<Longrightarrow> k' = k"
  by (auto simp: d_new_def split: if_splits)

interpretation demo_fds: fd_table demo_net d_open
proof
  fix s f fd and k k' :: dstate
  show "sc_accept4 demo_net s f k = (Inr fd, k') \<Longrightarrow> 0 \<le> fd \<and> fd \<notin> d_open k \<and> d_open k' = insert fd (d_open k)"
    by (auto simp: demo_net_def dest: d_new_law split: sum.splits if_splits)
  show "sc_accept demo_net s k = (Inr fd, k') \<Longrightarrow> 0 \<le> fd \<and> fd \<notin> d_open k \<and> d_open k' = insert fd (d_open k)"
    by (auto simp: demo_net_def dest: d_new_law split: sum.splits if_splits)
next
  fix s f e and k k' :: dstate
  show "sc_accept4 demo_net s f k = (Inl e, k') \<Longrightarrow> d_open k' = d_open k"
    by (auto simp: demo_net_def dest: d_new_fails split: sum.splits if_splits)
  show "sc_accept demo_net s k = (Inl e, k') \<Longrightarrow> d_open k' = d_open k"
    by (auto simp: demo_net_def dest: d_new_fails split: sum.splits if_splits)
next
  fix d t p fd and k k' :: dstate
  show "sc_socket demo_net d t p k = (Inr fd, k') \<Longrightarrow> 0 \<le> fd \<and> fd \<notin> d_open k \<and> d_open k' = insert fd (d_open k)"
    by (intro d_new_law) (simp add: demo_net_def)
next
  fix d t p e and k k' :: dstate
  show "sc_socket demo_net d t p k = (Inl e, k') \<Longrightarrow> d_open k' = d_open k"
    by (auto simp: demo_net_def dest: d_new_fails)
next
  fix fd and k :: dstate
  show "d_open (sc_close demo_net fd k) = d_open k - {fd}" by (auto simp: demo_net_def d_open_def)
next
  fix x and k :: dstate
  show "d_open (sc_unsetenv demo_net x k) = d_open k" by (simp add: demo_net_def d_open_def)
qed (simp_all add: demo_net_def)

interpretation demo_proc: process_env demo_net
proof
  fix fd f u and k k' :: dstate
  assume "sc_setfd demo_net fd f k = (Inr u, k')"
  then show "(\<forall>x. sc_getfd demo_net x k' = (if x = fd then Inr f else sc_getfd demo_net x k)) \<and>
      (\<forall>x. sc_getenv demo_net x k' = sc_getenv demo_net x k)"
    by (auto simp: demo_net_def d_upd_def d_at_def split: sum.splits if_splits option.splits)
next
  fix fd e and k :: dstate assume "sc_getfd demo_net fd k = Inl e"
  then show "0 < e" by (auto simp: demo_net_def d_at_def split: sum.splits if_splits option.splits)
qed (auto simp: demo_net_def d_upd_def d_at_def split: sum.splits if_splits option.splits)

end
