(* ===== verification/IP_Address.thy ===== *)
theory IP_Address
  imports Net_Kernel
begin

text \<open>
  The classes \<^verbatim>\<open>IPAddress\<close> (\<^verbatim>\<open>include/xio/IPAddress.h\<close>, \<^verbatim>\<open>lib/IPAddress.cpp\<close>) and \<^verbatim>\<open>SocketSpec\<close>
  (\<^verbatim>\<open>include/xio/SocketSpec.h\<close>). The text functions of the C library are parameters: \<open>pton family text\<close> is the result
  of \<^verbatim>\<open>inet_pton\<close> and the bytes it writes, \<open>ntop family bytes\<close> the text of \<^verbatim>\<open>inet_ntop\<close>, if it has one.
\<close>

section \<open>IPAddress\<close>

record ipaddr =
  ip_family :: int
  ip_buf :: "char list"

type_synonym pton = "int \<Rightarrow> string \<Rightarrow> int \<times> char list"
type_synonym ntop = "int \<Rightarrow> char list \<Rightarrow> string option"

definition ip_new :: ipaddr where
  "ip_new = \<lparr>ip_family = 0, ip_buf = replicate 16 NUL\<rparr>"

definition ip_set :: "pton \<Rightarrow> string \<Rightarrow> int \<Rightarrow> ipaddr \<Rightarrow> bool \<times> ipaddr" where
  "ip_set pton text family ip =
     (let ip1 = ip\<lparr>ip_family := family\<rparr> in
      case pton family text of (rv, bs) \<Rightarrow>
        if rv \<le> 0 then (False, ip1) else (True, ip1\<lparr>ip_buf := overwrite (ip_buf ip) 0 bs\<rparr>))"

text \<open>The constructor does not initialise the bytes: they are \<open>garbage\<close> before.\<close>

definition ip_text :: "pton \<Rightarrow> char list \<Rightarrow> string \<Rightarrow> int \<Rightarrow> ipaddr" where
  "ip_text pton garbage text family =
     (let ip = \<lparr>ip_family = 0, ip_buf = garbage\<rparr> in
      if family \<noteq> 0 then snd (ip_set pton text family ip)
      else if CHR '':'' \<in> set text then snd (ip_set pton text AF_INET6 ip)
      else snd (ip_set pton text AF_INET ip))"

definition ip_assign_text :: "pton \<Rightarrow> string \<Rightarrow> ipaddr \<Rightarrow> ipaddr" where
  "ip_assign_text pton text ip =
     (if CHR '':'' \<in> set text then snd (ip_set pton text AF_INET6 ip) else snd (ip_set pton text AF_INET ip))"

definition ip_size :: "ipaddr \<Rightarrow> nat" where
  "ip_size ip = (if ip_family ip = AF_INET then 4 else 16)"

definition ip_assign :: "ipaddr \<Rightarrow> ipaddr \<Rightarrow> ipaddr" where
  "ip_assign v ip = \<lparr>ip_family = ip_family v, ip_buf = overwrite (ip_buf ip) 0 (take (ip_size v) (ip_buf v))\<rparr>"

definition ip_not :: "ipaddr \<Rightarrow> bool" where
  "ip_not ip \<longleftrightarrow> ip_family ip = 0"

definition ip_bool :: "ipaddr \<Rightarrow> bool" where
  "ip_bool ip \<longleftrightarrow> ip_family ip = AF_INET \<or> ip_family ip = AF_INET6"

text \<open>Where \<^verbatim>\<open>inet_ntop\<close> fails, the text is an array that was never written.\<close>

definition ip_str :: "ntop \<Rightarrow> ipaddr \<Rightarrow> string res" where
  "ip_str ntop ip =
     (case ntop (ip_family ip) (take (ip_size ip) (ip_buf ip)) of None \<Rightarrow> Inl Uninitialised | Some t \<Rightarrow> Inr t)"

text \<open>\<open>same\<close>: the two references are to one object.\<close>

definition ip_eq :: "bool \<Rightarrow> ipaddr \<Rightarrow> ipaddr \<Rightarrow> bool" where
  "ip_eq same a b =
     (if same then True
      else if ip_family a \<noteq> ip_family b then False
      else if ip_family a = AF_INET \<or> ip_family a = AF_INET6
      then take (ip_size a) (ip_buf a) = take (ip_size a) (ip_buf b)
      else False)"

definition ip_neq :: "bool \<Rightarrow> ipaddr \<Rightarrow> ipaddr \<Rightarrow> bool" where
  "ip_neq same a b \<longleftrightarrow> \<not> ip_eq same a b"

definition ip_hash :: "ipaddr \<Rightarrow> nat" where
  "ip_hash ip = (of_char (ip_buf ip ! 0) :: nat) + 256 * of_char (ip_buf ip ! 1) + 65536 * of_char (ip_buf ip ! 2) +
     16777216 * of_char (ip_buf ip ! 3)"

section \<open>SocketSpec\<close>

datatype spec_type = SpecUnknown | SpecLocal | SpecInet

record socket_spec =
  sp_type :: spec_type
  sp_ipaddr :: ipaddr
  sp_local :: string
  sp_port :: int
  sp_backlog :: int
  sp_multiAcceptCount :: nat
  sp_reusePort :: bool

definition spec_inet :: "ipaddr \<Rightarrow> int \<Rightarrow> int \<Rightarrow> nat \<Rightarrow> bool \<Rightarrow> socket_spec" where
  "spec_inet ip port backlog maccept reuse =
     \<lparr>sp_type = SpecInet, sp_ipaddr = ip, sp_local = [], sp_port = port, sp_backlog = backlog,
      sp_multiAcceptCount = maccept, sp_reusePort = reuse\<rparr>"

definition spec_isValid :: "socket_spec \<Rightarrow> bool" where
  "spec_isValid s \<longleftrightarrow> sp_type s \<noteq> SpecUnknown"

definition spec_isLocal :: "socket_spec \<Rightarrow> bool" where
  "spec_isLocal s \<longleftrightarrow> sp_type s = SpecLocal"

definition spec_isInet :: "socket_spec \<Rightarrow> bool" where
  "spec_isInet s \<longleftrightarrow> sp_type s = SpecInet"

definition spec_eq :: "bool \<Rightarrow> socket_spec \<Rightarrow> socket_spec \<Rightarrow> bool" where
  "spec_eq same a b =
     (if sp_type a \<noteq> sp_type b then False
      else case sp_type a of
        SpecLocal \<Rightarrow> sp_local a = sp_local b
      | SpecInet \<Rightarrow> sp_port a = sp_port b \<and> ip_eq same (sp_ipaddr a) (sp_ipaddr b)
      | SpecUnknown \<Rightarrow> False)"

definition spec_neq :: "bool \<Rightarrow> socket_spec \<Rightarrow> socket_spec \<Rightarrow> bool" where
  "spec_neq same a b \<longleftrightarrow> \<not> spec_eq same a b"

text \<open>\<open>hash_int\<close> and \<open>hash_string\<close> are the standard library's hash functions.\<close>

definition spec_hash :: "(nat \<Rightarrow> nat) \<Rightarrow> (string \<Rightarrow> nat) \<Rightarrow> socket_spec \<Rightarrow> nat" where
  "spec_hash hash_int hash_string s =
     (case sp_type s of
        SpecInet \<Rightarrow> hash_int 2 XOR ip_hash (sp_ipaddr s)
      | SpecLocal \<Rightarrow> hash_int 1 XOR hash_string (sp_local s)
      | SpecUnknown \<Rightarrow> 0)"

section \<open>Laws\<close>

definition ip_ok :: "ipaddr \<Rightarrow> bool" where
  "ip_ok ip \<longleftrightarrow> length (ip_buf ip) = 16"

lemma ip_new_ok [simp]: "ip_ok ip_new"
  by (simp add: ip_ok_def ip_new_def)

lemma ip_size_le: "ip_size ip \<le> 16"
  by (simp add: ip_size_def)

lemma ip_assign_ok: "ip_ok ip \<Longrightarrow> ip_ok v \<Longrightarrow> ip_ok (ip_assign v ip)"
  using ip_size_le [of v] by (simp add: ip_ok_def ip_assign_def overwrite_def)

lemma ip_assign_eq: "ip_ok ip \<Longrightarrow> ip_ok v \<Longrightarrow> ip_bool v \<Longrightarrow> ip_eq False (ip_assign v ip) v"
  using ip_size_le [of v]
  by (auto simp: ip_eq_def ip_assign_def ip_ok_def ip_bool_def overwrite_def ip_size_def)

lemma ip_eq_nth: "ip_eq same a b \<Longrightarrow> (same \<Longrightarrow> a = b) \<Longrightarrow> i < 4 \<Longrightarrow> ip_buf a ! i = ip_buf b ! i"
  by (cases same) (auto simp: ip_eq_def ip_size_def split: if_splits dest!: arg_cong [where f = "\<lambda>l. l ! i"])

lemma ip_eq_hash: "ip_eq same a b \<Longrightarrow> (same \<Longrightarrow> a = b) \<Longrightarrow> ip_hash a = ip_hash b"
  using ip_eq_nth [of same a b] by (simp add: ip_hash_def)

lemma ip_set_ok:
  assumes "ip_ok ip" "\<And>f t. 0 < fst (pton f t) \<Longrightarrow> length (snd (pton f t)) \<le> 16"
  shows "ip_ok (snd (ip_set pton text family ip))"
  using assms(1) assms(2) [of family "text"] by (auto simp: ip_set_def ip_ok_def Let_def split: prod.split)

definition ip_typed :: "ipaddr \<Rightarrow> bool" where
  "ip_typed ip \<longleftrightarrow> ip_family ip \<in> {0, AF_INET, AF_INET6} \<and> length (ip_buf ip) = 16"

section \<open>Properties\<close>

text \<open>
  Equality of socket specifications is symmetric and transitive, it is reflexive exactly on the valid
  ones (for an Internet specification: with a set address), it ignores what is not part of the
  endpoint, and specifications that are equal have the same hash, as the unordered containers require.
\<close>

theorem spec_equality:
  fixes a b c :: socket_spec
  shows "(spec_eq False a a \<longleftrightarrow> spec_isLocal a \<or> spec_isInet a \<and> ip_bool (sp_ipaddr a)) \<and>
    (spec_eq False a b \<longrightarrow> spec_eq False b a) \<and>
    (spec_eq False a b \<longrightarrow> spec_eq False b c \<longrightarrow> spec_eq False a c) \<and>
    (spec_eq False a b \<longrightarrow> spec_hash hi hs a = spec_hash hi hs b) \<and>
    spec_eq False (a\<lparr>sp_backlog := x, sp_reusePort := y, sp_multiAcceptCount := z\<rparr>) b = spec_eq False a b"
proof -
  have h: "ip_hash i = ip_hash j" if "ip_eq False i j" for i j using ip_eq_hash [OF that] by simp
  show ?thesis
    using h [of "sp_ipaddr a" "sp_ipaddr b"]
    by (cases "sp_type a"; cases "sp_type b"; cases "sp_type c")
      (auto simp: spec_eq_def spec_hash_def spec_isLocal_def spec_isInet_def ip_eq_def ip_size_def ip_bool_def)
qed

theorem spec_equality_witness:
  "spec_eq False (spec_inet ip_new 80 0 1 False) (spec_inet ip_new 80 5 1 True) = False \<and>
   spec_hash id length (spec_inet (ip_new\<lparr>ip_family := 2\<rparr>) 80 0 1 False) = spec_hash id length (spec_inet (ip_new\<lparr>ip_family := 2\<rparr>) 80 5 1 True)"
proof -
  let ?a = "spec_inet (ip_new\<lparr>ip_family := 2\<rparr>) 80 0 1 False" and ?b = "spec_inet (ip_new\<lparr>ip_family := 2\<rparr>) 80 5 1 True"
  have "spec_eq False ?a ?b" by (simp add: spec_eq_def spec_inet_def ip_eq_def AF_INET_def)
  then have "spec_hash id length ?a = spec_hash id length ?b" using spec_equality [of ?a ?b] by simp
  then show ?thesis by (simp add: spec_eq_def spec_inet_def ip_eq_def ip_new_def AF_INET_def AF_INET6_def)
qed


definition some_pton :: pton where
  "some_pton f t = (if f = AF_INET \<and> t = ''0.0.0.0'' then (1, replicate 4 NUL) else (0, []))"


end
