(* ===== verification/Time_Span.thy ===== *)
theory Time_Span
  imports Complex_Main Xio_Prelude "HOL-Library.Signed_Division"
begin

text \<open>
  The classes \<^verbatim>\<open>TimeSpan\<close> (\<^verbatim>\<open>include/xio/TimeSpan.h\<close>) and \<^verbatim>\<open>DateTime\<close> (\<^verbatim>\<open>include/xio/DateTime.h\<close>, \<^verbatim>\<open>lib/DateTime.cpp\<close>). A
  time stamp is a \<^verbatim>\<open>double\<close>; it is modelled by a rational number, which is exact for whole seconds below \<open>2 ^ 53\<close>.
  Conversions to integers truncate; a value outside the range of an \<^verbatim>\<open>int\<close> is undefined behaviour.
\<close>

section \<open>TimeSpan\<close>

definition trunc :: "rat \<Rightarrow> int" where
  "trunc x = (if 0 \<le> x then \<lfloor>x\<rfloor> else \<lceil>x\<rceil>)"

definition c_int :: "rat \<Rightarrow> int res" where
  "c_int x = (if - 2147483648 \<le> trunc x \<and> trunc x < 2147483648 then Inr (trunc x) else Inl SignedOverflow)"

definition ts_days :: "rat \<Rightarrow> int res" where
  "ts_days v = bnd (c_int v) (\<lambda>i. Inr (i sdiv 86400))"

definition ts_hours :: "rat \<Rightarrow> int res" where
  "ts_hours v = bnd (c_int v) (\<lambda>i. Inr (i sdiv 3600 - 24 * (i sdiv 86400)))"

definition ts_minutes :: "rat \<Rightarrow> int res" where
  "ts_minutes v = bnd (c_int v) (\<lambda>i. Inr (i sdiv 60 - 60 * (i sdiv 3600)))"

definition ts_seconds :: "rat \<Rightarrow> int res" where
  "ts_seconds v = bnd (c_int v) (\<lambda>i. Inr (i smod 60))"

text \<open>The factories take a \<^verbatim>\<open>size_t\<close>; the products wrap, and the milliseconds are reduced to an \<^verbatim>\<open>unsigned\<close> first.\<close>

definition ts_fromDays :: "nat \<Rightarrow> rat" where
  "ts_fromDays v = of_nat (86400 * v mod SIZE_MOD)"

definition ts_fromHours :: "nat \<Rightarrow> rat" where
  "ts_fromHours v = of_nat (3600 * v mod SIZE_MOD)"

definition ts_fromMinutes :: "nat \<Rightarrow> rat" where
  "ts_fromMinutes v = of_nat (60 * v mod SIZE_MOD)"

definition ts_fromSeconds :: "nat \<Rightarrow> rat" where
  "ts_fromSeconds v = of_nat v"

definition ts_fromMilliseconds :: "nat \<Rightarrow> rat" where
  "ts_fromMilliseconds v = of_nat (v div 1000) + of_nat (v mod 4294967296 mod 1000) / 1000"

definition ts_totalSeconds :: "rat \<Rightarrow> nat" where
  "ts_totalSeconds v = nat (trunc v)"

definition ts_totalMilliseconds :: "rat \<Rightarrow> nat" where
  "ts_totalMilliseconds v = nat (trunc (v * 1000))"

definition ts_not :: "rat \<Rightarrow> bool" where
  "ts_not v \<longleftrightarrow> v = 0"

definition ts_bool :: "rat \<Rightarrow> bool" where
  "ts_bool v \<longleftrightarrow> v \<noteq> 0"

definition ts_Zero :: rat where
  "ts_Zero = 0"

definition ts_add :: "rat \<Rightarrow> rat \<Rightarrow> rat" where
  "ts_add a b = a + b"

definition ts_sub :: "rat \<Rightarrow> rat \<Rightarrow> rat" where
  "ts_sub a b = a - b"

text \<open>Constructors and accessors, and the comparison operators.\<close>

definition TimeSpan_new :: rat where
  "TimeSpan_new = 0"

definition TimeSpan_of :: "rat \<Rightarrow> rat" where
  "TimeSpan_of v = v"

definition TimeSpan_size :: "nat \<Rightarrow> rat" where
  "TimeSpan_size v = of_nat v"

definition ts_value :: "rat \<Rightarrow> rat" where
  "ts_value ts = ts"

definition ts_eq :: "rat \<Rightarrow> rat \<Rightarrow> bool" where
  "ts_eq a b \<longleftrightarrow> ts_value a = ts_value b"

definition ts_neq :: "rat \<Rightarrow> rat \<Rightarrow> bool" where
  "ts_neq a b \<longleftrightarrow> ts_value a \<noteq> ts_value b"

definition ts_lt :: "rat \<Rightarrow> rat \<Rightarrow> bool" where
  "ts_lt a b \<longleftrightarrow> ts_value a < ts_value b"

definition ts_le :: "rat \<Rightarrow> rat \<Rightarrow> bool" where
  "ts_le a b \<longleftrightarrow> ts_value a \<le> ts_value b"

definition ts_gt :: "rat \<Rightarrow> rat \<Rightarrow> bool" where
  "ts_gt a b \<longleftrightarrow> ts_value a > ts_value b"

definition ts_ge :: "rat \<Rightarrow> rat \<Rightarrow> bool" where
  "ts_ge a b \<longleftrightarrow> ts_value a \<ge> ts_value b"

section \<open>DateTime\<close>

text \<open>\<open>now\<close> is what \<^verbatim>\<open>std::time\<close> returns.\<close>

definition DateTime_now :: "int \<Rightarrow> rat" where
  "DateTime_now now = of_int now"

definition DateTime_of :: "rat \<Rightarrow> rat" where
  "DateTime_of v = v"

text \<open>
  \<^verbatim>\<open>DateTime::mktime\<close>: \<open>strptime\<close> fills the fields it parses of a \<^verbatim>\<open>struct tm\<close> that was not initialised (\<open>tm\<close>), except for the flag that
  \<open>no_dst\<close> clears; \<open>c_mktime\<close> is \<^verbatim>\<open>::mktime\<close>, and \<open>timezone\<close> the variable of the C library.
\<close>

definition dt_mktime :: "(string \<Rightarrow> string \<Rightarrow> 'tm \<Rightarrow> 'tm option) \<Rightarrow> ('tm \<Rightarrow> int) \<Rightarrow> int \<Rightarrow> ('tm \<Rightarrow> 'tm) \<Rightarrow> 'tm \<Rightarrow> string \<Rightarrow> int" where
  "dt_mktime strptime c_mktime timezone no_dst tm v =
     (case strptime v ''%a, %d %b %Y %H:%M:%S GMT'' (no_dst tm) of None \<Rightarrow> 0 | Some tm' \<Rightarrow> c_mktime tm' - timezone)"

definition DateTime_text :: "(string \<Rightarrow> string \<Rightarrow> 'tm \<Rightarrow> 'tm option) \<Rightarrow> ('tm \<Rightarrow> int) \<Rightarrow> int \<Rightarrow> ('tm \<Rightarrow> 'tm) \<Rightarrow> 'tm \<Rightarrow> string \<Rightarrow> rat" where
  "DateTime_text strptime c_mktime timezone no_dst tm v = of_int (dt_mktime strptime c_mktime timezone no_dst tm v)"

definition dt_value :: "rat \<Rightarrow> rat" where
  "dt_value v = v"

definition dt_unixtime :: "rat \<Rightarrow> int" where
  "dt_unixtime v = trunc v"

definition dt_update :: "rat \<Rightarrow> rat \<Rightarrow> rat" where
  "dt_update v value = (if value \<noteq> v then v else value)"

definition dt_update_now :: "int \<Rightarrow> rat \<Rightarrow> rat" where
  "dt_update_now now value = dt_update (of_int now) value"

definition dt_assign :: "rat \<Rightarrow> rat \<Rightarrow> rat" where
  "dt_assign v value = dt_update v value"

definition dt_valid :: "rat \<Rightarrow> bool" where
  "dt_valid v \<longleftrightarrow> v \<noteq> 0"

text \<open>The difference of two \<^verbatim>\<open>time_t\<close> is returned as an \<^verbatim>\<open>int\<close>: its low 32 bits.\<close>

definition dt_compare :: "rat \<Rightarrow> rat \<Rightarrow> int" where
  "dt_compare a b = (dt_unixtime a - dt_unixtime b + 2147483648) mod 4294967296 - 2147483648"

definition dt_minus :: "rat \<Rightarrow> rat \<Rightarrow> rat" where
  "dt_minus a b = (let diff = a - b in if diff < 0 then - diff else diff)"

definition dt_add_span :: "rat \<Rightarrow> rat \<Rightarrow> rat" where
  "dt_add_span a b = a + b"

definition dt_sub_span :: "rat \<Rightarrow> rat \<Rightarrow> rat" where
  "dt_sub_span a b = a - b"

definition dt_eq :: "rat \<Rightarrow> rat \<Rightarrow> bool" where
  "dt_eq a b \<longleftrightarrow> dt_compare a b = 0"

definition dt_neq :: "rat \<Rightarrow> rat \<Rightarrow> bool" where
  "dt_neq a b \<longleftrightarrow> dt_compare a b \<noteq> 0"

definition dt_le :: "rat \<Rightarrow> rat \<Rightarrow> bool" where
  "dt_le a b \<longleftrightarrow> dt_compare a b \<le> 0"

definition dt_ge :: "rat \<Rightarrow> rat \<Rightarrow> bool" where
  "dt_ge a b \<longleftrightarrow> 0 \<le> dt_compare a b"

definition dt_lt :: "rat \<Rightarrow> rat \<Rightarrow> bool" where
  "dt_lt a b \<longleftrightarrow> dt_compare a b < 0"

definition dt_gt :: "rat \<Rightarrow> rat \<Rightarrow> bool" where
  "dt_gt a b \<longleftrightarrow> 0 < dt_compare a b"

section \<open>Properties\<close>

text \<open>
  A time span is ordered like its value, and adding and subtracting one moves a date by exactly it. A date that is parsed is the instant in
  universal time that the text names, wherever the process runs; text that is not a date gives the epoch, which counts as not valid.
\<close>

theorem http_date_utc:
  assumes "\<And>tm. c_mktime (tm :: 'tm) = timegm tm + timezone"
  shows "dt_mktime strptime c_mktime timezone no_dst tm v =
      (case strptime v ''%a, %d %b %Y %H:%M:%S GMT'' (no_dst tm) of None \<Rightarrow> 0 | Some tm' \<Rightarrow> timegm tm') \<and>
    (strptime v ''%a, %d %b %Y %H:%M:%S GMT'' (no_dst tm) = None \<longrightarrow> \<not> dt_valid (DateTime_text strptime c_mktime timezone no_dst tm v)) \<and>
    dt_minus (dt_add_span d ts) d = (if ts_ge ts ts_Zero then ts else - ts) \<and> dt_sub_span (dt_add_span d ts) ts = d"
  using assms
  by (auto simp: dt_mktime_def DateTime_text_def dt_valid_def dt_minus_def dt_add_span_def dt_sub_span_def ts_ge_def ts_Zero_def ts_value_def Let_def
      split: option.splits)

theorem http_date_utc_witness:
  "dt_mktime (\<lambda>v _ tm. if v = ''x'' then None else Some (length v)) (\<lambda>tm. int tm + 3600) 3600 id 0 ''abc'' = 3"
  using http_date_utc [of "\<lambda>tm. int tm + 3600" int 3600 "\<lambda>v _ tm. if v = ''x'' then None else Some (length v)" id 0 "''abc''"] by simp

lemma sdiv_nonneg: "0 \<le> i \<Longrightarrow> 0 < n \<Longrightarrow> i sdiv n = i div (n :: int)"
  by (cases "i = 0") (simp_all add: signed_divide_int_def)

lemma smod_nonneg: "0 \<le> i \<Longrightarrow> 0 < n \<Longrightarrow> i smod n = i mod (n :: int)"
  by (cases "i = 0") (simp_all add: signed_modulo_int_def)

lemma hms_split:
  fixes i :: int
  assumes "0 \<le> i"
  shows "0 \<le> i div 3600 - 24 * (i div 86400) \<and> i div 3600 - 24 * (i div 86400) < 24"
    "0 \<le> i div 60 - 60 * (i div 3600) \<and> i div 60 - 60 * (i div 3600) < 60"
    "i div 86400 * 86400 + (i div 3600 - 24 * (i div 86400)) * 3600 + (i div 60 - 60 * (i div 3600)) * 60 + i mod 60 = i"
proof -
  let ?x = "i div 60" let ?y = "?x div 60" let ?z = "?y div 24"
  have d: "i div 3600 = ?y" "i div 86400 = ?z"
    using zdiv_zmult2_eq [of 60 i 60] zdiv_zmult2_eq [of 24 i 3600] by simp_all
  have m: "?y - 24 * ?z = ?y mod 24" "?x - 60 * ?y = ?x mod 60" by (simp_all add: minus_mult_div_eq_mod)
  show "0 \<le> i div 3600 - 24 * (i div 86400) \<and> i div 3600 - 24 * (i div 86400) < 24"
    "0 \<le> i div 60 - 60 * (i div 3600) \<and> i div 60 - 60 * (i div 3600) < 60"
    unfolding d m by simp_all
  have "z * 86400 + (y - 24 * z) * 3600 + (x - 60 * y) * 60 + r = x * 60 + r" for x y z r :: int
    by (simp add: algebra_simps)
  then show "i div 86400 * 86400 + (i div 3600 - 24 * (i div 86400)) * 3600 + (i div 60 - 60 * (i div 3600)) * 60 + i mod 60 = i"
    unfolding d by (simp only: div_mult_mod_eq)
qed

text \<open>
  The parts of a time span of up to \<open>2 ^ 31\<close> seconds are in their ranges and add up to its whole seconds, and a
  span made from milliseconds has, in exact arithmetic, that many, if their number is below \<open>2 ^ 32\<close> (a \<^verbatim>\<open>double\<close> may lose
  the last one); from \<open>2 ^ 32\<close> on the truncation to \<^verbatim>\<open>unsigned\<close> can make it wrong.
\<close>

theorem timespan_parts:
  assumes "0 \<le> v" "v < 2147483648"
  shows "\<exists>d h m s. ts_days v = Inr d \<and> ts_hours v = Inr h \<and> ts_minutes v = Inr m \<and> ts_seconds v = Inr s \<and>
    0 \<le> d \<and> 0 \<le> h \<and> h < 24 \<and> 0 \<le> m \<and> m < 60 \<and> 0 \<le> s \<and> s < 60 \<and>
    int (ts_totalSeconds v) = d * 86400 + h * 3600 + m * 60 + s \<and>
    (n < 4294967296 \<longrightarrow> ts_totalMilliseconds (ts_fromMilliseconds n) = n) \<and>
    ts_totalMilliseconds (ts_fromMilliseconds 4294967296) = 4294967000"
proof -
  let ?i = "\<lfloor>v\<rfloor>"
  have i: "0 \<le> ?i" "?i < 2147483648" using assms by (simp_all add: floor_less_iff)
  then have c: "c_int v = Inr ?i" using assms by (simp add: c_int_def trunc_def)
  have d: "?i sdiv n = ?i div n" if "0 < n" for n using i(1) that by (rule sdiv_nonneg)
  have m: "?i smod 60 = ?i mod 60" using i(1) by (rule smod_nonneg) simp
  have ms: "ts_totalMilliseconds (ts_fromMilliseconds n) = n" if "n < 4294967296"
  proof -
    have "(of_nat n :: rat) = of_nat (n div 1000) * 1000 + of_nat (n mod 1000)"
      by (metis div_mult_mod_eq of_nat_add of_nat_mult of_nat_numeral)
    then have "(of_nat (n div 1000) + of_nat (n mod 1000) / 1000) * 1000 = (of_nat n :: rat)"
      by (simp add: ring_distribs)
    then show ?thesis using that by (simp add: ts_totalMilliseconds_def ts_fromMilliseconds_def trunc_def)
  qed
  have big: "ts_totalMilliseconds (ts_fromMilliseconds 4294967296) = 4294967000"
    by (simp add: ts_totalMilliseconds_def ts_fromMilliseconds_def trunc_def)
  have t: "int (ts_totalSeconds v) = ?i" using i assms by (simp add: ts_totalSeconds_def trunc_def)
  have "0 \<le> ?i div 86400" using i(1) pos_imp_zdiv_nonneg_iff [of 86400 ?i] by linarith
  then show ?thesis using hms_split [OF i(1)] i ms big
    unfolding t by (simp add: ts_days_def ts_hours_def ts_minutes_def ts_seconds_def c d m)
qed

theorem timespan_parts_witness:
  "\<exists>d h m s. ts_days 100000 = Inr d \<and> ts_hours 100000 = Inr h \<and> ts_minutes 100000 = Inr m \<and> ts_seconds 100000 = Inr s \<and>
    100000 = d * 86400 + h * 3600 + m * 60 + s"
proof -
  have "int (ts_totalSeconds 100000) = 100000" by (simp add: ts_totalSeconds_def trunc_def)
  then show ?thesis using timespan_parts [of 100000 0] by auto
qed

text \<open>
  The comparison operators of \<^verbatim>\<open>DateTime\<close> order by whole seconds if the two are less than \<open>2 ^ 31\<close> seconds apart;
  a distance of \<open>2 ^ 31\<close> to \<open>2 ^ 32\<close> seconds is truncated and the order is reversed.
\<close>

theorem datetime_compare_bounds:
  fixes a b :: rat
  defines "d \<equiv> dt_unixtime a - dt_unixtime b"
  shows "(- 2147483648 \<le> d \<and> d < 2147483648 \<longrightarrow>
      (dt_lt a b \<longleftrightarrow> dt_unixtime a < dt_unixtime b) \<and> (dt_le a b \<longleftrightarrow> dt_unixtime a \<le> dt_unixtime b) \<and>
      (dt_gt a b \<longleftrightarrow> dt_unixtime b < dt_unixtime a) \<and> (dt_ge a b \<longleftrightarrow> dt_unixtime b \<le> dt_unixtime a) \<and>
      (dt_eq a b \<longleftrightarrow> dt_unixtime a = dt_unixtime b) \<and> (dt_neq a b \<longleftrightarrow> dt_unixtime a \<noteq> dt_unixtime b)) \<and>
    (2147483648 \<le> d \<and> d < 4294967296 \<longrightarrow> dt_lt a b)"
proof -
  have small: "dt_compare a b = d" if "- 2147483648 \<le> d" "d < 2147483648"
    using that by (simp add: dt_compare_def d_def)
  have big: "dt_compare a b = d - 4294967296" if "2147483648 \<le> d" "d < 4294967296"
    using that mod_add_self2 [of "d - 2147483648" "4294967296"] by (simp add: dt_compare_def d_def add.commute)
  show ?thesis
    using small big by (auto simp: dt_lt_def dt_le_def dt_eq_def dt_gt_def dt_ge_def dt_neq_def d_def)
qed

theorem datetime_compare_bounds_witness:
  "dt_lt 3000000000 0 \<and> dt_lt 0 5"
proof -
  have "dt_unixtime 3000000000 = 3000000000" "dt_unixtime 0 = 0" "dt_unixtime 5 = 5" by (simp_all add: dt_unixtime_def trunc_def)
  then show ?thesis using datetime_compare_bounds [of 3000000000 0] datetime_compare_bounds [of 0 5] by simp
qed

end
