(* ===== verification/Client_Socket.thy ===== *)
theory Client_Socket
  imports Pipe_Stream IP_Address Time_Span
begin

text \<open>
  The classes \<^verbatim>\<open>Socket\<close> (\<^verbatim>\<open>include/xio/Socket.h\<close>, \<^verbatim>\<open>lib/Socket.cpp\<close>) and \<^verbatim>\<open>SocketDriver\<close> (\<^verbatim>\<open>lib/SocketDriver.cpp\<close>). A socket
  is a descriptor, a connection state, two watchers and a handler. A handler is a name; the operations
  that call it do so as their last action, so the call is a part of their result: \<open>Some (f, mode)\<close>. What the
  event loop and the client do with a socket is the relation \<open>socket_step\<close>.
\<close>

section \<open>State\<close>

datatype sock_state = Closed | Connecting | Handshake | Operational

text \<open>Events are bits: \<open>EV_READ\<close>, \<open>EV_WRITE\<close> and the three of the class.\<close>

definition EV_READ :: "32 word" where "EV_READ = 1"
definition EV_WRITE :: "32 word" where "EV_WRITE = 2"
definition TIMEOUT :: "32 word" where "TIMEOUT = 0x100"
definition HANDSHAKE :: "32 word" where "HANDSHAKE = 0x200"
definition CONNECTED :: "32 word" where "CONNECTED = 0x400"

type_synonym call = "nat \<times> 32 word"

record ('i, 't) socket =
  so_fd :: int
  so_state :: sock_state
  so_io :: 'i
  so_timeout :: rat
  so_timer :: 't
  so_handler :: "nat option"

definition Socket_new :: "'i \<Rightarrow> 't \<Rightarrow> ('i, 't) socket" where
  "Socket_new i t = \<lparr>so_fd = - 1, so_state = Closed, so_io = i, so_timeout = ts_Zero, so_timer = t, so_handler = None\<rparr>"

definition Socket_fd :: "'i \<Rightarrow> 't \<Rightarrow> int \<Rightarrow> sock_state \<Rightarrow> ('i, 't) socket" where
  "Socket_fd i t fd st = \<lparr>so_fd = fd, so_state = st, so_io = i, so_timeout = 0, so_timer = t, so_handler = None\<rparr>"

section \<open>Opening and closing\<close>

definition Socket_close :: "'k netops \<Rightarrow> ('i, 't) socket \<Rightarrow> 'k \<Rightarrow> ('i, 't) socket \<times> 'k" where
  "Socket_close sys s k = (if 0 \<le> so_fd s then (s\<lparr>so_state := Closed\<rparr>, sc_close sys (so_fd s) k) else (s, k))"

definition Socket_destroy :: "'k netops \<Rightarrow> ('i, 't) socket \<Rightarrow> 'k \<Rightarrow> 'k" where
  "Socket_destroy sys s k = snd (Socket_close sys s k)"

text \<open>The two \<^verbatim>\<open>open(const SocketSpec&)\<close> are not implemented in the code, nor are the options of the connection.\<close>

definition Socket_open_static :: "socket_spec \<Rightarrow> 32 word \<Rightarrow> ('i, 't) socket option" where
  "Socket_open_static spec flags = None"

definition tcpCork :: "('i, 't) socket \<Rightarrow> bool" where
  "tcpCork s \<longleftrightarrow> False"

definition setTcpCork :: "bool \<Rightarrow> ('i, 't) socket \<Rightarrow> ('i, 't) socket" where
  "setTcpCork enable s = s"

definition lingering :: "('i, 't) socket \<Rightarrow> rat" where
  "lingering s = ts_Zero"

definition setLingering :: "rat \<Rightarrow> ('i, 't) socket \<Rightarrow> ('i, 't) socket" where
  "setLingering t s = s"

definition Socket_open_spec :: "socket_spec \<Rightarrow> 32 word \<Rightarrow> ('i, 't) socket \<Rightarrow> bool \<times> ('i, 't) socket" where
  "Socket_open_spec spec flags s = (False, s)"

definition applyFlags :: "'k netops \<Rightarrow> int \<Rightarrow> 32 word \<Rightarrow> 'k \<Rightarrow> bool \<times> 'k" where
  "applyFlags sys fd flags k =
     (if flags \<noteq> 0 then (case add_fl sys fd flags k of (e, k') \<Rightarrow> (e = None, k')) else (True, k))"

text \<open>The address that is connected to, as the bytes of a \<^verbatim>\<open>sockaddr_in\<close> or \<^verbatim>\<open>sockaddr_in6\<close>.\<close>

definition inet_sockaddr :: "ipaddr \<Rightarrow> int \<Rightarrow> char list option" where
  "inet_sockaddr ip port =
     (if ip_family ip = AF_INET
      then Some (le16 AF_INET @ be16 port @ take (ip_size ip) (ip_buf ip) @ replicate 8 NUL)
      else if ip_family ip = AF_INET6
      then Some (le16 AF_INET6 @ be16 port @ replicate 4 NUL @ take (ip_size ip) (ip_buf ip) @ replicate 4 NUL)
      else None)"

definition without :: "32 word \<Rightarrow> 32 word \<Rightarrow> 32 word" where
  "without f m = f AND NOT m"

definition type_mask :: "32 word \<Rightarrow> 32 word" where
  "type_mask flags = (flags AND O_NONBLOCK) OR (flags AND O_CLOEXEC)"

definition Socket_open :: "'k netops \<Rightarrow> ipaddr \<Rightarrow> int \<Rightarrow> 32 word \<Rightarrow> ('i, 't) socket \<Rightarrow> 'k \<Rightarrow>
    sock_state \<times> ('i, 't) socket \<times> 'k" where
  "Socket_open sys ip port flags s k =
     (case sc_socket sys (ip_family ip) (of_int SOCK_STREAM OR type_mask flags) 6 k of
        (Inl e, k1) \<Rightarrow> (Closed, s\<lparr>so_fd := - 1\<rparr>, k1)
      | (Inr fd, k1) \<Rightarrow>
          let s1 = s\<lparr>so_fd := fd\<rparr> in
          (case applyFlags sys fd (without flags (O_NONBLOCK OR O_CLOEXEC)) k1 of
             (False, k2) \<Rightarrow> (Closed, s1, k2)
           | (True, k2) \<Rightarrow>
               (case inet_sockaddr ip port of
                  None \<Rightarrow> (Closed, s1\<lparr>so_fd := - 1\<rparr>, sc_close sys fd k2)
                | Some a \<Rightarrow>
                    (case sc_connect sys fd a k2 of
                       (Inr _, k3) \<Rightarrow> (Operational, s1\<lparr>so_state := Operational\<rparr>, k3)
                     | (Inl e, k3) \<Rightarrow>
                         if e = 115 then (Connecting, s1\<lparr>so_state := Connecting\<rparr>, k3)
                         else (Closed, s1\<lparr>so_fd := - 1, so_state := Closed\<rparr>, sc_close sys fd k3)))))"

section \<open>Watching\<close>

text \<open>\<^verbatim>\<open>io_.start(fd, mode)\<close> sets and starts the watcher.\<close>

definition io_begin :: "('i, 't) evops \<Rightarrow> int \<Rightarrow> 32 word \<Rightarrow> 'i \<Rightarrow> 'i" where
  "io_begin ev fd mode i = io_start ev (io_set ev fd (uint mode) i)"

definition Socket_on :: "('i, 't) evops \<Rightarrow> 32 word \<Rightarrow> rat \<Rightarrow> nat \<Rightarrow> ('i, 't) socket \<Rightarrow> ('i, 't) socket res" where
  "Socket_on ev mode timeout cb s =
     assertC (mode AND TIMEOUT = 0)
       (let m = (if mode AND CONNECTED \<noteq> 0 then without mode CONNECTED OR EV_WRITE else mode) in
        Inr (s\<lparr>so_handler := Some cb, so_timeout := timeout, so_timer := timer_start ev timeout (so_timer s),
               so_io := io_begin ev (so_fd s) m (so_io s)\<rparr>))"

definition Socket_watch :: "('i, 't) evops \<Rightarrow> 32 word \<Rightarrow> ('i, 't) socket \<Rightarrow> ('i, 't) socket" where
  "Socket_watch ev mode s =
     s\<lparr>so_timer := (if ts_bool (so_timeout s) then timer_start ev (so_timeout s) (so_timer s) else so_timer s),
       so_io := io_begin ev (so_fd s) mode (if io_active ev (so_io s) then io_stop ev (so_io s) else so_io s)\<rparr>"

definition Socket_watch_for :: "('i, 't) evops \<Rightarrow> 32 word \<Rightarrow> rat \<Rightarrow> ('i, 't) socket \<Rightarrow> ('i, 't) socket" where
  "Socket_watch_for ev mode timeout s =
     Socket_watch ev mode (if ts_bool timeout then s\<lparr>so_timeout := timeout\<rparr> else s)"

definition Socket_restart :: "('i, 't) evops \<Rightarrow> ('i, 't) socket \<Rightarrow> ('i, 't) socket" where
  "Socket_restart ev s =
     (if \<not> io_active ev (so_io s) then s
      else let t = (if timer_active ev (so_timer s) then timer_stop ev (so_timer s) else so_timer s) in
        s\<lparr>so_timer := (if ts_bool (so_timeout s) then timer_start ev (so_timeout s) t else t)\<rparr>)"

text \<open>\<^verbatim>\<open>std::move(handler_)\<close> on its own does nothing: the handler stays.\<close>

definition Socket_stop :: "('i, 't) evops \<Rightarrow> ('i, 't) socket \<Rightarrow> ('i, 't) socket" where
  "Socket_stop ev s = s\<lparr>so_timer := timer_stop ev (so_timer s), so_io := io_stop ev (so_io s)\<rparr>"

definition Socket_callback :: "32 word \<Rightarrow> ('i, 't) socket \<Rightarrow> call option" where
  "Socket_callback mode s = (case so_handler s of None \<Rightarrow> None | Some f \<Rightarrow> Some (f, mode))"

definition onConnectComplete :: "'k netops \<Rightarrow> ('i, 't) evops \<Rightarrow> ('i, 't) socket \<Rightarrow> 'k \<Rightarrow>
    call option \<times> ('i, 't) socket \<times> 'k" where
  "onConnectComplete sys ev s k =
     (let s1 = Socket_stop ev s in
      case (case sc_getsockopt sys (so_fd s1) SOL_SOCKET SO_ERROR k of
              Inr (val, _) \<Rightarrow> if val = 0 then (s1\<lparr>so_state := Operational\<rparr>, k) else Socket_close sys s1 k
            | Inl e \<Rightarrow> Socket_close sys s1 k) of
        (s2, k2) \<Rightarrow> (Socket_callback CONNECTED s2, s2, k2))"

text \<open>\<^verbatim>\<open>handler_(mode)\<close> without a test: calling an empty function is an error.\<close>

definition call_handler :: "32 word \<Rightarrow> ('i, 't) socket \<Rightarrow> call option res" where
  "call_handler mode s = (case so_handler s of None \<Rightarrow> Inl BadCall | Some f \<Rightarrow> Inr (Some (f, mode)))"

definition Socket_io :: "'k netops \<Rightarrow> ('i, 't) evops \<Rightarrow> 32 word \<Rightarrow> ('i, 't) socket \<Rightarrow> 'k \<Rightarrow>
    (call option \<times> ('i, 't) socket \<times> 'k) res" where
  "Socket_io sys ev revents s k =
     (let s1 = s\<lparr>so_timer := timer_stop ev (so_timer s)\<rparr> in
      if so_state s1 = Connecting then Inr (onConnectComplete sys ev s1 k)
      else if so_state s1 = Handshake then bnd (call_handler HANDSHAKE s1) (\<lambda>c. Inr (c, s1, k))
      else if so_handler s1 \<noteq> None then bnd (call_handler revents s1) (\<lambda>c. Inr (c, s1, k))
      else Inr (None, s1, k))"

definition Socket_timeout :: "('i, 't) evops \<Rightarrow> ('i, 't) socket \<Rightarrow> (call option \<times> ('i, 't) socket) res" where
  "Socket_timeout ev s =
     (let s1 = s\<lparr>so_timer := timer_stop ev (so_timer s), so_io := io_stop ev (so_io s)\<rparr> in
      bnd (call_handler TIMEOUT s1) (\<lambda>c. Inr (c, s1)))"

section \<open>Socket as a stream\<close>

text \<open>Five operations are not supported by the code.\<close>

definition Socket_size :: "('i, 't) socket \<Rightarrow> nat" where
  "Socket_size s = 0"

definition Socket_read_socket :: "('i, 't) socket \<Rightarrow> int" where
  "Socket_read_socket s = 0"

definition Socket_read_fd :: "('i, 't) socket \<Rightarrow> int" where
  "Socket_read_fd s = 0"

definition Socket_write_socket :: "('i, 't) socket \<Rightarrow> int" where
  "Socket_write_socket s = - 1"

text \<open>\<^verbatim>\<open>read(Buffer&, size_t)\<close>; the loop is, statement by statement, that of \<^verbatim>\<open>Pipe::read(Buffer&, size_t)\<close>.\<close>

definition Socket_read_buffer :: "'k sysops \<Rightarrow> nat \<Rightarrow> mbuf \<Rightarrow> ('i, 't) socket \<Rightarrow> heap \<times> 'k \<Rightarrow>
    (int \<times> mbuf \<times> heap \<times> 'k) res option" where
  "Socket_read_buffer io n b s w = Pipe_read_loop io (so_fd s) n 0 b w"

definition Socket_read :: "'k sysops \<Rightarrow> ptr \<Rightarrow> nat \<Rightarrow> ('i, 't) socket \<Rightarrow> heap \<times> 'k \<Rightarrow> (int \<times> heap \<times> 'k) res" where
  "Socket_read io dst n s w = read_into io (so_fd s) dst n w"

definition Socket_read_pipe :: "'k sysops \<Rightarrow> pipe \<Rightarrow> nat \<Rightarrow> ('i, 't) socket \<Rightarrow> 'k \<Rightarrow> int \<times> pipe \<times> 'k" where
  "Socket_read_pipe io p n s k = Pipe_write_socket io (so_fd s) n MOVE p k"

text \<open>The local character is initialised with -1, which is what the end of the stream leaves.\<close>

definition Socket_read_char :: "'k sysops \<Rightarrow> ('i, 't) socket \<Rightarrow> 'k \<Rightarrow> int \<times> 'k" where
  "Socket_read_char io s k =
     (case sys_read io (so_fd s) 1 k of
        (Inl e, k') \<Rightarrow> (- 1, k')
      | (Inr bs, k') \<Rightarrow> (case bs of [] \<Rightarrow> - 1 | c # _ \<Rightarrow> schar c, k'))"

definition Socket_write :: "'k sysops \<Rightarrow> source \<Rightarrow> nat \<Rightarrow> ('i, 't) socket \<Rightarrow> heap \<times> 'k \<Rightarrow> (int \<times> heap \<times> 'k) res" where
  "Socket_write io src n s w = write_from io (so_fd s) src n w"

text \<open>\<^verbatim>\<open>write(FileStream*)\<close> and \<^verbatim>\<open>write(int)\<close>: \<open>fd\<close> is the file's descriptor.\<close>

definition Socket_write_file :: "'k sysops \<Rightarrow> int \<Rightarrow> nat \<Rightarrow> ('i, 't) socket \<Rightarrow> 'k \<Rightarrow> int \<times> 'k" where
  "Socket_write_file io fd n s k = (case sys_sendfile io (so_fd s) fd n k of (r, k') \<Rightarrow> (rv_of r, k'))"

definition Socket_write_fd :: "'k sysops \<Rightarrow> int \<Rightarrow> nat \<Rightarrow> ('i, 't) socket \<Rightarrow> 'k \<Rightarrow> int \<times> 'k" where
  "Socket_write_fd io fd n s k = (case sys_sendfile io (so_fd s) fd n k of (r, k') \<Rightarrow> (rv_of r, k'))"

text \<open>The count of the pipe is not reduced.\<close>

definition Socket_write_pipe :: "'k sysops \<Rightarrow> pipe \<Rightarrow> nat \<Rightarrow> ('i, 't) socket \<Rightarrow> 'k \<Rightarrow> int \<times> pipe \<times> 'k" where
  "Socket_write_pipe io p n s k = (case sys_splice io (p_rd p) (so_fd s) n k of (r, k') \<Rightarrow> (rv_of r, p, k'))"

section \<open>SocketDriver\<close>

definition driver_create :: "'i \<Rightarrow> 't \<Rightarrow> int \<Rightarrow> ('i, 't) socket" where
  "driver_create i t fd = Socket_fd i t fd Operational"

definition driver_destroy :: "'k netops \<Rightarrow> ('i, 't) socket \<Rightarrow> 'k \<Rightarrow> 'k" where
  "driver_destroy sys s k = Socket_destroy sys s k"

definition driver_isSecure :: bool where
  "driver_isSecure = False"

definition driver_connect :: "'k netops \<Rightarrow> 'i \<Rightarrow> 't \<Rightarrow> ipaddr \<Rightarrow> int \<Rightarrow> 'k \<Rightarrow> ('i, 't) socket option \<times> 'k" where
  "driver_connect sys i t ip port k =
     (case sc_socket sys (ip_family ip) (of_int SOCK_STREAM) 0 k of
        (Inl e, k1) \<Rightarrow> (None, k1)
      | (Inr fd, k1) \<Rightarrow>
          (case (case inet_sockaddr ip port of None \<Rightarrow> (Inl 0, k1) | Some a \<Rightarrow> sc_connect sys fd a k1) of
             (Inl e, k2) \<Rightarrow> (None, sc_close sys fd k2)
           | (Inr _, k2) \<Rightarrow> (Some (Socket_fd i t fd Operational), k2)))"

section \<open>What can happen to a socket\<close>

text \<open>
  The client calls the operations (\<^verbatim>\<open>open\<close> only on a closed socket), and the event loop calls \<^verbatim>\<open>io\<close> and \<^verbatim>\<open>timeout\<close>
  while the watchers are active. The label is the call of the handler that the step makes.
\<close>

inductive socket_step :: "'k netops \<Rightarrow> ('i, 't) evops \<Rightarrow> ('i, 't) socket \<times> 'k \<Rightarrow> call option \<Rightarrow> ('i, 't) socket \<times> 'k \<Rightarrow> bool"
  for sys ev where
  st_open: "so_state s = Closed \<Longrightarrow> Socket_open sys ip port flags s k = (r, s', k') \<Longrightarrow> socket_step sys ev (s, k) None (s', k')"
| st_close: "Socket_close sys s k = (s', k') \<Longrightarrow> socket_step sys ev (s, k) None (s', k')"
| st_on: "Socket_on ev mode timeout cb s = Inr s' \<Longrightarrow> socket_step sys ev (s, k) None (s', k)"
| st_watch: "socket_step sys ev (s, k) None (Socket_watch ev mode s, k)"
| st_watch_for: "socket_step sys ev (s, k) None (Socket_watch_for ev mode timeout s, k)"
| st_restart: "socket_step sys ev (s, k) None (Socket_restart ev s, k)"
| st_stop: "socket_step sys ev (s, k) None (Socket_stop ev s, k)"
| st_io: "io_active ev (so_io s) \<Longrightarrow> Socket_io sys ev revents s k = Inr (c, s', k') \<Longrightarrow> socket_step sys ev (s, k) c (s', k')"
| st_timeout: "timer_active ev (so_timer s) \<Longrightarrow> Socket_timeout ev s = Inr (c, s') \<Longrightarrow> socket_step sys ev (s, k) c (s', k)"

inductive socket_run :: "'k netops \<Rightarrow> ('i, 't) evops \<Rightarrow> ('i, 't) socket \<times> 'k \<Rightarrow> call list \<Rightarrow> ('i, 't) socket \<times> 'k \<Rightarrow> bool"
  for sys ev where
  run_refl: "socket_run sys ev x [] x"
| run_quiet: "socket_run sys ev x cs y \<Longrightarrow> socket_step sys ev y None z \<Longrightarrow> socket_run sys ev x cs z"
| run_call: "socket_run sys ev x cs y \<Longrightarrow> socket_step sys ev y (Some c) z \<Longrightarrow> socket_run sys ev x (cs @ [c]) z"

inductive_cases socket_stepE: "socket_step sys ev (s, k) c (s', k')"

text \<open>A socket that is not closed has an open descriptor.\<close>

definition socket_ok :: "('k \<Rightarrow> int set) \<Rightarrow> ('i, 't) socket \<Rightarrow> 'k \<Rightarrow> bool" where
  "socket_ok fds s k \<longleftrightarrow> (so_state s \<noteq> Closed \<longrightarrow> 0 \<le> so_fd s \<and> so_fd s \<in> fds k)"

lemma watch_keeps [simp]:
  "so_state (Socket_watch ev m s) = so_state s" "so_fd (Socket_watch ev m s) = so_fd s"
  "so_handler (Socket_watch ev m s) = so_handler s"
  "so_state (Socket_watch_for ev m t s) = so_state s" "so_fd (Socket_watch_for ev m t s) = so_fd s"
  "so_handler (Socket_watch_for ev m t s) = so_handler s"
  "so_state (Socket_restart ev s) = so_state s" "so_fd (Socket_restart ev s) = so_fd s"
  "so_handler (Socket_restart ev s) = so_handler s"
  "so_state (Socket_stop ev s) = so_state s" "so_fd (Socket_stop ev s) = so_fd s"
  "so_handler (Socket_stop ev s) = so_handler s"
  by (simp_all add: Socket_watch_def Socket_watch_for_def Socket_restart_def Socket_stop_def Let_def)

lemma on_keeps: "Socket_on ev m t cb s = Inr s' \<Longrightarrow> so_state s' = so_state s \<and> so_fd s' = so_fd s \<and> so_handler s' = Some cb"
  by (auto simp: Socket_on_def Let_def)

locale net_env = fd_table sys fds + ev_watchers ev
  for sys :: "'k netops" and fds :: "'k \<Rightarrow> int set" and ev :: "('i, 't) evops"
begin

lemma stopped: "\<not> timer_active ev (so_timer (Socket_stop ev s))" "\<not> io_active ev (so_io (Socket_stop ev s))"
  by (simp_all add: Socket_stop_def timer_stop_active io_stop_active)

lemma applyFlags_keeps: "fds (snd (applyFlags sys fd f k)) = fds k"
  using add_fl_keeps [of fd f k] by (cases "add_fl sys fd f k") (simp add: applyFlags_def)

lemma open_law:
  assumes "Socket_open sys ip port flags s k = (r, s', k')" "so_state s = Closed"
  shows "socket_ok fds s' k' \<and> so_state s' = r \<and> so_handler s' = so_handler s \<and>
    (fds k' = fds k \<and> so_fd s' = - 1 \<or> so_fd s' \<notin> fds k \<and> fds k' = insert (so_fd s') (fds k))"
proof (cases "sc_socket sys (ip_family ip) (of_int SOCK_STREAM OR type_mask flags) 6 k")
  case (Pair x k1)
  show ?thesis
  proof (cases x)
    case (Inl e)
    then show ?thesis using assms Pair socket_fails [OF Pair [unfolded Inl]] by (auto simp: Socket_open_def socket_ok_def)
  next
    case (Inr fd)
    note S = socket_new [OF Pair [unfolded Inr]]
    obtain ok k2 where a: "applyFlags sys fd (without flags (O_NONBLOCK OR O_CLOEXEC)) k1 = (ok, k2)" by (rule prod.exhaust)
    then have k2: "fds k2 = fds k1" using applyFlags_keeps [of fd "without flags (O_NONBLOCK OR O_CLOEXEC)" k1] by simp
    have eq: "(r, s', k') =
      (if \<not> ok then (Closed, s\<lparr>so_fd := fd\<rparr>, k2)
       else case inet_sockaddr ip port of
         None \<Rightarrow> (Closed, s\<lparr>so_fd := fd, so_fd := - 1\<rparr>, sc_close sys fd k2)
       | Some a \<Rightarrow>
           (case sc_connect sys fd a k2 of
              (Inr _, k3) \<Rightarrow> (Operational, s\<lparr>so_fd := fd, so_state := Operational\<rparr>, k3)
            | (Inl e, k3) \<Rightarrow>
                if e = 115 then (Connecting, s\<lparr>so_fd := fd, so_state := Connecting\<rparr>, k3)
                else (Closed, s\<lparr>so_fd := fd, so_fd := - 1, so_state := Closed\<rparr>, sc_close sys fd k3)))"
      unfolding assms(1) [symmetric] Socket_open_def Pair Inr Let_def
      by (cases ok) (simp_all only: a prod.case bool.case if_True if_False sum.case simp_thms)
    consider "\<not> ok" | "ok" "inet_sockaddr ip port = None" | addr where "ok" "inet_sockaddr ip port = Some addr" by fastforce
    then show ?thesis
    proof cases
      case 1
      then show ?thesis using eq S k2 assms(2) by (simp add: socket_ok_def)
    next
      case 2
      then show ?thesis using eq S k2 assms(2) by (auto simp: socket_ok_def close_removes)
    next
      case (3 addr)
      obtain y k3 where c: "sc_connect sys fd addr k2 = (y, k3)" by (rule prod.exhaust)
      then have k3: "fds k3 = fds k2" using connect_keeps [of fd addr k2] by simp
      show ?thesis
      proof (cases y)
        case (Inl e)
        then show ?thesis using 3 eq c k3 S k2 by (cases "e = 115") (auto simp: socket_ok_def close_removes)
      next
        case (Inr u)
        then show ?thesis using 3 eq c k3 S k2 by (simp add: socket_ok_def)
      qed
    qed
  qed
qed

lemma connect_law:
  assumes "onConnectComplete sys ev s k = (c, s', k')" "0 \<le> so_fd s"
  shows "\<not> timer_active ev (so_timer s') \<and> \<not> io_active ev (so_io s') \<and> so_fd s' = so_fd s \<and>
    c = map_option (\<lambda>f. (f, CONNECTED)) (so_handler s) \<and> so_handler s' = so_handler s \<and>
    (if \<exists>l. sc_getsockopt sys (so_fd s) SOL_SOCKET SO_ERROR k = Inr (0, l)
     then so_state s' = Operational \<and> k' = k else so_state s' = Closed \<and> fds k' = fds k - {so_fd s})"
proof -
  let ?s = "Socket_stop ev s"
  have cl: "Socket_close sys ?s k = (?s\<lparr>so_state := Closed\<rparr>, sc_close sys (so_fd s) k)"
    using assms(2) by (simp add: Socket_close_def)
  show ?thesis
  proof (cases "\<exists>l. sc_getsockopt sys (so_fd s) SOL_SOCKET SO_ERROR k = Inr (0, l)")
    case True
    then show ?thesis using assms(1) stopped [of s]
      by (auto simp: onConnectComplete_def Let_def Socket_callback_def split: option.splits)
  next
    case False
    then have "(case sc_getsockopt sys (so_fd ?s) SOL_SOCKET SO_ERROR k of
        Inr (val, _) \<Rightarrow> if val = 0 then (?s\<lparr>so_state := Operational\<rparr>, k) else Socket_close sys ?s k
      | Inl e \<Rightarrow> Socket_close sys ?s k) = (?s\<lparr>so_state := Closed\<rparr>, sc_close sys (so_fd s) k)"
      using cl by (auto split: sum.split)
    then show ?thesis using assms(1) False stopped [of s] close_removes
      by (auto simp: onConnectComplete_def Let_def Socket_callback_def split: option.splits)
  qed
qed

lemma step_law:
  assumes "socket_step sys ev (s, k) c (s', k')" "socket_ok fds s k"
  shows "socket_ok fds s' k' \<and> (\<forall>f mode. c = Some (f, mode) \<longrightarrow>
    so_handler s = Some f \<and> \<not> timer_active ev (so_timer s') \<and>
    (mode = CONNECTED \<and> so_state s = Connecting \<longrightarrow> so_state s' \<noteq> Connecting))"
  using assms(1)
proof (cases rule: socket_stepE [consumes 1])
  case (1 ip port flags r)
  then show ?thesis using open_law [of ip port flags s k r s' k'] by auto
next
  case 2
  then show ?thesis using assms(2) by (auto simp: Socket_close_def socket_ok_def split: if_splits)
next
  case (3 mode timeout cb)
  then show ?thesis using on_keeps [of ev mode timeout cb s s'] assms(2) by (auto simp: socket_ok_def)
next
  case (8 revents)
  show ?thesis
  proof (cases "so_state s = Connecting")
    case True
    let ?s = "s\<lparr>so_timer := timer_stop ev (so_timer s)\<rparr>"
    have "0 \<le> so_fd ?s" using True assms(2) by (simp add: socket_ok_def)
    moreover have "onConnectComplete sys ev ?s k = (c, s', k')" using 8 True by (simp add: Socket_io_def Let_def)
    ultimately show ?thesis using connect_law [of ?s k c s' k'] True assms(2)
      by (auto simp: socket_ok_def split: if_splits)
  next
    case False
    then show ?thesis using 8 assms(2) timer_stop_active
      by (auto simp: Socket_io_def Let_def call_handler_def socket_ok_def split: if_splits option.splits)
  qed
next
  case 9
  then show ?thesis using assms(2) timer_stop_active
    by (auto simp: Socket_timeout_def Let_def call_handler_def socket_ok_def TIMEOUT_def CONNECTED_def split: option.splits)
qed (use assms(2) in \<open>auto simp: socket_ok_def\<close>)

lemma run_law:
  assumes "socket_run sys ev x cs y" "socket_ok fds (fst x) (snd x)"
  shows "socket_ok fds (fst y) (snd y)"
  using assms
proof (induction rule: socket_run.induct)
  case (run_quiet x cs y z)
  then show ?case using step_law [of "fst y" "snd y" None "fst z" "snd z"] by simp
next
  case (run_call x cs y c z)
  then show ?case using step_law [of "fst y" "snd y" "Some c" "fst z" "snd z"] by simp
qed

end

interpretation demo_env: net_env demo_net d_open demo_ev
  by unfold_locales

context posix_pipes
begin

lemma socket_write_pipe_law:
  assumes p: "pipe_ok pipe_at queue p k" and fd: "so_fd s \<noteq> p_wr p"
    and w: "Socket_write_pipe sys p n s k = (rv, p', k')" "0 < rv"
  shows "p' = p \<and> sent k' (so_fd s) = sent k (so_fd s) @ take (nat rv) (queue k (p_rd p)) \<and>
    queue k' (p_rd p) = drop (nat rv) (queue k (p_rd p)) \<and> length (queue k' (p_rd p)) < p_size p' \<and>
    (rv = int (p_size p) \<longrightarrow> Pipe_clear sys p' k' = None)"
proof -
  have at: "pipe_at k (p_rd p) (p_wr p)" "p_size p = length (queue k (p_rd p))" using p by (simp_all add: pipe_ok_def)
  obtain r k1 where r: "sys_splice sys (p_rd p) (so_fd s) n k = (r, k1)" by (rule prod.exhaust)
  then obtain m where m: "r = Inr m" "rv = int m" "p' = p" "k1 = k'" using w by (cases r) (auto simp: Socket_write_pipe_def)
  note S = splice_out [OF at(1) fd r [unfolded m]]
  have "Pipe_clear sys p k' = None" if "m = p_size p"
  proof (rule Pipe_clear_stuck)
    show "pipe_at k' (p_rd p) (p_wr p)" "queue k' (p_rd p) = []" "0 < p_size p" using S at that w(2) m(2) by simp_all
  qed
  then show ?thesis using S at m w(2) by auto
qed

end

section \<open>Properties\<close>


definition idle :: demo_watcher where
  "idle = \<lparr>w_target = (- 1, 0), w_active = False\<rparr>"

definition blank_process :: dstate where
  "blank_process = \<lparr>d_env = Map.empty, d_pid = 7, d_fds = Map.empty, d_next = 3\<rparr>"


text \<open>
  C21. When the pending connection of a socket is decided, both watchers are stopped and the handler is told
  \<^verbatim>\<open>CONNECTED\<close> once: the socket is operational with its descriptor if the kernel reports no error, and
  otherwise closed, with its descriptor closed too.
\<close>

theorem socket_connect_outcome:
  assumes env: "net_env sys fds ev" and s: "so_state s = Connecting" "0 \<le> so_fd s"
  shows "\<exists>s' k'. Socket_io sys ev revents s k = Inr (map_option (\<lambda>f. (f, CONNECTED)) (so_handler s), s', k') \<and>
    \<not> timer_active ev (so_timer s') \<and> \<not> io_active ev (so_io s') \<and> so_fd s' = so_fd s \<and>
    (if \<exists>l. sc_getsockopt sys (so_fd s) SOL_SOCKET SO_ERROR k = Inr (0, l)
     then so_state s' = Operational \<and> k' = k else so_state s' = Closed \<and> fds k' = fds k - {so_fd s})"
proof -
  let ?s = "s\<lparr>so_timer := timer_stop ev (so_timer s)\<rparr>"
  obtain c s' k' where o: "onConnectComplete sys ev ?s k = (c, s', k')" by (metis prod_cases3)
  have "Socket_io sys ev revents s k = Inr (c, s', k')" using s(1) o by (simp add: Socket_io_def Let_def)
  moreover have "0 \<le> so_fd ?s" using s(2) by simp
  ultimately show ?thesis using net_env.connect_law [OF env o] by auto
qed

theorem socket_connect_outcome_witness:
  "\<exists>s' k'. Socket_io demo_net demo_ev 2 (Socket_fd idle idle 9 Connecting) blank_process = Inr (None, s', k') \<and> so_state s' = Closed"
  using socket_connect_outcome [OF demo_env.net_env_axioms, of "Socket_fd idle idle 9 Connecting" 2 blank_process]
  by (auto simp: Socket_fd_def blank_process_def demo_net_def d_at_def)

text \<open>
  \<^verbatim>\<open>Socket::close()\<close> keeps the number of the descriptor it closed. A second \<^verbatim>\<open>close()\<close>, and the destructor always
  does one, closes whatever has this number by then.
\<close>

theorem socket_close_stale:
  assumes "fd_table sys fds" "0 \<le> so_fd s" "Socket_close sys s k = (s1, k1)"
  shows "so_state s1 = Closed \<and> so_fd s1 = so_fd s \<and> fds k1 = fds k - {so_fd s} \<and>
    (\<forall>k2. fds (snd (Socket_close sys s1 k2)) = fds k2 - {so_fd s})"
  using assms(2,3) fd_table.close_removes [OF assms(1)] by (auto simp: Socket_close_def)

theorem socket_close_stale_witness:
  "fst (Socket_close demo_net (Socket_fd idle idle 3 Operational) blank_process) = Socket_fd idle idle 3 Closed \<and>
   (\<forall>k2. d_open (snd (Socket_close demo_net (Socket_fd idle idle 3 Closed) k2)) = d_open k2 - {3})"
proof -
  have c: "Socket_close demo_net (Socket_fd idle idle 3 Operational) blank_process =
      (Socket_fd idle idle 3 Closed, sc_close demo_net 3 blank_process)" by (simp add: Socket_close_def Socket_fd_def)
  show ?thesis using socket_close_stale [OF demo_fds.fd_table_axioms _ c] c by (simp add: Socket_fd_def)
qed

text \<open>
  \<^verbatim>\<open>Socket::write(Pipe*, n)\<close> sends the oldest bytes of the pipe, but does not reduce the count of the pipe, which
  is too high afterwards; if all was sent, \<^verbatim>\<open>clear()\<close> on the pipe does not return any more.
\<close>

theorem socket_write_pipe_overcounts:
  assumes "posix_pipes io pipe_at queue sent" "pipe_ok pipe_at queue p k" "so_fd s \<noteq> p_wr p"
    "Socket_write_pipe io p n s k = (rv, p', k')" "0 < rv"
  shows "p' = p \<and> sent k' (so_fd s) = sent k (so_fd s) @ take (nat rv) (queue k (p_rd p)) \<and>
    queue k' (p_rd p) = drop (nat rv) (queue k (p_rd p)) \<and> length (queue k' (p_rd p)) < p_size p' \<and>
    (rv = int (p_size p) \<longrightarrow> Pipe_clear io p' k' = None)"
  by (rule posix_pipes.socket_write_pipe_law [OF assms])

theorem socket_write_pipe_overcounts_witness:
  "\<exists>p' k'. Socket_write_pipe queue_sys \<lparr>p_rd = 3, p_wr = 4, p_size = 2\<rparr> 2 (Socket_fd idle idle 9 Operational) (two_pipes ''ab'' []) = (2, p', k') \<and>
     k_sent k' 9 = ''ab'' \<and> Pipe_clear queue_sys p' k' = None"
proof -
  let ?p = "\<lparr>p_rd = 3, p_wr = 4, p_size = 2\<rparr>" and ?s = "Socket_fd idle idle 9 Operational"
  obtain k' where w: "Socket_write_pipe queue_sys ?p 2 ?s (two_pipes ''ab'' []) = (2, ?p, k')"
    by (simp add: Socket_write_pipe_def Socket_fd_def queue_sys_def q_splice_def two_pipes_def pipe_of_def q_room_def Let_def)
  have "pipe_ok q_at q_queue ?p (two_pipes ''ab'' [])" by (simp add: pipe_ok_def)
  from socket_write_pipe_overcounts [OF queue_kernel.posix_pipes_axioms this _ w] show ?thesis
    using w by (simp add: Socket_fd_def)
qed

end
