(* ===== verification/Listen_Env.thy ===== *)
theory Listen_Env
  imports Net_Kernel
begin

text \<open>
  Listening sockets that a parent process hands to its child in the environment variable \<^verbatim>\<open>XZERO_LISTEN_FDS\<close>:
  the text that a server prints for itself (\<^verbatim>\<open>serialize\<close>) and the three functions that read it back
  (\<^verbatim>\<open>ServerSocket::getInheritedSocketList\<close>, \<^verbatim>\<open>getSocketInet\<close>, \<^verbatim>\<open>getSocketUnix\<close>). A null pointer that the code
  passes on to \<^verbatim>\<open>strcmp\<close> or \<^verbatim>\<open>atoi\<close> is a fault.
\<close>

section \<open>Reading\<close>

definition X0_LISTEN_FDS :: string where
  "X0_LISTEN_FDS = ''XZERO_LISTEN_FDS''"

text \<open>\<^verbatim>\<open>strtok_r(s, ",", &s2)\<close>: the token or the null pointer, and what is left.\<close>

definition field :: "string \<Rightarrow> string option \<times> string" where
  "field s = (case strtok CHR '','' s of None \<Rightarrow> (None, []) | Some (t, r) \<Rightarrow> (Some t, r))"

lemma strtok_shorter: "strtok d s = Some (t, r) \<Longrightarrow> length r < length s"
proof -
  assume a: "strtok d s = Some (t, r)"
  let ?s = "dropWhile (\<lambda>c. c = d) s"
  have s: "?s \<noteq> []" "r = drop 1 (dropWhile (\<lambda>c. c \<noteq> d) ?s)" using a by (auto simp: strtok_def Let_def split: if_splits)
  have "hd ?s \<noteq> d" using hd_dropWhile [of "\<lambda>c. c = d" s] s(1) by simp
  have "length (dropWhile (\<lambda>c. c \<noteq> d) ?s) \<le> length ?s" "length ?s \<le> length s" "0 < length ?s"
    using s(1) by (simp_all add: length_dropWhile_le)
  then show ?thesis unfolding s(2) length_drop by linarith
qed

definition inherited_fd :: "string \<Rightarrow> int res" where
  "inherited_fd token =
     (let (_, s2) = field token; (vival1, s3) = field s2; (vival2, _) = field s3 in
      if vival2 \<noteq> None then atoi vival2 else atoi vival1)"

function inherited_loop :: "string \<Rightarrow> int list res" where
  "inherited_loop s =
     (case strtok CHR '';'' s of
        None \<Rightarrow> Inr []
      | Some (token, rest) \<Rightarrow>
          bnd (inherited_fd token) (\<lambda>fd. bnd (inherited_loop rest) (\<lambda>fds. Inr (fd # fds))))"
  by auto
termination by (relation "measure length") (auto dest: strtok_shorter)

definition getInheritedSocketList :: "'k netops \<Rightarrow> 'k \<Rightarrow> int list res" where
  "getInheritedSocketList sys k =
     (case sc_getenv sys X0_LISTEN_FDS k of None \<Rightarrow> Inr [] | Some e \<Rightarrow> inherited_loop e)"

text \<open>The check of a descriptor that was found: -1 unless it is a socket.\<close>

definition checked_fd :: "'k netops \<Rightarrow> 'k \<Rightarrow> int \<Rightarrow> int" where
  "checked_fd sys k fd =
     (case sc_fstat sys fd k of Inl e \<Rightarrow> - 1 | Inr st \<Rightarrow> if st_kind st \<noteq> SockFile then - 1 else fd)"

function inet_loop :: "'k netops \<Rightarrow> 'k \<Rightarrow> string \<Rightarrow> int \<Rightarrow> string \<Rightarrow> int res" where
  "inet_loop sys k address port s =
     (case strtok CHR '';'' s of
        None \<Rightarrow> Inr (- 1)
      | Some (token, rest) \<Rightarrow>
          (case field token of
             (None, _) \<Rightarrow> Inl NullDeref
           | (Some vaddr, s2) \<Rightarrow>
               if vaddr \<noteq> address then inet_loop sys k address port rest
               else case field s2 of (vport, s3) \<Rightarrow>
                 bnd (atoi vport) (\<lambda>p.
                   if p \<noteq> port then inet_loop sys k address port rest
                   else bnd (atoi (fst (field s3))) (\<lambda>fd. Inr (checked_fd sys k fd)))))"
  by auto
termination by (relation "measure (\<lambda>(sys, k, address, port, s). length s)") (auto dest: strtok_shorter)

definition getSocketInet :: "'k netops \<Rightarrow> string \<Rightarrow> int \<Rightarrow> 'k \<Rightarrow> int res" where
  "getSocketInet sys address port k =
     (case sc_getenv sys X0_LISTEN_FDS k of None \<Rightarrow> Inr (- 1) | Some e \<Rightarrow> inet_loop sys k address port e)"

function unix_loop :: "'k netops \<Rightarrow> 'k \<Rightarrow> string \<Rightarrow> string \<Rightarrow> int res" where
  "unix_loop sys k path s =
     (case strtok CHR '';'' s of
        None \<Rightarrow> Inr (- 1)
      | Some (token, rest) \<Rightarrow>
          (case field token of
             (None, _) \<Rightarrow> Inl NullDeref
           | (Some vaddr, s2) \<Rightarrow>
               if vaddr \<noteq> path then unix_loop sys k path rest
               else bnd (atoi (fst (field s2))) (\<lambda>fd. Inr (checked_fd sys k fd))))"
  by auto
termination by (relation "measure (\<lambda>(sys, k, path, s). length s)") (auto dest: strtok_shorter)

definition getSocketUnix :: "'k netops \<Rightarrow> string \<Rightarrow> 'k \<Rightarrow> int res" where
  "getSocketUnix sys path k =
     (case sc_getenv sys X0_LISTEN_FDS k of None \<Rightarrow> Inr (- 1) | Some e \<Rightarrow> unix_loop sys k path e)"

declare inherited_loop.simps [simp del] inet_loop.simps [simp del] unix_loop.simps [simp del]

section \<open>Printing\<close>

text \<open>
  \<^verbatim>\<open>snprintf(buf, cap, ...)\<close> into an array of \<open>cap\<close> bytes, followed by \<^verbatim>\<open>std::string(buf, n)\<close> for its result \<open>n\<close>, the
  length of the whole text.
\<close>

definition printed :: "nat \<Rightarrow> string \<Rightarrow> string res" where
  "printed cap s =
     (if length s < cap then Inr s
      else if length s = cap then Inr (take (cap - 1) s @ [NUL]) else Inl OutOfBounds)"

definition inet_text :: "string \<Rightarrow> int \<Rightarrow> int \<Rightarrow> string" where
  "inet_text address port fd = address @ '','' @ show_int port @ '','' @ show_int fd"

definition unix_text :: "string \<Rightarrow> int \<Rightarrow> string" where
  "unix_text path fd = path @ '','' @ show_int fd"

section \<open>Round trip\<close>

text \<open>The variable of a parent with the given servers.\<close>

datatype listener = InetL string int int | UnixL string int

fun listener_text :: "listener \<Rightarrow> string" where
  "listener_text (InetL a p fd) = inet_text a p fd"
| "listener_text (UnixL path fd) = unix_text path fd"

fun listener_fd :: "listener \<Rightarrow> int" where
  "listener_fd (InetL a p fd) = fd"
| "listener_fd (UnixL path fd) = fd"

fun listener_name :: "listener \<Rightarrow> string" where
  "listener_name (InetL a p fd) = a"
| "listener_name (UnixL path fd) = path"

fun env_text :: "listener list \<Rightarrow> string" where
  "env_text [] = []"
| "env_text [x] = listener_text x"
| "env_text (x # xs) = listener_text x @ '';'' @ env_text xs"

definition is_int :: "int \<Rightarrow> bool" where
  "is_int i \<longleftrightarrow> - 2147483648 \<le> i \<and> i < 2147483648"

fun listener_ok :: "listener \<Rightarrow> bool" where
  "listener_ok (InetL a p fd) \<longleftrightarrow> a \<noteq> [] \<and> CHR '','' \<notin> set a \<and> CHR '';'' \<notin> set a \<and> is_int p \<and> is_int fd"
| "listener_ok (UnixL path fd) \<longleftrightarrow> path \<noteq> [] \<and> CHR '','' \<notin> set path \<and> CHR '';'' \<notin> set path \<and> is_int fd"

lemma strtok_token: "t \<noteq> [] \<Longrightarrow> d \<notin> set t \<Longrightarrow> strtok d t = Some (t, [])"
proof -
  assume t: "t \<noteq> []" "d \<notin> set t"
  have "dropWhile (\<lambda>c. c = d) t = t" using t by (cases t) auto
  moreover have "takeWhile (\<lambda>c. c \<noteq> d) t = t" "dropWhile (\<lambda>c. c \<noteq> d) t = []" using t(2) by auto
  ultimately show ?thesis using t(1) by (simp add: strtok_def del: dropWhile_eq_Nil_conv takeWhile_eq_all_conv)
qed

lemma strtok_first: "t \<noteq> [] \<Longrightarrow> d \<notin> set t \<Longrightarrow> strtok d (t @ d # r) = Some (t, r)"
proof -
  assume t: "t \<noteq> []" "d \<notin> set t"
  have "dropWhile (\<lambda>c. c = d) (t @ d # r) = t @ d # r" using t by (cases t) auto
  moreover have "takeWhile (\<lambda>c. c \<noteq> d) (t @ d # r) = t" "dropWhile (\<lambda>c. c \<noteq> d) (t @ d # r) = d # r"
    using t(2) by (auto simp: takeWhile_append dropWhile_append)
  ultimately show ?thesis by (simp add: strtok_def del: dropWhile_eq_Nil_conv takeWhile_eq_all_conv)
qed

lemma show_int_no_sep: "CHR '','' \<notin> set (show_int i)" "CHR '';'' \<notin> set (show_int i)" "show_int i \<noteq> []"
  using show_nat_isdigit [of "nat i"] show_nat_isdigit [of "nat (- i)"]
  by (auto simp: show_int_def isdigit_def)

lemma listener_text_no_sep: "listener_ok x \<Longrightarrow> listener_text x \<noteq> [] \<and> CHR '';'' \<notin> set (listener_text x)"
  by (cases x) (auto simp: inet_text_def unix_text_def show_int_no_sep)

lemma strtok_env:
  assumes "\<forall>x \<in> set xs. listener_ok x"
  shows "strtok CHR '';'' (env_text xs) = (case xs of [] \<Rightarrow> None | x # ys \<Rightarrow> Some (listener_text x, env_text ys))"
  using assms listener_text_no_sep
  by (cases xs rule: env_text.cases) (auto simp: strtok_token strtok_first, simp add: strtok_def)

lemma field_first: "t \<noteq> [] \<Longrightarrow> CHR '','' \<notin> set t \<Longrightarrow> field (t @ CHR '','' # r) = (Some t, r)"
  by (simp add: field_def strtok_first)

lemma field_last: "t \<noteq> [] \<Longrightarrow> CHR '','' \<notin> set t \<Longrightarrow> field t = (Some t, [])"
  by (simp add: field_def strtok_token)

lemma field_Nil: "field [] = (None, [])"
  by (simp add: field_def strtok_def)

lemma field_listener:
  assumes "listener_ok x"
  shows "field (listener_text x) = (Some (listener_name x),
    case x of InetL a p fd \<Rightarrow> show_int p @ '','' @ show_int fd | UnixL path fd \<Rightarrow> show_int fd)"
  using assms by (cases x) (auto simp: inet_text_def unix_text_def field_first)

lemmas field_simps = field_first field_last field_Nil show_int_no_sep

lemma inherited_fd_text: "listener_ok x \<Longrightarrow> inherited_fd (listener_text x) = Inr (listener_fd x)"
  by (cases x) (simp_all add: inherited_fd_def inet_text_def unix_text_def field_simps atoi_show_int is_int_def)

lemma inherited_env: "\<forall>x \<in> set xs. listener_ok x \<Longrightarrow> inherited_loop (env_text xs) = Inr (map listener_fd xs)"
proof (induction xs)
  case Nil
  then show ?case using strtok_env [of "[]"] by (simp add: inherited_loop.simps [of "[]"])
next
  case (Cons x xs)
  then show ?case using strtok_env [of "x # xs"]
    by (simp add: inherited_loop.simps [of "env_text (x # xs)"] inherited_fd_text)
qed

lemma inet_env:
  assumes "\<forall>x \<in> set xs. listener_ok x" "\<forall>path fd. UnixL path fd \<in> set xs \<longrightarrow> path \<noteq> a"
  shows "inet_loop sys k a p (env_text xs) =
    Inr (case find (\<lambda>x. \<exists>fd. x = InetL a p fd) xs of None \<Rightarrow> - 1 | Some x \<Rightarrow> checked_fd sys k (listener_fd x))"
  using assms
proof (induction xs)
  case Nil
  then show ?case using strtok_env [of "[]"] by (simp add: inet_loop.simps [of _ _ _ _ "[]"])
next
  case (Cons x xs)
  have IH: "inet_loop sys k a p (env_text xs) =
    Inr (case find (\<lambda>x. \<exists>fd. x = InetL a p fd) xs of None \<Rightarrow> - 1 | Some x \<Rightarrow> checked_fd sys k (listener_fd x))"
    using Cons by auto
  have st: "strtok CHR '';'' (env_text (x # xs)) = Some (listener_text x, env_text xs)"
    using strtok_env [of "x # xs"] Cons.prems(1) by simp
  have x: "listener_ok x" using Cons.prems(1) by simp
  show ?case
  proof (cases x)
    case (InetL b q fd)
    then have "atoi (Some (show_int q)) = Inr q" "atoi (Some (show_int fd)) = Inr fd"
      using x by (simp_all add: atoi_show_int is_int_def)
    then show ?thesis using IH InetL field_listener [OF x] st
      by (subst inet_loop.simps) (simp add: field_simps)
  next
    case (UnixL path fd)
    then show ?thesis using IH field_listener [OF x] st Cons.prems(2)
      by (subst inet_loop.simps) simp
  qed
qed

lemma unix_env:
  assumes "\<forall>x \<in> set xs. listener_ok x" "\<forall>a p fd. InetL a p fd \<in> set xs \<longrightarrow> a \<noteq> path"
  shows "unix_loop sys k path (env_text xs) =
    Inr (case find (\<lambda>x. \<exists>fd. x = UnixL path fd) xs of None \<Rightarrow> - 1 | Some x \<Rightarrow> checked_fd sys k (listener_fd x))"
  using assms
proof (induction xs)
  case Nil
  then show ?case using strtok_env [of "[]"] by (simp add: unix_loop.simps [of _ _ _ "[]"])
next
  case (Cons x xs)
  have IH: "unix_loop sys k path (env_text xs) =
    Inr (case find (\<lambda>x. \<exists>fd. x = UnixL path fd) xs of None \<Rightarrow> - 1 | Some x \<Rightarrow> checked_fd sys k (listener_fd x))"
    using Cons by auto
  have st: "strtok CHR '';'' (env_text (x # xs)) = Some (listener_text x, env_text xs)"
    using strtok_env [of "x # xs"] Cons.prems(1) by simp
  have x: "listener_ok x" using Cons.prems(1) by simp
  show ?case
  proof (cases x)
    case (UnixL q fd)
    then have "atoi (Some (show_int fd)) = Inr fd" using x by (simp add: atoi_show_int is_int_def)
    then show ?thesis using IH UnixL field_listener [OF x] st
      by (subst unix_loop.simps) (simp add: field_simps)
  next
    case (InetL b q fd)
    then show ?thesis using IH field_listener [OF x] st Cons.prems(2)
      by (subst unix_loop.simps) simp
  qed
qed

section \<open>Properties\<close>

text \<open>
  C24. What the servers of a parent print, joined by semicolons, is read back by the child: the list of inherited
  descriptors is the list of the servers' descriptors, and looking up an address and port, or a path,
  gives the descriptor of the first server with it, or -1 if there is none or it is not a socket.
\<close>

theorem listen_env_roundtrip:
  assumes "sc_getenv sys X0_LISTEN_FDS k = Some (env_text xs)" "\<forall>x \<in> set xs. listener_ok x"
    "\<forall>path fd. UnixL path fd \<in> set xs \<longrightarrow> path \<noteq> a" "\<forall>b q fd. InetL b q fd \<in> set xs \<longrightarrow> b \<noteq> path"
  shows "getInheritedSocketList sys k = Inr (map listener_fd xs) \<and>
    getSocketInet sys a p k =
      Inr (case find (\<lambda>x. \<exists>fd. x = InetL a p fd) xs of None \<Rightarrow> - 1 | Some x \<Rightarrow> checked_fd sys k (listener_fd x)) \<and>
    getSocketUnix sys path k =
      Inr (case find (\<lambda>x. \<exists>fd. x = UnixL path fd) xs of None \<Rightarrow> - 1 | Some x \<Rightarrow> checked_fd sys k (listener_fd x))"
  using assms by (simp add: getInheritedSocketList_def getSocketInet_def getSocketUnix_def inherited_env inet_env unix_env)

definition child :: "string \<Rightarrow> dstate" where
  "child e = \<lparr>d_env = [X0_LISTEN_FDS \<mapsto> e], d_pid = 7, d_fds = [3 \<mapsto> new_socket AF_INET 0], d_next = 4\<rparr>"

theorem listen_env_roundtrip_witness:
  "getInheritedSocketList demo_net (child (env_text [UnixL ''/run/x'' 9, InetL ''::1'' 80 3])) = Inr [9, 3] \<and>
   getSocketInet demo_net ''::1'' 80 (child (env_text [UnixL ''/run/x'' 9, InetL ''::1'' 80 3])) = Inr 3"
proof -
  let ?xs = "[UnixL ''/run/x'' 9, InetL ''::1'' 80 3]"
  have env: "sc_getenv demo_net X0_LISTEN_FDS (child (env_text ?xs)) = Some (env_text ?xs)" by (simp add: demo_net_def child_def)
  have ok: "\<forall>x \<in> set ?xs. listener_ok x" by (simp add: is_int_def)
  have c: "checked_fd demo_net (child e) 3 = 3" for e
    by (simp add: checked_fd_def demo_net_def d_at_def child_def new_socket_def)
  from listen_env_roundtrip [OF env ok, of "''::1''" "''/run/x''" 80] show ?thesis using c by simp
qed

text \<open>
  An entry that lacks a field is not skipped: a lone address, or a separator without a name, makes the
  lookups pass a null pointer to \<^verbatim>\<open>atoi\<close> or \<^verbatim>\<open>strcmp\<close>.
\<close>

theorem listen_env_malformed:
  assumes "sc_getenv sys X0_LISTEN_FDS k = Some e" "e = a \<and> a \<noteq> [] \<and> CHR '','' \<notin> set a \<and> CHR '';'' \<notin> set a \<or> e = '',''"
  shows "getInheritedSocketList sys k = Inl NullDeref \<and> getSocketInet sys a p k = Inl NullDeref \<and>
    getSocketUnix sys a k = Inl NullDeref"
proof (cases "e = '',''")
  case True
  have "strtok CHR '';'' '','' = Some ('','', [])" "field '','' = (None, [])" by (simp_all add: strtok_def field_def)
  then show ?thesis using assms(1) True
    by (simp add: getInheritedSocketList_def getSocketInet_def getSocketUnix_def inherited_loop.simps [of "'',''"]
        inet_loop.simps [of _ _ _ _ "'',''"] unix_loop.simps [of _ _ _ "'',''"] inherited_fd_def field_Nil atoi_def)
next
  case False
  then have a: "e = a" "a \<noteq> []" "CHR '','' \<notin> set a" "CHR '';'' \<notin> set a" using assms(2) by auto
  have "strtok CHR '';'' a = Some (a, [])" "field a = (Some a, [])" using a by (simp_all add: strtok_token field_last)
  then show ?thesis using assms(1) a(1)
    by (simp add: getInheritedSocketList_def getSocketInet_def getSocketUnix_def inherited_loop.simps [of a]
        inet_loop.simps [of _ _ _ _ a] unix_loop.simps [of _ _ _ a] inherited_fd_def field_Nil atoi_def)
qed

theorem listen_env_malformed_witness:
  "getSocketInet demo_net ''::1'' 80 (child ''::1'') = Inl NullDeref"
  using listen_env_malformed [of demo_net "child ''::1''" "''::1''" "''::1''" 80] by (simp add: demo_net_def child_def)

end
