(* ===== verification/Sd_Daemon.thy ===== *)
theory Sd_Daemon
  imports Net_Kernel
begin

text \<open>
  The functions of \<^verbatim>\<open>support/sd-daemon/sd-daemon.c\<close>: which descriptors the service manager passed to the process,
  what kind of object a descriptor is, and the notification of the service manager. They return negative
  error numbers; errors of the C type system (a signed overflow, a comparison that leaves an object) are faults.
\<close>

section \<open>Passed descriptors\<close>

definition SD_LISTEN_FDS_START :: int where
  "SD_LISTEN_FDS_START = 3"

text \<open>The loop over \<open>n\<close> descriptors from \<open>fd\<close> on: the error number of the first failure, or \<open>None\<close>.\<close>

fun sd_mark_cloexec :: "'k netops \<Rightarrow> int \<Rightarrow> nat \<Rightarrow> 'k \<Rightarrow> nat option \<times> 'k" where
  "sd_mark_cloexec sys fd 0 k = (None, k)"
| "sd_mark_cloexec sys fd (Suc n) k =
     (case sc_getfd sys fd k of
        Inl e \<Rightarrow> (Some e, k)
      | Inr flags \<Rightarrow>
          if flags AND FD_CLOEXEC \<noteq> 0 then sd_mark_cloexec sys (fd + 1) n k
          else case sc_setfd sys fd (flags OR FD_CLOEXEC) k of
            (Inl e, k') \<Rightarrow> (Some e, k')
          | (Inr _, k') \<Rightarrow> sd_mark_cloexec sys (fd + 1) n k')"

text \<open>The loop for the number \<open>l\<close> read from the environment, whose bound may overflow.\<close>

definition sd_mark_all :: "'k netops \<Rightarrow> nat \<Rightarrow> 'k \<Rightarrow> (int \<times> 'k) res" where
  "sd_mark_all sys l k =
     bnd (int_range (SD_LISTEN_FDS_START + to_int32 l)) (\<lambda>last.
       case sd_mark_cloexec sys SD_LISTEN_FDS_START (nat (last - SD_LISTEN_FDS_START)) k of
         (Some e, k') \<Rightarrow> Inr (- int e, k')
       | (None, k') \<Rightarrow> Inr (to_int32 l, k'))"

text \<open>\<^verbatim>\<open>sd_listen_fds\<close> up to its label \<^verbatim>\<open>finish\<close>, and from there on.\<close>

definition sd_listen_body :: "'k netops \<Rightarrow> 'k \<Rightarrow> (int \<times> 'k) res" where
  "sd_listen_body sys k =
     (case sc_getenv sys ''LISTEN_PID'' k of
        None \<Rightarrow> Inr (0, k)
      | Some e \<Rightarrow>
          (case strtoul e of (errno, l, p) \<Rightarrow>
             if errno \<noteq> 0 then Inr (- int errno, k)
             else if p \<noteq> [] \<or> l \<le> 0 then Inr (- int EINVAL, k)
             else if sc_getpid sys k \<noteq> to_int32 l then Inr (0, k)
             else case sc_getenv sys ''LISTEN_FDS'' k of
               None \<Rightarrow> Inr (0, k)
             | Some e \<Rightarrow>
                 (case strtoul e of (errno, l, p) \<Rightarrow>
                    if errno \<noteq> 0 then Inr (- int errno, k)
                    else if p \<noteq> [] then Inr (- int EINVAL, k)
                    else sd_mark_all sys l k)))"

definition sd_listen_fds :: "'k netops \<Rightarrow> bool \<Rightarrow> 'k \<Rightarrow> (int \<times> 'k) res" where
  "sd_listen_fds sys unset_environment k =
     bnd (sd_listen_body sys k) (\<lambda>(r, k').
       Inr (r, if unset_environment then sc_unsetenv sys ''LISTEN_FDS'' (sc_unsetenv sys ''LISTEN_PID'' k') else k'))"

section \<open>Kinds of descriptors\<close>

definition sd_is_fifo :: "'k netops \<Rightarrow> int \<Rightarrow> string option \<Rightarrow> 'k \<Rightarrow> int" where
  "sd_is_fifo sys fd path k =
     (if fd < 0 then - int EINVAL
      else case sc_fstat sys fd k of
        Inl e \<Rightarrow> - int e
      | Inr st_fd \<Rightarrow>
          if st_kind st_fd \<noteq> FifoFile then 0
          else case path of
            None \<Rightarrow> 1
          | Some p \<Rightarrow>
              (case sc_stat sys p k of
                 Inl e \<Rightarrow> if e = 2 \<or> e = 20 then 0 else - int e
               | Inr st_path \<Rightarrow> of_bool (st_dev st_path = st_dev st_fd \<and> st_ino st_path = st_ino st_fd)))"

text \<open>One of the two option tests of \<^verbatim>\<open>sd_is_socket_internal\<close>: \<open>None\<close> means that the test passes.\<close>

definition sockopt_test :: "'k netops \<Rightarrow> int \<Rightarrow> int \<Rightarrow> (int \<Rightarrow> bool) \<Rightarrow> 'k \<Rightarrow> int option" where
  "sockopt_test sys fd opt accepts k =
     (case sc_getsockopt sys fd SOL_SOCKET opt k of
        Inl e \<Rightarrow> Some (- int e)
      | Inr (v, l) \<Rightarrow> if l \<noteq> 4 then Some (- int EINVAL) else if \<not> accepts v then Some 0 else None)"

definition sd_is_socket_internal :: "'k netops \<Rightarrow> int \<Rightarrow> int \<Rightarrow> int \<Rightarrow> 'k \<Rightarrow> int" where
  "sd_is_socket_internal sys fd type listening k =
     (if fd < 0 \<or> type < 0 then - int EINVAL
      else case sc_fstat sys fd k of
        Inl e \<Rightarrow> - int e
      | Inr st_fd \<Rightarrow>
          if st_kind st_fd \<noteq> SockFile then 0
          else case (if type \<noteq> 0 then sockopt_test sys fd SO_TYPE (\<lambda>v. v = type) k else None) of
            Some r \<Rightarrow> r
          | None \<Rightarrow>
              (case (if 0 \<le> listening then sockopt_test sys fd SO_ACCEPTCONN (\<lambda>v. (v = 0) = (listening = 0)) k else None) of
                 Some r \<Rightarrow> r | None \<Rightarrow> 1))"

text \<open>
  \<^verbatim>\<open>union sockaddr_union\<close>: 128 bytes, cleared before \<^verbatim>\<open>getsockname\<close> fills in the address. The family is the
  16-bit number at its start.
\<close>

definition sockaddr_union :: "char list \<Rightarrow> char list" where
  "sockaddr_union a = take 128 (a @ replicate 128 NUL)"

definition sa_family :: "char list \<Rightarrow> int" where
  "sa_family u = of_char (u ! 0) + 256 * of_char (u ! 1)"

definition sd_is_socket :: "'k netops \<Rightarrow> int \<Rightarrow> int \<Rightarrow> int \<Rightarrow> int \<Rightarrow> 'k \<Rightarrow> int" where
  "sd_is_socket sys fd family type listening k =
     (if family < 0 then - int EINVAL
      else let r = sd_is_socket_internal sys fd type listening k in
        if r \<le> 0 then r
        else if 0 < family
        then case sc_getsockname sys fd k of
          Inl e \<Rightarrow> - int e
        | Inr a \<Rightarrow> if length a < 2 then - int EINVAL else of_bool (sa_family (sockaddr_union a) = family)
        else 1)"

text \<open>\<open>port\<close> is the 16-bit number that the caller's \<^verbatim>\<open>int\<close> is converted to.\<close>

definition sd_is_socket_inet :: "'k netops \<Rightarrow> int \<Rightarrow> int \<Rightarrow> int \<Rightarrow> int \<Rightarrow> int \<Rightarrow> 'k \<Rightarrow> int" where
  "sd_is_socket_inet sys fd family type listening port k =
     (if family \<noteq> 0 \<and> family \<noteq> AF_INET \<and> family \<noteq> AF_INET6 then - int EINVAL
      else let r = sd_is_socket_internal sys fd type listening k in
        if r \<le> 0 then r
        else case sc_getsockname sys fd k of
          Inl e \<Rightarrow> - int e
        | Inr a \<Rightarrow>
            let u = sockaddr_union a in
            if length a < 2 then - int EINVAL
            else if sa_family u \<noteq> AF_INET \<and> sa_family u \<noteq> AF_INET6 then 0
            else if 0 < family \<and> sa_family u \<noteq> family then 0
            else if 0 < port
            then if length a < (if sa_family u = AF_INET then 16 else 28) then - int EINVAL
                 else of_bool (be16 port = take 2 (drop 2 u))
            else 1)"

text \<open>\<^verbatim>\<open>memcmp(path, sockaddr.un.sun_path, n) == 0\<close>; the path of the union starts at offset 2.\<close>

definition sun_path_eq :: "char list \<Rightarrow> char list \<Rightarrow> nat \<Rightarrow> int res" where
  "sun_path_eq path u n =
     (if length path < n \<or> length u < 2 + n then Inl OutOfBounds else Inr (of_bool (take n path = take n (drop 2 u))))"

text \<open>\<open>path\<close> is the array behind the pointer, with its terminator.\<close>

definition sd_is_socket_unix :: "'k netops \<Rightarrow> int \<Rightarrow> int \<Rightarrow> int \<Rightarrow> char list option \<Rightarrow> nat \<Rightarrow> 'k \<Rightarrow> int res" where
  "sd_is_socket_unix sys fd type listening path len k =
     (let r = sd_is_socket_internal sys fd type listening k in
      if r \<le> 0 then Inr r
      else case sc_getsockname sys fd k of
        Inl e \<Rightarrow> Inr (- int e)
      | Inr a \<Rightarrow>
          let u = sockaddr_union a; l = length a in
          if l < 2 then Inr (- int EINVAL)
          else if sa_family u \<noteq> AF_UNIX then Inr 0
          else case path of
            None \<Rightarrow> Inr 1
          | Some p \<Rightarrow>
              let n = (if len \<le> 0 then strlen p else len) in
              if n \<le> 0 then Inr (of_bool (l = 2))
              else if p ! 0 \<noteq> NUL
              then if 2 + n + 1 \<le> l then sun_path_eq p u (n + 1) else Inr 0
              else if l = 2 + n then sun_path_eq p u n else Inr 0)"

text \<open>The path of the queue's file is cut off to fit into an array of 4096 bytes.\<close>

definition sd_is_mq :: "'k netops \<Rightarrow> int \<Rightarrow> string option \<Rightarrow> 'k \<Rightarrow> int" where
  "sd_is_mq sys fd path k =
     (if fd < 0 then - int EINVAL
      else case sc_mq_getattr sys fd k of
        Inl e \<Rightarrow> - int e
      | Inr _ \<Rightarrow>
          (case path of
             None \<Rightarrow> 1
           | Some p \<Rightarrow>
               if p = [] \<or> hd p \<noteq> CHR ''/'' then - int EINVAL
               else case sc_fstat sys fd k of
                 Inl e \<Rightarrow> - int e
               | Inr a \<Rightarrow>
                   (case sc_stat sys (''/dev/mqueue'' @ take 4084 p) k of
                      Inl e \<Rightarrow> - int e
                    | Inr b \<Rightarrow> if st_dev a \<noteq> st_dev b \<or> st_ino a \<noteq> st_ino b then 0 else 1)))"

section \<open>Notification\<close>

text \<open>The address that the value \<open>e\<close> of \<^verbatim>\<open>NOTIFY_SOCKET\<close> stands for: a \<^verbatim>\<open>sockaddr_un\<close> cut off at its length.\<close>

definition notify_addr :: "string \<Rightarrow> char list" where
  "notify_addr e =
     (let p = take 108 (e @ replicate 108 NUL); p' = (if hd p = CHR ''@'' then NUL # tl p else p) in
      take (min 110 (2 + length e)) (le16 AF_UNIX @ p'))"

definition sd_notify :: "'k netops \<Rightarrow> bool \<Rightarrow> string option \<Rightarrow> 'k \<Rightarrow> int \<times> 'k" where
  "sd_notify sys unset_environment state k =
     (let finish = (\<lambda>r k. (r, if unset_environment then sc_unsetenv sys ''NOTIFY_SOCKET'' k else k)) in
      case state of
        None \<Rightarrow> finish (- int EINVAL) k
      | Some msg \<Rightarrow>
          (case sc_getenv sys ''NOTIFY_SOCKET'' k of
             None \<Rightarrow> (0, k)
           | Some e \<Rightarrow>
               if e = [] \<or> (hd e \<noteq> CHR ''@'' \<and> hd e \<noteq> CHR ''/'') \<or> tl e = [] then finish (- int EINVAL) k
               else case sc_socket sys AF_UNIX (2 OR O_CLOEXEC) 0 k of
                 (Inl err, k1) \<Rightarrow> finish (- int err) k1
               | (Inr fd, k1) \<Rightarrow>
                   (case sc_sendmsg sys fd (notify_addr e) msg k1 of
                      (Inl err, k2) \<Rightarrow> (case finish (- int err) k2 of (r, k3) \<Rightarrow> (r, sc_close sys fd k3))
                    | (Inr _, k2) \<Rightarrow> (case finish 1 k2 of (r, k3) \<Rightarrow> (r, sc_close sys fd k3)))))"

text \<open>\<open>printed\<close> is what \<^verbatim>\<open>vasprintf\<close> allocates and prints, if it can.\<close>

definition sd_notifyf :: "'k netops \<Rightarrow> bool \<Rightarrow> string option \<Rightarrow> 'k \<Rightarrow> int \<times> 'k" where
  "sd_notifyf sys unset_environment printed k =
     (case printed of None \<Rightarrow> (- 12, k) | Some p \<Rightarrow> sd_notify sys unset_environment (Some p) k)"

definition sd_booted :: "'k netops \<Rightarrow> 'k \<Rightarrow> int" where
  "sd_booted sys k =
     (case sc_lstat sys ''/sys/fs/cgroup'' k of
        Inl _ \<Rightarrow> 0
      | Inr a \<Rightarrow>
          (case sc_lstat sys ''/sys/fs/cgroup/systemd'' k of
             Inl _ \<Rightarrow> 0 | Inr b \<Rightarrow> of_bool (st_dev a \<noteq> st_dev b)))"

section \<open>Laws\<close>

lemma FD_CLOEXEC_set [simp]: "FD_CLOEXEC \<noteq> 0"
  by (simp add: FD_CLOEXEC_def)

definition marked :: "'k netops \<Rightarrow> int \<Rightarrow> 'k \<Rightarrow> bool" where
  "marked sys fd k \<longleftrightarrow> (case sc_getfd sys fd k of Inl _ \<Rightarrow> False | Inr f \<Rightarrow> f AND FD_CLOEXEC \<noteq> 0)"

lemma sd_mark_all_cases: "sd_mark_all sys l k = Inr (r, k') \<Longrightarrow> \<exists>n. k' = snd (sd_mark_cloexec sys SD_LISTEN_FDS_START n k)"
proof -
  assume a: "sd_mark_all sys l k = Inr (r, k')"
  then obtain last where "int_range (SD_LISTEN_FDS_START + to_int32 l) = Inr last"
    by (cases "int_range (SD_LISTEN_FDS_START + to_int32 l)") (auto simp: sd_mark_all_def)
  with a show ?thesis
    by (cases "sd_mark_cloexec sys SD_LISTEN_FDS_START (nat (last - SD_LISTEN_FDS_START)) k")
      (auto simp: sd_mark_all_def split: option.splits intro!: exI [of _ "nat (last - SD_LISTEN_FDS_START)"])
qed

lemma sd_listen_body_cases:
  "sd_listen_body sys k = Inr (r, k') \<Longrightarrow> k' = k \<or> (\<exists>n. k' = snd (sd_mark_cloexec sys SD_LISTEN_FDS_START n k))"
  by (auto simp: sd_listen_body_def dest: sd_mark_all_cases split: option.splits prod.splits if_splits)

context process_env
begin

lemma sd_mark_law:
  assumes "sd_mark_cloexec sys fd n k = (r, k')"
  shows "(\<forall>x. sc_getenv sys x k' = sc_getenv sys x k) \<and>
    (\<forall>x. x < fd \<or> fd + int n \<le> x \<longrightarrow> sc_getfd sys x k' = sc_getfd sys x k) \<and>
    (r = None \<longrightarrow> (\<forall>x. fd \<le> x \<and> x < fd + int n \<longrightarrow> marked sys x k')) \<and> (\<forall>e. r = Some e \<longrightarrow> 0 < e)"
  using assms
proof (induction n arbitrary: fd k)
  case (Suc n)
  have range: "x = fd \<or> fd + 1 \<le> x \<and> x < fd + 1 + int n" if "fd \<le> x" "x < fd + int (Suc n)" for x using that by auto
  consider e where "sc_getfd sys fd k = Inl e" | f where "sc_getfd sys fd k = Inr f" "f AND FD_CLOEXEC \<noteq> 0"
    | f where "sc_getfd sys fd k = Inr f" "f AND FD_CLOEXEC = 0" by (cases "sc_getfd sys fd k") auto
  then show ?case
  proof cases
    case 1
    then show ?thesis using Suc.prems errno_pos(1) by auto
  next
    case (2 f)
    then have "sd_mark_cloexec sys (fd + 1) n k = (r, k')" using Suc.prems by simp
    note IH = Suc.IH [OF this]
    then have "marked sys fd k'" using 2 by (simp add: marked_def)
    then have "marked sys x k'" if "r = None" "fd \<le> x" "x < fd + int (Suc n)" for x
      using IH that(1) range [OF that(2,3)] by auto
    then show ?thesis using IH by auto
  next
    case (3 f)
    obtain res k1 where s: "sc_setfd sys fd (f OR FD_CLOEXEC) k = (res, k1)" by fastforce
    show ?thesis
    proof (cases res)
      case (Inl e)
      then show ?thesis using 3 s Suc.prems setfd_fails [OF s [unfolded Inl]] errno_pos(2) [OF s [unfolded Inl]] by auto
    next
      case (Inr u)
      note S = setfd_sets [OF s [unfolded Inr]]
      have "sd_mark_cloexec sys (fd + 1) n k1 = (r, k')" using 3 s Inr Suc.prems by simp
      note IH = Suc.IH [OF this]
      then have "marked sys fd k'" using S by (simp add: marked_def)
      then have "marked sys x k'" if "r = None" "fd \<le> x" "x < fd + int (Suc n)" for x
        using IH that(1) range [OF that(2,3)] by auto
      then show ?thesis using IH S by auto
    qed
  qed
qed auto

lemma sd_listen_law:
  assumes pid: "sc_getenv sys ''LISTEN_PID'' k = Some (show_nat p)" "sc_getpid sys k = int p" "0 < p" "p < 2147483648"
    and fds: "sc_getenv sys ''LISTEN_FDS'' k = Some (show_nat n)" "n + 3 < 2147483648"
  shows "\<exists>r k'. sd_listen_fds sys unset k = Inr (r, k') \<and>
    (r = int n \<and> (\<forall>fd. 3 \<le> fd \<and> fd < 3 + int n \<longrightarrow> marked sys fd k') \<or> r < 0) \<and>
    (\<forall>fd. fd < 3 \<or> 3 + int n \<le> fd \<longrightarrow> sc_getfd sys fd k' = sc_getfd sys fd k) \<and>
    (\<forall>x. sc_getenv sys x k' = (if unset \<and> x \<in> {''LISTEN_PID'', ''LISTEN_FDS''} then None else sc_getenv sys x k))"
proof -
  have t: "to_int32 p = int p" "to_int32 n = int n" "int_range (SD_LISTEN_FDS_START + int n) = Inr (3 + int n)"
    using pid(4) fds(2) by (simp_all add: to_int32_def int_range_def SD_LISTEN_FDS_START_def Let_def)
  obtain m k1 where m: "sd_mark_cloexec sys 3 n k = (m, k1)" by fastforce
  note M = sd_mark_law [OF m]
  let ?r = "case m of None \<Rightarrow> int n | Some e \<Rightarrow> - int e"
  have "sd_listen_body sys k = Inr (?r, k1)"
    using pid fds t m strtoul_show_nat [of p] strtoul_show_nat [of n]
    by (simp add: sd_listen_body_def sd_mark_all_def SD_LISTEN_FDS_START_def split: option.split)
  then have "sd_listen_fds sys unset k = Inr (?r, if unset then sc_unsetenv sys ''LISTEN_FDS'' (sc_unsetenv sys ''LISTEN_PID'' k1) else k1)"
    by (simp add: sd_listen_fds_def)
  moreover have "marked sys fd (sc_unsetenv sys y k) = marked sys fd k" for fd y k by (simp add: marked_def getfd_unset)
  ultimately show ?thesis using M by (auto simp: getfd_unset getenv_unset split: option.split)
qed

end

context fd_table
begin

lemma sd_mark_keeps: "fds (snd (sd_mark_cloexec sys fd n k)) = fds k"
proof (induction n arbitrary: fd k)
  case (Suc n)
  obtain res k1 where s: "sc_setfd sys fd (flags_of (sc_getfd sys fd k) OR FD_CLOEXEC) k = (res, k1)" by fastforce
  then have "fds k1 = fds k" using setfd_keeps [of fd "flags_of (sc_getfd sys fd k) OR FD_CLOEXEC" k] by simp
  then show ?case using Suc s by (cases res) (auto split: sum.split)
qed simp

lemma sd_listen_keeps: "sd_listen_fds sys unset k = Inr (r, k') \<Longrightarrow> fds k' = fds k"
  using sd_mark_keeps [of SD_LISTEN_FDS_START]
  by (auto simp: sd_listen_fds_def unsetenv_keeps bnd_eq_Inr dest!: sd_listen_body_cases split: if_splits)

lemma sd_notify_keeps: "fds (snd (sd_notify sys unset state k)) = fds k"
proof (cases "\<exists>e msg. state = Some msg \<and> sc_getenv sys ''NOTIFY_SOCKET'' k = Some e \<and>
    \<not> (e = [] \<or> (hd e \<noteq> CHR ''@'' \<and> hd e \<noteq> CHR ''/'') \<or> tl e = [])")
  case False
  then show ?thesis by (auto simp: sd_notify_def Let_def unsetenv_keeps split: option.splits)
next
  case True
  then obtain e msg where 1: "state = Some msg" "sc_getenv sys ''NOTIFY_SOCKET'' k = Some e"
    "\<not> (e = [] \<or> (hd e \<noteq> CHR ''@'' \<and> hd e \<noteq> CHR ''/'') \<or> tl e = [])" by blast
  obtain r k1 where 2: "sc_socket sys AF_UNIX (2 OR O_CLOEXEC) 0 k = (r, k1)" by fastforce
  show ?thesis
  proof (cases r)
    case (Inl err)
    then show ?thesis using 1 2 socket_fails [OF 2 [unfolded Inl]] by (simp add: sd_notify_def Let_def unsetenv_keeps)
  next
    case (Inr fd)
    note S = socket_new [OF 2 [unfolded Inr]]
    obtain r2 k2 where 3: "sc_sendmsg sys fd (notify_addr e) msg k1 = (r2, k2)" by fastforce
    then have "fds k2 = fds k1" using sendmsg_keeps [of fd "notify_addr e" msg k1] by simp
    then show ?thesis using 1 2 3 Inr S by (cases r2) (auto simp: sd_notify_def Let_def unsetenv_keeps close_removes)
  qed
qed

end

section \<open>Properties\<close>

text \<open>A process with the number 7 that got the descriptors 3 and 4.\<close>

definition activated :: "string \<Rightarrow> dstate" where
  "activated n = \<lparr>d_env = [''LISTEN_PID'' \<mapsto> ''7'', ''LISTEN_FDS'' \<mapsto> n], d_pid = 7,
     d_fds = [3 \<mapsto> new_socket AF_INET 0, 4 \<mapsto> new_socket AF_INET 0], d_next = 5\<rparr>"

lemma show_7: "show_nat 7 = ''7''" "show_nat 2 = ''2''"
  by (simp_all add: show_nat.simps digit_char_def) code_simp+



text \<open>
  \<^verbatim>\<open>sd_listen_fds\<close> reads an \<^verbatim>\<open>unsigned long\<close> and goes on with it as an \<^verbatim>\<open>int\<close>: for numbers from \<open>2 ^ 31 - 3\<close> on the
  loop bound overflows, and from \<open>2 ^ 31\<close> to \<open>2 ^ 32 - 4\<close> a negative number of descriptors is returned, which the
  caller takes for an error number, and no descriptor is marked.
\<close>

theorem sd_listen_fds_bounds:
  assumes "sc_getenv sys ''LISTEN_PID'' k = Some (show_nat p)" "sc_getpid sys k = int p" "0 < p" "p < 2147483648"
    "sc_getenv sys ''LISTEN_FDS'' k = Some (show_nat n)" "2147483645 \<le> n" "n < 4294967293"
  shows "sd_listen_fds sys False k = (if n < 2147483648 then Inl SignedOverflow else Inr (int n - 4294967296, k))"
proof -
  have t: "to_int32 p = int p" "to_int32 n = (if n < 2147483648 then int n else int n - 4294967296)"
    using assms(4,7) by (simp_all add: to_int32_def Let_def)
  have "sd_mark_all sys n k = (if n < 2147483648 then Inl SignedOverflow else Inr (int n - 4294967296, k))"
    using assms(6,7) unfolding sd_mark_all_def t(2) by (simp add: int_range_def SD_LISTEN_FDS_START_def)
  then show ?thesis using assms t(1) strtoul_show_nat [of p] strtoul_show_nat [of n]
    by (simp add: sd_listen_fds_def sd_listen_body_def)
qed

theorem sd_listen_fds_bounds_witness:
  "sd_listen_fds demo_net False (activated (show_nat 4294967292)) = Inr (- 4, activated (show_nat 4294967292))"
  using sd_listen_fds_bounds [of demo_net "activated (show_nat 4294967292)" 7 4294967292]
  by (simp add: demo_net_def activated_def show_7)

end
