(* ===== verification/Server_Socket.thy ===== *)
theory Server_Socket
  imports Client_Socket Listen_Env Sd_Daemon
begin

text \<open>
  The class \<^verbatim>\<open>ServerSocket\<close> (\<^verbatim>\<open>include/xio/ServerSocket.h\<close>, \<^verbatim>\<open>lib/ServerSocket.cpp\<close>): a listening descriptor with a watcher.
  The subclasses extend its record. The driver is the name of an object; the callback is client code, a
  function \<open>cb\<close> that may change the server and the rest of the process.
\<close>

section \<open>State\<close>

datatype error_text = NoError | SysError nat | TextError string

record 'i server =
  sv_errorText :: error_text
  sv_driver :: "nat option"
  sv_fd :: int
  sv_flags :: "32 word"
  sv_typeMask :: "32 word"
  sv_backlog :: int
  sv_multiAcceptCount :: nat
  sv_io :: 'i

text \<open>The fields of a new server; \<open>drv\<close> is the driver that the constructor allocates. \<^verbatim>\<open>SOMAXCONN\<close> is 4096.\<close>

definition server_fields :: "'i \<Rightarrow> nat \<Rightarrow> 'i server" where
  "server_fields i drv = \<lparr>sv_errorText = NoError, sv_driver = Some drv, sv_fd = - 1, sv_flags = 0, sv_typeMask = 0,
     sv_backlog = 4096, sv_multiAcceptCount = 1, sv_io = i\<rparr>"

definition isOpen :: "('i, 'z) server_scheme \<Rightarrow> bool" where
  "isOpen s \<longleftrightarrow> 0 \<le> sv_fd s"

definition isActive :: "('i, 't) evops \<Rightarrow> ('i, 'z) server_scheme \<Rightarrow> bool" where
  "isActive ev s \<longleftrightarrow> io_active ev (sv_io s)"

section \<open>Operations\<close>

text \<open>\<^verbatim>\<open>ServerSocket::open(const SocketSpec&)\<close> is not implemented in the code.\<close>

definition ServerSocket_open :: "socket_spec \<Rightarrow> 32 word \<Rightarrow> 'i server option" where
  "ServerSocket_open spec flags = None"

definition setBacklog :: "int \<Rightarrow> ('i, 'z) server_scheme \<Rightarrow> ('i, 'z) server_scheme res" where
  "setBacklog value s = assertC (isOpen s = False) (Inr (s\<lparr>sv_backlog := value\<rparr>))"

definition server_start :: "('i, 't) evops \<Rightarrow> ('i, 'z) server_scheme \<Rightarrow> ('i, 'z) server_scheme res" where
  "server_start ev s =
     assertC (isOpen s) (assertC (\<not> isActive ev s)
       (Inr (s\<lparr>sv_io := io_start ev (io_set ev (sv_fd s) (uint EV_READ) (sv_io s))\<rparr>)))"

definition server_stop :: "('i, 't) evops \<Rightarrow> ('i, 'z) server_scheme \<Rightarrow> ('i, 'z) server_scheme" where
  "server_stop ev s = (if \<not> isActive ev s then s else s\<lparr>sv_io := io_stop ev (sv_io s)\<rparr>)"

definition server_close :: "'k netops \<Rightarrow> ('i, 't) evops \<Rightarrow> ('i, 'z) server_scheme \<Rightarrow> 'k \<Rightarrow> ('i, 'z) server_scheme \<times> 'k" where
  "server_close sys ev s k =
     (if sv_fd s < 0 then (s, k)
      else let s1 = server_stop ev s in (s1\<lparr>sv_fd := - 1\<rparr>, sc_close sys (sv_fd s1) k))"

definition setMultiAcceptCount :: "nat \<Rightarrow> ('i, 'z) server_scheme \<Rightarrow> ('i, 'z) server_scheme" where
  "setMultiAcceptCount value s = s\<lparr>sv_multiAcceptCount := max value 1\<rparr>"

text \<open>The result also names the driver that is deleted.\<close>

definition setSocketDriver :: "nat option \<Rightarrow> ('i, 'z) server_scheme \<Rightarrow> nat option \<times> ('i, 'z) server_scheme" where
  "setSocketDriver sd s = (if sv_driver s = sd then (None, s) else (sv_driver s, s\<lparr>sv_driver := sd\<rparr>))"

definition server_destroy :: "'k netops \<Rightarrow> ('i, 't) evops \<Rightarrow> ('i, 'z) server_scheme \<Rightarrow> 'k \<Rightarrow>
    nat option \<times> ('i, 'z) server_scheme \<times> 'k" where
  "server_destroy sys ev s k =
     (let s1 = (if isActive ev s then server_stop ev s else s) in
      case (if isOpen s1 then server_close sys ev s1 k else (s1, k)) of
        (s2, k2) \<Rightarrow> (case setSocketDriver None s2 of (d, s3) \<Rightarrow> (d, s3, k2)))"

definition setOption :: "'k netops \<Rightarrow> int \<Rightarrow> int \<Rightarrow> int \<Rightarrow> ('i, 'z) server_scheme \<Rightarrow> 'k \<Rightarrow> nat option \<times> 'k" where
  "setOption sys level opt value s k =
     (case sc_setsockopt sys (sv_fd s) level opt value k of (Inl e, k') \<Rightarrow> (Some e, k') | (Inr _, k') \<Rightarrow> (None, k'))"

definition server_listen :: "'k netops \<Rightarrow> int \<Rightarrow> ('i, 'z) server_scheme \<Rightarrow> 'k \<Rightarrow> nat option \<times> ('i, 'z) server_scheme \<times> 'k" where
  "server_listen sys backlog s k =
     (let b = (if backlog < 0 then sv_backlog s else backlog) in
      case sc_listen sys (sv_fd s) b k of
        (Inl e, k') \<Rightarrow> (Some e, s, k')
      | (Inr _, k') \<Rightarrow> (None, s\<lparr>sv_backlog := b\<rparr>, k'))"

definition setCloseOnExec :: "'k netops \<Rightarrow> bool \<Rightarrow> ('i, 'z) server_scheme \<Rightarrow> 'k \<Rightarrow> bool \<times> 'k" where
  "setCloseOnExec sys enable s k =
     (let f = flags_of (sc_getfd sys (sv_fd s) k) in
      case sc_setfd sys (sv_fd s) (if enable then f OR FD_CLOEXEC else without f FD_CLOEXEC) k of
        (Inl e, k') \<Rightarrow> (False, k') | (Inr _, k') \<Rightarrow> (True, k'))"

definition isCloseOnExec :: "'k netops \<Rightarrow> ('i, 'z) server_scheme \<Rightarrow> 'k \<Rightarrow> bool" where
  "isCloseOnExec sys s k \<longleftrightarrow> flags_of (sc_getfd sys (sv_fd s) k) AND FD_CLOEXEC \<noteq> 0"

definition setNonBlocking :: "'k netops \<Rightarrow> bool \<Rightarrow> ('i, 'z) server_scheme \<Rightarrow> 'k \<Rightarrow> bool \<times> 'k" where
  "setNonBlocking sys enable s k =
     (let f = flags_of (sc_getfl sys (sv_fd s) k) in
      case sc_setfl sys (sv_fd s) (if enable then f OR O_NONBLOCK else without f O_NONBLOCK) k of
        (Inl e, k') \<Rightarrow> (False, k') | (Inr _, k') \<Rightarrow> (True, k'))"

definition isNonBlocking :: "'k netops \<Rightarrow> ('i, 'z) server_scheme \<Rightarrow> 'k \<Rightarrow> bool" where
  "isNonBlocking sys s k \<longleftrightarrow> flags_of (sc_getfl sys (sv_fd s) k) AND O_NONBLOCK \<noteq> 0"

section \<open>Accepting\<close>

text \<open>
  \<open>accept4\<close>: whether the library was built with \<^verbatim>\<open>accept4\<close>. The result of the accepting call, whether it set the
  flags of the new descriptor, and the new state.
\<close>

definition accept_call :: "'k netops \<Rightarrow> bool \<Rightarrow> ('i, 'z) server_scheme \<Rightarrow> 'k \<Rightarrow> (nat + int) \<times> bool \<times> 'k" where
  "accept_call sys accept4 s k =
     (if accept4
      then case sc_accept4 sys (sv_fd s) (sv_typeMask s) k of
        (r, k1) \<Rightarrow>
          if r = Inl 38 then (case sc_accept sys (sv_fd s) k1 of (r2, k2) \<Rightarrow> (r2, False, k2))
          else (r, True, k1)
      else case sc_accept sys (sv_fd s) k of (r, k1) \<Rightarrow> (r, False, k1))"

text \<open>A new client or the error number; \<open>i\<close> and \<open>t\<close> are its watchers.\<close>

definition acceptOne :: "'k netops \<Rightarrow> bool \<Rightarrow> 'i \<Rightarrow> 't \<Rightarrow> ('i, 'z) server_scheme \<Rightarrow> 'k \<Rightarrow> (nat + ('i, 't) socket) \<times> 'k" where
  "acceptOne sys accept4 i t s k =
     (case accept_call sys accept4 s k of
        (Inl e, flagged, k1) \<Rightarrow> (Inl e, k1)
      | (Inr cfd, flagged, k1) \<Rightarrow>
          if \<not> flagged \<and> sv_flags s \<noteq> 0
          then case add_fl sys cfd (sv_flags s) k1 of
            (Some e, k2) \<Rightarrow> (Inl e, sc_close sys cfd k2)
          | (None, k2) \<Rightarrow> (Inr (driver_create i t cfd), k2)
          else (Inr (driver_create i t cfd), k1))"

text \<open>\<^verbatim>\<open>EINTR\<close> (4) and \<^verbatim>\<open>EAGAIN\<close> (11) are silent, other errors are reported as a null client.\<close>

definition handleOne :: "'k netops \<Rightarrow> bool \<Rightarrow> 'i \<Rightarrow> 't \<Rightarrow>
    (('i, 't) socket option \<Rightarrow> ('i, 'z) server_scheme \<Rightarrow> 'k \<Rightarrow> ('i, 'z) server_scheme \<times> 'k) \<Rightarrow>
    ('i, 'z) server_scheme \<Rightarrow> 'k \<Rightarrow> bool \<times> ('i, 'z) server_scheme \<times> 'k" where
  "handleOne sys accept4 i t cb s k =
     (case acceptOne sys accept4 i t s k of
        (Inr client, k1) \<Rightarrow> (case cb (Some client) s k1 of (s2, k2) \<Rightarrow> (True, s2, k2))
      | (Inl e, k1) \<Rightarrow>
          if e = 4 \<or> e = 11 then (False, s, k1)
          else (case cb None s k1 of (s2, k2) \<Rightarrow> (False, s2, k2)))"

fun accept_loop :: "'k netops \<Rightarrow> bool \<Rightarrow> 'i \<Rightarrow> 't \<Rightarrow>
    (('i, 't) socket option \<Rightarrow> ('i, 'z) server_scheme \<Rightarrow> 'k \<Rightarrow> ('i, 'z) server_scheme \<times> 'k) \<Rightarrow>
    nat \<Rightarrow> ('i, 'z) server_scheme \<Rightarrow> 'k \<Rightarrow> ('i, 'z) server_scheme \<times> 'k" where
  "accept_loop sys accept4 i t cb 0 s k = (s, k)"
| "accept_loop sys accept4 i t cb (Suc n) s k =
     (case handleOne sys accept4 i t cb s k of
        (True, s1, k1) \<Rightarrow> accept_loop sys accept4 i t cb n s1 k1
      | (False, s1, k1) \<Rightarrow> (s1, k1))"

text \<open>\<open>multi\<close>: whether the library was built with \<^verbatim>\<open>WITH_MULTI_ACCEPT\<close>.\<close>

definition server_accept :: "'k netops \<Rightarrow> bool \<Rightarrow> bool \<Rightarrow> 'i \<Rightarrow> 't \<Rightarrow>
    (('i, 't) socket option \<Rightarrow> ('i, 'z) server_scheme \<Rightarrow> 'k \<Rightarrow> ('i, 'z) server_scheme \<times> 'k) \<Rightarrow>
    ('i, 'z) server_scheme \<Rightarrow> 'k \<Rightarrow> ('i, 'z) server_scheme \<times> 'k" where
  "server_accept sys multi accept4 i t cb s k =
     (if multi then accept_loop sys accept4 i t cb (sv_multiAcceptCount s) s k
      else snd (handleOne sys accept4 i t cb s k))"

section \<open>Setting up a listener\<close>

text \<open>The computation of \<^verbatim>\<open>typeMask_\<close> and \<^verbatim>\<open>flags_\<close> at the start of both \<^verbatim>\<open>open\<close> functions.\<close>

definition set_masks :: "32 word \<Rightarrow> ('i, 'z) server_scheme \<Rightarrow> ('i, 'z) server_scheme" where
  "set_masks flags s = s\<lparr>sv_typeMask := type_mask flags, sv_flags := without flags (O_CLOEXEC OR O_NONBLOCK)\<rparr>"

text \<open>The labels \<^verbatim>\<open>err\<close>, \<^verbatim>\<open>syserr\<close> and \<^verbatim>\<open>done\<close> of both functions.\<close>

definition open_err :: "'k netops \<Rightarrow> ('i, 'z) server_scheme \<Rightarrow> 'k \<Rightarrow> (bool \<times> ('i, 'z) server_scheme \<times> 'k) res" where
  "open_err sys s k =
     (if 0 \<le> sv_fd s then Inr (False, s\<lparr>sv_fd := - 1\<rparr>, sc_close sys (sv_fd s) k) else Inr (False, s, k))"

definition open_syserr :: "'k netops \<Rightarrow> nat \<Rightarrow> ('i, 'z) server_scheme \<Rightarrow> 'k \<Rightarrow> (bool \<times> ('i, 'z) server_scheme \<times> 'k) res" where
  "open_syserr sys e s k = open_err sys (s\<lparr>sv_errorText := SysError e\<rparr>) k"

definition open_done :: "('i, 't) evops \<Rightarrow> ('i, 'z) server_scheme \<Rightarrow> 'k \<Rightarrow> (bool \<times> ('i, 'z) server_scheme \<times> 'k) res" where
  "open_done ev s k = bnd (server_start ev s) (\<lambda>s'. Inr (True, s', k))"

text \<open>A step of the form \<^verbatim>\<open>if (... < 0) goto syserr\<close>.\<close>

definition open_step :: "'k netops \<Rightarrow> ('i, 'z) server_scheme \<Rightarrow> nat option \<times> 'k \<Rightarrow>
    ('k \<Rightarrow> (bool \<times> ('i, 'z) server_scheme \<times> 'k) res) \<Rightarrow> (bool \<times> ('i, 'z) server_scheme \<times> 'k) res" where
  "open_step sys s r next =
     (case r of (Some e, k') \<Rightarrow> open_syserr sys e s k' | (None, k') \<Rightarrow> next k')"

section \<open>Laws\<close>

text \<open>
  What both \<^verbatim>\<open>open\<close> functions promise: on success a descriptor that is watched and at most this one more open
  descriptor, on failure a closed server and none.
\<close>

definition open_post :: "('k \<Rightarrow> int set) \<Rightarrow> ('i, 't) evops \<Rightarrow> 'k \<Rightarrow> (bool \<times> ('i, 'z) server_scheme \<times> 'k) res \<Rightarrow> bool" where
  "open_post fds ev k r \<longleftrightarrow> (\<exists>ok s' k'. r = Inr (ok, s', k') \<and>
     (if ok then 0 \<le> sv_fd s' \<and> isActive ev s' \<and> io_watches ev (sv_io s') = (sv_fd s', uint EV_READ) \<and>
        fds k \<subseteq> fds k' \<and> fds k' \<subseteq> insert (sv_fd s') (fds k)
      else sv_fd s' < 0 \<and> \<not> isActive ev s' \<and> fds k' \<subseteq> fds k))"

text \<open>While \<^verbatim>\<open>open\<close> runs.\<close>

definition mid_open :: "('k \<Rightarrow> int set) \<Rightarrow> ('i, 't) evops \<Rightarrow> 'k \<Rightarrow> ('i, 'z) server_scheme \<Rightarrow> 'k \<Rightarrow> bool" where
  "mid_open fds ev k s k1 \<longleftrightarrow> 0 \<le> sv_fd s \<and> \<not> isActive ev s \<and> fds k \<subseteq> fds k1 \<and> fds k1 \<subseteq> insert (sv_fd s) (fds k)"

context net_env
begin

lemma setOption_keeps: "fds (snd (setOption sys l opt v s k)) = fds k"
  using setsockopt_keeps [of "sv_fd s" l opt v k]
  by (cases "sc_setsockopt sys (sv_fd s) l opt v k"; cases "fst (sc_setsockopt sys (sv_fd s) l opt v k)")
    (simp_all add: setOption_def)

lemma open_done_post: "mid_open fds ev k s k1 \<Longrightarrow> open_post fds ev k (open_done ev s k1)"
  by (auto simp: open_post_def mid_open_def open_done_def server_start_def isOpen_def isActive_def
      io_start_active io_start_watches io_set_watches)

lemma open_syserr_post: "mid_open fds ev k s k1 \<Longrightarrow> open_post fds ev k (open_syserr sys e s k1)"
  by (auto simp: open_post_def mid_open_def open_syserr_def open_err_def isActive_def close_removes)

lemma open_fail_post: "\<not> isActive ev s \<Longrightarrow> sv_fd s < 0 \<Longrightarrow> fds k1 \<subseteq> fds k \<Longrightarrow> open_post fds ev k (open_syserr sys e s k1)"
  by (auto simp: open_post_def open_syserr_def open_err_def isActive_def)

lemma open_step_post:
  assumes "mid_open fds ev k s k1" "fds (snd r) = fds k1" "\<And>k2. mid_open fds ev k s k2 \<Longrightarrow> open_post fds ev k (f k2)"
  shows "open_post fds ev k (open_step sys s r f)"
proof (cases r)
  case (Pair e k2)
  then have "mid_open fds ev k s k2" using assms(1,2) by (simp add: mid_open_def)
  then show ?thesis using Pair assms(3) open_syserr_post by (cases e) (simp_all add: open_step_def)
qed

lemma mid_open_keeps: "mid_open fds ev k s k1 \<Longrightarrow> fds k2 = fds k1 \<Longrightarrow> mid_open fds ev k s k2"
  by (simp add: mid_open_def)

lemma server_listen_cases:
  assumes "server_listen sys b s k = (e, s', k')"
  shows "fds k' = fds k \<and> sv_fd s' = sv_fd s \<and> sv_io s' = sv_io s"
  using assms listen_keeps [of "sv_fd s" "if b < 0 then sv_backlog s else b" k]
  by (cases "sc_listen sys (sv_fd s) (if b < 0 then sv_backlog s else b) k";
      cases "fst (sc_listen sys (sv_fd s) (if b < 0 then sv_backlog s else b) k)")
    (auto simp: server_listen_def Let_def)

lemma accept_call_law:
  assumes "accept_call sys accept4 s k = (r, flagged, k')"
  shows "case r of Inl e \<Rightarrow> fds k' = fds k | Inr fd \<Rightarrow> 0 \<le> fd \<and> fd \<notin> fds k \<and> fds k' = insert fd (fds k)"
proof (cases accept4)
  case False
  then have "sc_accept sys (sv_fd s) k = (r, k')" using assms by (auto simp: accept_call_def split: prod.splits)
  then show ?thesis using accept_new accept_fails by (cases r) auto
next
  case True
  obtain r1 k1 where 1: "sc_accept4 sys (sv_fd s) (sv_typeMask s) k = (r1, k1)" by (rule prod.exhaust)
  show ?thesis
  proof (cases "r1 = Inl 38")
    case eq: True
    then have "sc_accept sys (sv_fd s) k1 = (r, k')" using assms True 1 by (auto simp: accept_call_def split: prod.splits)
    moreover have "fds k1 = fds k" using accept4_fails 1 eq by blast
    ultimately show ?thesis using accept_new accept_fails by (cases r) (simp_all, blast+)
  next
    case False
    then have "sc_accept4 sys (sv_fd s) (sv_typeMask s) k = (r, k')" using assms True 1 by (simp add: accept_call_def)
    then show ?thesis using accept4_new accept4_fails by (cases r) auto
  qed
qed

lemma acceptOne_law:
  assumes "acceptOne sys accept4 i t s k = (r, k')"
  shows "case r of Inl e \<Rightarrow> fds k' = fds k
    | Inr c \<Rightarrow> so_state c = Operational \<and> 0 \<le> so_fd c \<and> so_fd c \<notin> fds k \<and> fds k' = insert (so_fd c) (fds k)"
proof -
  obtain x flagged k1 where 1: "accept_call sys accept4 s k = (x, flagged, k1)" by (metis prod_cases3)
  note A = accept_call_law [OF 1]
  show ?thesis
  proof (cases x)
    case (Inl e)
    then show ?thesis using assms 1 A by (auto simp: acceptOne_def)
  next
    case (Inr fd)
    obtain e k2 where 2: "add_fl sys fd (sv_flags s) k1 = (e, k2)" by (rule prod.exhaust)
    then have k2: "fds k2 = fds k1" using add_fl_keeps [of fd "sv_flags s" k1] by simp
    show ?thesis
    proof (cases "\<not> flagged \<and> sv_flags s \<noteq> 0")
      case True
      then show ?thesis using assms 1 A Inr 2 k2
        by (cases e) (auto simp: acceptOne_def close_removes driver_create_def Socket_fd_def)
    next
      case False
      then show ?thesis using assms 1 A Inr by (auto simp: acceptOne_def driver_create_def Socket_fd_def)
    qed
  qed
qed

end

section \<open>The contract of listeners\<close>

text \<open>
  What a user of a server relies on, whichever subclass it is: in a process that is \<open>ready\<close>, opening an idle server
  ends as \<open>open_post\<close> says, and closing an open one stops its watcher and closes its descriptor.
\<close>

locale listener_contract =
  fixes ready :: "'k netops \<Rightarrow> 'k \<Rightarrow> bool"
    and open_op :: "'k netops \<Rightarrow> ('i, 't) evops \<Rightarrow> ('i, 'z) server_scheme \<Rightarrow> 'k \<Rightarrow> (bool \<times> ('i, 'z) server_scheme \<times> 'k) res"
    and close_op :: "'k netops \<Rightarrow> ('i, 't) evops \<Rightarrow> ('i, 'z) server_scheme \<Rightarrow> 'k \<Rightarrow> ('i, 'z) server_scheme \<times> 'k"
  assumes opens: "net_env sys fds ev \<Longrightarrow> \<not> isActive ev s \<Longrightarrow> ready sys k \<Longrightarrow> open_post fds ev k (open_op sys ev s k)"
    and closes: "net_env sys fds ev \<Longrightarrow> 0 \<le> sv_fd s \<Longrightarrow> close_op sys ev s k = (s', k') \<Longrightarrow>
      sv_fd s' = - 1 \<and> \<not> isActive ev s' \<and> fds k' = fds k - {sv_fd s}"
begin

lemma open_close:
  assumes env: "net_env sys fds ev" and s: "\<not> isActive ev s" "ready sys k"
  shows "\<exists>ok s' k'. open_op sys ev s k = Inr (ok, s', k') \<and>
    (if ok then 0 \<le> sv_fd s' \<and> isActive ev s' \<and> io_watches ev (sv_io s') = (sv_fd s', uint EV_READ) \<and>
       fds k \<subseteq> fds k' \<and> fds k' \<subseteq> insert (sv_fd s') (fds k) \<and>
       (\<exists>s'' k''. close_op sys ev s' k' = (s'', k'') \<and> sv_fd s'' = - 1 \<and> \<not> isActive ev s'' \<and> fds k'' = fds k - {sv_fd s'})
     else sv_fd s' < 0 \<and> \<not> isActive ev s' \<and> fds k' \<subseteq> fds k)"
proof -
  obtain ok s' k' where o: "open_op sys ev s k = Inr (ok, s', k')"
    "if ok then 0 \<le> sv_fd s' \<and> isActive ev s' \<and> io_watches ev (sv_io s') = (sv_fd s', uint EV_READ) \<and>
        fds k \<subseteq> fds k' \<and> fds k' \<subseteq> insert (sv_fd s') (fds k)
      else sv_fd s' < 0 \<and> \<not> isActive ev s' \<and> fds k' \<subseteq> fds k"
    using opens [OF env s] by (auto simp: open_post_def)
  obtain s'' k'' where c: "close_op sys ev s' k' = (s'', k'')" by (rule prod.exhaust)
  show ?thesis
  proof (intro exI conjI, rule o(1), cases ok)
    case True
    then have "fds k'' = fds k - {sv_fd s'}" using closes [OF env _ c] o(2) by auto
    then show "if ok then 0 \<le> sv_fd s' \<and> isActive ev s' \<and> io_watches ev (sv_io s') = (sv_fd s', uint EV_READ) \<and>
       fds k \<subseteq> fds k' \<and> fds k' \<subseteq> insert (sv_fd s') (fds k) \<and>
       (\<exists>s'' k''. close_op sys ev s' k' = (s'', k'') \<and> sv_fd s'' = - 1 \<and> \<not> isActive ev s'' \<and> fds k'' = fds k - {sv_fd s'})
     else sv_fd s' < 0 \<and> \<not> isActive ev s' \<and> fds k' \<subseteq> fds k"
      using True o(2) c closes [OF env _ c] by auto
  qed (use o(2) in auto)
qed

end

context net_env
begin

lemma server_close_law: "0 \<le> sv_fd s \<Longrightarrow> server_close sys ev s k = (s', k') \<Longrightarrow>
    sv_fd s' = - 1 \<and> \<not> isActive ev s' \<and> fds k' = fds k - {sv_fd s}"
  by (cases "io_active ev (sv_io s)") (auto simp: server_close_def Let_def server_stop_def isActive_def close_removes io_stop_active)

end

section \<open>Properties\<close>

text \<open>
  C20. \<^verbatim>\<open>handleOne\<close> loses no descriptor: it tells the callback about an operational client with a new open
  descriptor, or about a failure, or (interrupted, nothing to accept) about nothing, and then no
  descriptor was opened, also if the flags of a new one could not be set.
\<close>

theorem server_handle_one:
  assumes env: "net_env sys fds ev" and r: "handleOne sys accept4 i t cb s k = (ok, s', k')"
  shows "\<exists>k1. (ok \<longrightarrow> (\<exists>c. (s', k') = cb (Some c) s k1 \<and> so_state c = Operational \<and> so_fd c \<notin> fds k \<and>
      fds k1 = insert (so_fd c) (fds k))) \<and>
    (\<not> ok \<longrightarrow> fds k1 = fds k \<and> ((s', k') = cb None s k1 \<or> (s', k') = (s, k1)))"
proof -
  obtain x k1 where 1: "acceptOne sys accept4 i t s k = (x, k1)" by (rule prod.exhaust)
  note A = net_env.acceptOne_law [OF env 1]
  show ?thesis
  proof (cases x)
    case (Inl e)
    then show ?thesis using r 1 A by (intro exI [of _ k1]) (auto simp: handleOne_def split: if_splits prod.splits)
  next
    case (Inr c)
    then have "(s', k') = cb (Some c) s k1" "ok" using r 1 by (auto simp: handleOne_def split: prod.splits)
    then show ?thesis using A Inr by (intro exI [of _ k1]) (auto intro!: exI [of _ c])
  qed
qed

definition listening :: dstate where
  "listening = blank_process\<lparr>d_fds := [3 \<mapsto> (new_socket AF_INET 0)\<lparr>fd_listens := True\<rparr>], d_next := 4\<rparr>"

theorem server_handle_one_witness:
  "\<exists>(c :: (demo_watcher, demo_watcher) socket) k'. handleOne demo_net True idle idle (\<lambda>_ s k. (s, k)) ((server_fields idle 0)\<lparr>sv_fd := 3\<rparr>) listening =
       (True, (server_fields idle 0)\<lparr>sv_fd := 3\<rparr>, k') \<and> so_state c = Operational \<and> d_open k' = insert (so_fd c) (d_open listening)"
proof -
  let ?s = "(server_fields idle 0)\<lparr>sv_fd := 3\<rparr>"
  obtain ok s' k' where h: "handleOne demo_net True idle idle (\<lambda>_ s k. (s, k)) ?s listening = (ok, s', k')"
    by (metis prod_cases3)
  have "fst (handleOne demo_net True idle idle (\<lambda>_ s k. (s, k)) ?s listening)"
    by (simp add: handleOne_def acceptOne_def accept_call_def demo_net_def d_at_def d_new_def listening_def blank_process_def
        server_fields_def new_socket_def)
  then have "ok" using h by simp
  then show ?thesis using server_handle_one [OF demo_env.net_env_axioms h] h by auto
qed

end
