(* ===== verification/Inet_Server.thy ===== *)
theory Inet_Server
  imports Server_Socket
begin

text \<open>
  The class \<^verbatim>\<open>InetServer\<close> (\<^verbatim>\<open>include/xio/InetServer.h\<close>, \<^verbatim>\<open>lib/InetServer.cpp\<close>). \<^verbatim>\<open>open\<close> takes over a descriptor that a parent
  process or the service manager passed, or creates one. The code under \<^verbatim>\<open>WITH_TCP_DEFER_ACCEPT\<close>, which no
  build file defines, is left out.
\<close>

section \<open>State and operations\<close>

record 'i inet_server = "'i server" +
  is_ipaddr :: ipaddr
  is_port :: int
  is_reusePort :: bool

definition InetServer_new :: "'i \<Rightarrow> nat \<Rightarrow> 'i inet_server" where
  "InetServer_new i drv = server.extend (server_fields i drv) \<lparr>is_ipaddr = ip_new, is_port = - 1, is_reusePort = False\<rparr>"

definition setReusePort :: "bool \<Rightarrow> 'i inet_server \<Rightarrow> 'i inet_server res" where
  "setReusePort value s = assertC (isOpen s = False) (Inr (s\<lparr>is_reusePort := value\<rparr>))"

text \<open>The requested flags of a descriptor: \<^verbatim>\<open>O_NONBLOCK\<close>, then \<^verbatim>\<open>O_CLOEXEC\<close>; \<open>None\<close> is success.\<close>

definition ensure_flags :: "'k netops \<Rightarrow> int \<Rightarrow> 32 word \<Rightarrow> 'k \<Rightarrow> nat option \<times> 'k" where
  "ensure_flags sys fd flags k =
     (case (if flags AND O_NONBLOCK \<noteq> 0 then add_fl sys fd O_NONBLOCK k else (None, k)) of
        (Some e, k1) \<Rightarrow> (Some e, k1)
      | (None, k1) \<Rightarrow> if flags AND O_CLOEXEC \<noteq> 0 then add_fd sys fd FD_CLOEXEC k1 else (None, k1))"

text \<open>
  The \<^verbatim>\<open>sockaddr_in\<close> of \<^verbatim>\<open>bind\<close>: 16 bytes, of which the family is never set, and the address is copied to
  offset 4 with the length that it has.
\<close>

definition bind_sockaddr :: "ipaddr \<Rightarrow> int \<Rightarrow> char list res" where
  "bind_sockaddr ip port =
     (if 4 + ip_size ip \<le> 16
      then Inr (overwrite (overwrite (replicate 16 NUL) 4 (take (ip_size ip) (ip_buf ip))) 2 (be16 port))
      else Inl OutOfBounds)"

definition inet_bind :: "'k netops \<Rightarrow> ipaddr \<Rightarrow> int \<Rightarrow> 'i inet_server \<Rightarrow> 'k \<Rightarrow> (nat option \<times> 'i inet_server \<times> 'k) res" where
  "inet_bind sys ip port s k =
     bnd (bind_sockaddr ip port) (\<lambda>sin.
       case sc_bind sys (sv_fd s) sin k of
         (Inl e, k') \<Rightarrow> Inr (Some e, s, k')
       | (Inr _, k') \<Rightarrow> Inr (None, s\<lparr>is_ipaddr := ip_assign ip (is_ipaddr s), is_port := port\<rparr>, k'))"

text \<open>
  The loop over \<open>n\<close> descriptors of the service manager from \<open>fd\<close> on. The value of \<^verbatim>\<open>fd_\<close> at its end, and whether a
  socket was found: \<open>None\<close> means none. \<^verbatim>\<open>TCP_QUICKACK\<close> is option 12 of level 6.
\<close>

fun inet_adopt :: "'k netops \<Rightarrow> int \<Rightarrow> int \<Rightarrow> int \<Rightarrow> nat \<Rightarrow> 'k \<Rightarrow> int option" where
  "inet_adopt sys family port fd 0 k = None"
| "inet_adopt sys family port fd (Suc n) k =
     (if 0 < sd_is_socket_inet sys fd family SOCK_STREAM 1 (port mod 65536) k then Some fd
      else inet_adopt sys family port (fd + 1) n k)"

definition inet_systemd :: "'k netops \<Rightarrow> ('i, 't) evops \<Rightarrow> ipaddr \<Rightarrow> int \<Rightarrow> 32 word \<Rightarrow> int \<Rightarrow> string \<Rightarrow>
    'i inet_server \<Rightarrow> 'k \<Rightarrow> (bool \<times> 'i inet_server \<times> 'k) res" where
  "inet_systemd sys ev ip port flags count msg s k =
     bnd (int_range (SD_LISTEN_FDS_START + count)) (\<lambda>last.
       case inet_adopt sys (ip_family ip) port SD_LISTEN_FDS_START (nat count) k of
         Some fd \<Rightarrow>
           (let s1 = s\<lparr>sv_fd := fd\<rparr> in
            open_step sys s1 (ensure_flags sys fd flags k) (\<lambda>k1.
            open_step sys s1 (setOption sys 6 12 1 s1 k1) (\<lambda>k2.
            open_done ev s1 k2)))
       | None \<Rightarrow> open_err sys (s\<lparr>sv_fd := last, sv_errorText := TextError msg\<rparr>) k)"

text \<open>\<^verbatim>\<open>SO_REUSEADDR\<close> is option 2, \<^verbatim>\<open>SO_REUSEPORT\<close> option 15 of level 1.\<close>

definition inet_bind_listen :: "'k netops \<Rightarrow> ('i, 't) evops \<Rightarrow> ipaddr \<Rightarrow> int \<Rightarrow> 'i inet_server \<Rightarrow> 'k \<Rightarrow>
    (bool \<times> 'i inet_server \<times> 'k) res" where
  "inet_bind_listen sys ev ip port s k =
     bnd (inet_bind sys ip port s k) (\<lambda>(e, s1, k1).
       open_step sys s1 (e, k1) (\<lambda>k2.
         case server_listen sys (sv_backlog s1) s1 k2 of (e2, s2, k3) \<Rightarrow>
           open_step sys s2 (e2, k3) (open_done ev s2)))"

definition inet_create :: "'k netops \<Rightarrow> ('i, 't) evops \<Rightarrow> ipaddr \<Rightarrow> int \<Rightarrow> 32 word \<Rightarrow> 'i inet_server \<Rightarrow> 'k \<Rightarrow>
    (bool \<times> 'i inet_server \<times> 'k) res" where
  "inet_create sys ev ip port flags s k =
     (case sc_socket sys (ip_family ip) (of_int SOCK_STREAM OR sv_typeMask s) 6 k of
        (Inl e, k1) \<Rightarrow> open_syserr sys e (s\<lparr>sv_fd := - 1\<rparr>) k1
      | (Inr fd, k1) \<Rightarrow>
          let s1 = s\<lparr>sv_fd := fd\<rparr> in
          open_step sys s1 (ensure_flags sys fd flags k1) (\<lambda>k2.
          open_step sys s1 (setOption sys SOL_SOCKET 2 1 s1 k2) (\<lambda>k3.
          case (if is_reusePort s1
                then (case setOption sys SOL_SOCKET 15 1 s1 k3 of (e, k4) \<Rightarrow> (s1\<lparr>is_reusePort := (e = None)\<rparr>, k4))
                else (s1, k3)) of (s2, k4) \<Rightarrow>
          open_step sys s2 (setOption sys 6 12 1 s2 k4) (inet_bind_listen sys ev ip port s2))))"

text \<open>\<open>ntop\<close> prints addresses; \<open>msg\<close> is the message for a missing systemd socket.\<close>

definition inet_open :: "'k netops \<Rightarrow> ('i, 't) evops \<Rightarrow> ntop \<Rightarrow> string \<Rightarrow> ipaddr \<Rightarrow> int \<Rightarrow> 32 word \<Rightarrow> 'i inet_server \<Rightarrow> 'k \<Rightarrow>
    (bool \<times> 'i inet_server \<times> 'k) res" where
  "inet_open sys ev ntop msg ip port flags s k =
     bnd (sd_listen_fds sys False k) (\<lambda>(count, k1).
       let s1 = set_masks flags s in
       bnd (ip_str ntop ip) (\<lambda>address.
       bnd (getSocketInet sys address port k1) (\<lambda>fd.
         if 0 \<le> fd
         then let s2 = s1\<lparr>sv_fd := fd\<rparr> in open_step sys s2 (ensure_flags sys fd flags k1) (open_done ev s2)
         else if 0 < count then inet_systemd sys ev ip port flags count msg s1 k1
         else inet_create sys ev ip port flags s1 k1)))"

definition inet_clone :: "'k netops \<Rightarrow> ('i, 't) evops \<Rightarrow> ntop \<Rightarrow> string \<Rightarrow> 'i \<Rightarrow> nat \<Rightarrow> 'i inet_server \<Rightarrow> 'k \<Rightarrow>
    ('i inet_server \<times> 'k) res" where
  "inet_clone sys ev ntop msg i drv s k =
     bnd (setBacklog (sv_backlog s) (InetServer_new i drv)) (\<lambda>c1.
     bnd (setReusePort (is_reusePort s) c1) (\<lambda>c2.
     bnd (inet_open sys ev ntop msg (is_ipaddr s) (is_port s) (sv_flags s) c2 k) (\<lambda>(_, c3, k').
       Inr (c3, k'))))"

definition inet_close :: "'k netops \<Rightarrow> ('i, 't) evops \<Rightarrow> 'i inet_server \<Rightarrow> 'k \<Rightarrow> 'i inet_server \<times> 'k" where
  "inet_close sys ev s k = (case server_close sys ev s k of (s', k') \<Rightarrow> (s'\<lparr>is_reusePort := False\<rparr>, k'))"

definition inet_createSocket :: "'i \<Rightarrow> 't \<Rightarrow> int \<Rightarrow> ('i, 't) socket" where
  "inet_createSocket i t cfd = driver_create i t cfd"

definition inet_serialize :: "ntop \<Rightarrow> 'i inet_server \<Rightarrow> string res" where
  "inet_serialize ntop s =
     bnd (ip_str ntop (is_ipaddr s)) (\<lambda>address. printed 1024 (inet_text address (is_port s) (sv_fd s)))"

section \<open>Laws\<close>

lemma bind_sockaddr_v4: "ip_family ip = AF_INET \<Longrightarrow> bind_sockaddr ip port = Inr (overwrite (overwrite (replicate 16 NUL) 4 (take 4 (ip_buf ip))) 2 (be16 port))"
  by (simp add: bind_sockaddr_def ip_size_def)

lemma set_masks_sel [simp]: "sv_io (set_masks f s) = sv_io s" "is_port (set_masks f s) = is_port s"
  "is_ipaddr (set_masks f s) = is_ipaddr s"
  by (simp_all add: set_masks_def)

context net_env
begin

lemma ensure_flags_keeps: "fds (snd (ensure_flags sys fd flags k)) = fds k"
proof -
  obtain e k1 where 1: "(if flags AND O_NONBLOCK \<noteq> 0 then add_fl sys fd O_NONBLOCK k else (None, k)) = (e, k1)" by (rule prod.exhaust)
  then have "fds k1 = fds k" using add_fl_keeps [of fd O_NONBLOCK k] by (auto split: if_splits)
  then show ?thesis using 1 add_fd_keeps [of fd FD_CLOEXEC k1] by (cases e) (auto simp: ensure_flags_def)
qed

lemma inet_adopt_range: "inet_adopt sys family port fd n k = Some x \<Longrightarrow> fd \<le> x"
  by (induction n arbitrary: fd) (auto split: if_splits, fastforce)

lemma inet_bind_listen_post:
  assumes o: "mid_open fds ev k s k1" and v4: "ip_family ip = AF_INET"
  shows "open_post fds ev k (inet_bind_listen sys ev ip port s k1)"
proof -
  obtain sin where sin: "bind_sockaddr ip port = Inr sin" using v4 by (simp add: bind_sockaddr_v4)
  obtain e s1 k2 where b: "inet_bind sys ip port s k1 = Inr (e, s1, k2)" "fds k2 = fds k1" "sv_fd s1 = sv_fd s" "sv_io s1 = sv_io s"
    using sin bind_keeps [of "sv_fd s" sin k1]
    by (cases "sc_bind sys (sv_fd s) sin k1"; cases "fst (sc_bind sys (sv_fd s) sin k1)") (auto simp: inet_bind_def)
  then have o1: "mid_open fds ev k s1 k2" using o by (simp add: mid_open_def isActive_def)
  show ?thesis unfolding inet_bind_listen_def b(1) bnd.simps prod.case
  proof (rule open_step_post [OF o1])
    fix k3 assume o3: "mid_open fds ev k s1 k3"
    obtain e2 s2 k4 where l: "server_listen sys (sv_backlog s1) s1 k3 = (e2, s2, k4)" by (metis prod_cases3)
    then have "mid_open fds ev k s2 k4" using server_listen_cases [OF l] o3 by (simp add: mid_open_def isActive_def)
    then show "open_post fds ev k (case server_listen sys (sv_backlog s1) s1 k3 of
        (e2, s2, k3) \<Rightarrow> open_step sys s2 (e2, k3) (open_done ev s2))"
      unfolding l prod.case by (rule open_step_post) (simp_all add: open_done_post)
  qed simp
qed

lemma inet_create_post:
  assumes s: "\<not> isActive ev s" and k1: "fds k1 = fds k" and v4: "ip_family ip = AF_INET"
  shows "open_post fds ev k (inet_create sys ev ip port flags s k1)"
proof -
  obtain r k2 where so: "sc_socket sys (ip_family ip) (of_int SOCK_STREAM OR sv_typeMask s) 6 k1 = (r, k2)" by (rule prod.exhaust)
  show ?thesis
  proof (cases r)
    case (Inl e)
    then show ?thesis using so s k1 socket_fails [OF so [unfolded Inl]]
      by (auto simp: inet_create_def isActive_def intro!: open_fail_post)
  next
    case (Inr fd)
    note S = socket_new [OF so [unfolded Inr]]
    let ?s = "s\<lparr>sv_fd := fd\<rparr>"
    have o: "mid_open fds ev k ?s k2" using S s k1 by (auto simp: mid_open_def isActive_def)
    have rp: "open_post fds ev k (case (if is_reusePort ?s
          then (case setOption sys SOL_SOCKET 15 1 ?s k3 of (e, k4) \<Rightarrow> (?s\<lparr>is_reusePort := (e = None)\<rparr>, k4))
          else (?s, k3)) of (s2, k4) \<Rightarrow> open_step sys s2 (setOption sys 6 12 1 s2 k4) (inet_bind_listen sys ev ip port s2))"
      if o3: "mid_open fds ev k ?s k3" for k3
    proof -
      obtain s2 k4 where q: "(if is_reusePort ?s
          then (case setOption sys SOL_SOCKET 15 1 ?s k3 of (e, k4) \<Rightarrow> (?s\<lparr>is_reusePort := (e = None)\<rparr>, k4))
          else (?s, k3)) = (s2, k4)" by (rule prod.exhaust)
      have "fds k4 = fds k3 \<and> sv_fd s2 = fd \<and> sv_io s2 = sv_io s"
        using q setOption_keeps [of SOL_SOCKET 15 1 ?s k3] by (auto split: if_splits prod.splits)
      then have o4: "mid_open fds ev k s2 k4" using o3 by (simp add: mid_open_def isActive_def)
      show ?thesis unfolding q prod.case
        by (rule open_step_post [OF o4 setOption_keeps inet_bind_listen_post [OF _ v4]])
    qed
    show ?thesis unfolding inet_create_def so Inr prod.case sum.case Let_def
      by (rule open_step_post [OF o ensure_flags_keeps], rule open_step_post [OF _ setOption_keeps rp])
  qed
qed

lemma inet_adopted_post:
  assumes "\<not> isActive ev s" "fds k1 = fds k" "0 \<le> fd"
  shows "mid_open fds ev k (s\<lparr>sv_fd := fd\<rparr>) k1"
  using assms by (auto simp: mid_open_def isActive_def)

lemma inet_systemd_post:
  assumes s: "\<not> isActive ev s" and k1: "fds k1 = fds k" and n: "0 < count" "count < 2147483645"
  shows "open_post fds ev k (inet_systemd sys ev ip port flags count msg s k1)"
proof -
  have r: "int_range (SD_LISTEN_FDS_START + count) = Inr (3 + count)" using n by (simp add: int_range_def SD_LISTEN_FDS_START_def)
  show ?thesis
  proof (cases "inet_adopt sys (ip_family ip) port SD_LISTEN_FDS_START (nat count) k1")
    case None
    then show ?thesis using r s k1 n
      by (auto simp: inet_systemd_def open_err_def open_post_def isActive_def close_removes)
  next
    case (Some fd)
    then have "0 \<le> fd" using inet_adopt_range by (fastforce simp: SD_LISTEN_FDS_START_def)
    note o = inet_adopted_post [OF s k1 this]
    show ?thesis unfolding inet_systemd_def r Some bnd.simps option.case Let_def
      by (rule open_step_post [OF o ensure_flags_keeps], rule open_step_post [OF _ setOption_keeps open_done_post])
  qed
qed

lemma inet_open_post:
  assumes s: "\<not> isActive ev s" and v4: "ip_family ip = AF_INET" and a: "ip_str ntop ip = Inr address"
    and sd: "sd_listen_fds sys False k = Inr (count, k1)" "count < 2147483645" and g: "getSocketInet sys address port k1 = Inr fd"
  shows "open_post fds ev k (inet_open sys ev ntop msg ip port flags s k)"
proof -
  have k1: "fds k1 = fds k" by (rule sd_listen_keeps [OF sd(1)])
  let ?s = "set_masks flags s"
  have s1: "\<not> isActive ev ?s" using s by (simp add: isActive_def)
  show ?thesis
  proof (cases "0 \<le> fd")
    case True
    note o = inet_adopted_post [OF s1 k1 True]
    show ?thesis using True unfolding inet_open_def sd(1) bnd.simps prod.case Let_def a g
      by (simp, intro open_step_post [OF o ensure_flags_keeps open_done_post])
  next
    case False
    then show ?thesis using inet_systemd_post [OF s1 k1 _ sd(2)] inet_create_post [OF s1 k1 v4]
      by (simp add: inet_open_def Let_def sd(1) a g)
  qed
qed

end

text \<open>
  When \<^verbatim>\<open>open\<close> can go on in a process: the number of passed descriptors is sane and the variable of the parent
  can be read.
\<close>

definition inet_ready :: "ntop \<Rightarrow> ipaddr \<Rightarrow> int \<Rightarrow> 'k netops \<Rightarrow> 'k \<Rightarrow> bool" where
  "inet_ready ntop ip port sys k \<longleftrightarrow> ip_family ip = AF_INET \<and>
     (\<exists>address count k1 fd. ip_str ntop ip = Inr address \<and> sd_listen_fds sys False k = Inr (count, k1) \<and> count < 2147483645 \<and>
        getSocketInet sys address port k1 = Inr fd)"

lemma inet_readyI: "ip_family ip = AF_INET \<Longrightarrow> ip_str ntop ip = Inr address \<Longrightarrow> sd_listen_fds sys False k = Inr (count, k1) \<Longrightarrow>
    count < 2147483645 \<Longrightarrow> getSocketInet sys address port k1 = Inr fd \<Longrightarrow> inet_ready ntop ip port sys k"
  by (simp add: inet_ready_def)

lemma inet_ready_post: "net_env sys fds ev \<Longrightarrow> \<not> isActive ev s \<Longrightarrow> inet_ready ntop ip port sys k \<Longrightarrow>
    open_post fds ev k (inet_open sys ev ntop msg ip port flags s k)"
  unfolding inet_ready_def by (elim conjE exE) (rule net_env.inet_open_post)

lemma inet_close_law: "net_env sys fds ev \<Longrightarrow> 0 \<le> sv_fd s \<Longrightarrow> inet_close sys ev s k = (s', k') \<Longrightarrow>
    sv_fd s' = - 1 \<and> \<not> isActive ev s' \<and> fds k' = fds k - {sv_fd s}"
  by (cases "server_close sys ev s k") (auto simp: inet_close_def isActive_def dest: net_env.server_close_law)

interpretation inet: listener_contract "inet_ready ntop ip port" "\<lambda>sys ev. inet_open sys ev ntop msg ip port flags" inet_close
  for ntop ip port msg flags
  by (unfold_locales, erule (2) inet_ready_post, erule (2) inet_close_law)

section \<open>Properties\<close>

text \<open>
  C12. Opening a server for an IPv4 address, whatever the kernel answers on the way: either \<^verbatim>\<open>open\<close> returns true, the
  server has a descriptor that the event loop watches for connections, no other descriptor was opened, and \<^verbatim>\<open>close\<close>
  undoes it; or it returns false, the server is closed, and no descriptor was left open.
\<close>

theorem inet_open_outcome:
  assumes "net_env sys fds ev" "\<not> isActive ev s" "inet_ready ntop ip port sys k"
  shows "\<exists>ok s' k'. inet_open sys ev ntop msg ip port flags s k = Inr (ok, s', k') \<and>
    (if ok then 0 \<le> sv_fd s' \<and> isActive ev s' \<and> io_watches ev (sv_io s') = (sv_fd s', uint EV_READ) \<and>
       fds k \<subseteq> fds k' \<and> fds k' \<subseteq> insert (sv_fd s') (fds k) \<and>
       (\<exists>s'' k''. inet_close sys ev s' k' = (s'', k'') \<and> sv_fd s'' = - 1 \<and> \<not> isActive ev s'' \<and> fds k'' = fds k - {sv_fd s'})
     else sv_fd s' < 0 \<and> \<not> isActive ev s' \<and> fds k' \<subseteq> fds k)"
  by (rule inet.open_close [OF assms])

definition localhost :: ipaddr where
  "localhost = ip_new\<lparr>ip_family := AF_INET, ip_buf := overwrite (ip_buf ip_new) 0 [CHR 0x7F, NUL, NUL, CHR 0x01]\<rparr>"

definition some_ntop :: ntop where
  "some_ntop family bytes = (if family = AF_INET then Some ''127.0.0.1'' else None)"

lemma blank_sd: "sd_listen_fds demo_net False blank_process = Inr (0, blank_process)"
  by (simp add: sd_listen_fds_def sd_listen_body_def demo_net_def blank_process_def)

lemma blank_ready: "inet_ready some_ntop localhost 80 demo_net blank_process"
  by (rule inet_readyI [OF _ _ blank_sd, where address = "''127.0.0.1''" and fd = "- 1"])
    (simp_all add: localhost_def ip_str_def some_ntop_def getSocketInet_def demo_net_def blank_process_def)

lemma idle_inactive: "\<not> isActive demo_ev (InetServer_new idle 0)"
  by (simp add: isActive_def InetServer_new_def server_fields_def server.defs demo_ev_def idle_def)

theorem inet_open_outcome_witness:
  "\<exists>ok s' k'. inet_open demo_net demo_ev some_ntop [] localhost 80 O_NONBLOCK (InetServer_new idle 0) blank_process = Inr (ok, s', k') \<and>
    (if ok then 0 \<le> sv_fd s' \<and> isActive demo_ev s' \<and> d_open k' \<subseteq> insert (sv_fd s') (d_open blank_process)
     else sv_fd s' < 0 \<and> \<not> isActive demo_ev s' \<and> d_open k' \<subseteq> d_open blank_process)"
proof -
  from inet_open_outcome [OF demo_env.net_env_axioms idle_inactive blank_ready, of "[]" O_NONBLOCK]
  obtain ok s' k' where o: "inet_open demo_net demo_ev some_ntop [] localhost 80 O_NONBLOCK (InetServer_new idle 0) blank_process = Inr (ok, s', k')"
    "if ok then 0 \<le> sv_fd s' \<and> isActive demo_ev s' \<and> d_open k' \<subseteq> insert (sv_fd s') (d_open blank_process)
     else sv_fd s' < 0 \<and> \<not> isActive demo_ev s' \<and> d_open k' \<subseteq> d_open blank_process"
    by (elim exE conjE) (rule that, assumption, simp split: if_splits)
  then show ?thesis by blast
qed

text \<open>
  If the service manager passed \<open>n\<close> sockets of which none fits, \<^verbatim>\<open>open\<close> fails, and closes the descriptor behind
  the last one it was passed, which is not its own.
\<close>

theorem inet_systemd_miss:
  assumes "fd_table sys fds" "sd_listen_fds sys False k = Inr (int n, k1)" "0 < n" "n < 2147483645"
    "ip_str ntop ip = Inr address" "getSocketInet sys address port k1 = Inr (- 1)"
    "inet_adopt sys (ip_family ip) port 3 n k1 = None"
  shows "\<exists>s' k'. inet_open sys ev ntop msg ip port flags s k = Inr (False, s', k') \<and>
    sv_errorText s' = TextError msg \<and> fds k' = fds k - {3 + int n}"
  using assms fd_table.close_removes [OF assms(1)] fd_table.sd_listen_keeps [OF assms(1,2)]
  by (auto simp: inet_open_def inet_systemd_def int_range_def SD_LISTEN_FDS_START_def open_err_def)

text \<open>A process that got descriptor 3, which is marked and does not listen.\<close>

definition unfit :: dstate where
  "unfit = (activated ''2'')\<lparr>d_env := [''LISTEN_PID'' \<mapsto> ''7'', ''LISTEN_FDS'' \<mapsto> ''2''],
     d_fds := (\<lambda>_. Some ((new_socket AF_INET 0)\<lparr>fd_flags := FD_CLOEXEC\<rparr>))\<rparr>"

lemma unfit_calls [simp]: "sc_getenv demo_net ''LISTEN_PID'' unfit = Some ''7''" "sc_getenv demo_net ''LISTEN_FDS'' unfit = Some ''2''"
  "sc_getenv demo_net X0_LISTEN_FDS unfit = None" "sc_getpid demo_net unfit = 7" "sc_getfd demo_net 3 unfit = Inr FD_CLOEXEC"
  "sc_getfd demo_net 4 unfit = Inr FD_CLOEXEC" "sockopt_test demo_net 3 SO_ACCEPTCONN f unfit = (if f 0 then None else Some 0)"
  "sockopt_test demo_net 4 SO_ACCEPTCONN f unfit = (if f 0 then None else Some 0)"
  "sockopt_test demo_net 3 SO_TYPE f unfit = (if f SOCK_STREAM then None else Some 0)"
  "sockopt_test demo_net 4 SO_TYPE f unfit = (if f SOCK_STREAM then None else Some 0)"
  "sc_fstat demo_net 3 unfit = Inr \<lparr>st_kind = SockFile, st_dev = 0, st_ino = 3\<rparr>"
  "sc_fstat demo_net 4 unfit = Inr \<lparr>st_kind = SockFile, st_dev = 0, st_ino = 4\<rparr>"
  by (simp_all add: demo_net_def unfit_def activated_def X0_LISTEN_FDS_def d_at_def new_socket_def sockopt_test_def
      SO_TYPE_def SO_ACCEPTCONN_def)

lemma unfit_sd: "sd_listen_fds demo_net False unfit = Inr (int 2, unfit)"
proof -
  have "sd_mark_cloexec demo_net 3 (Suc (Suc 0)) unfit = (None, unfit)" by (simp add: FD_CLOEXEC_def)
  then have "sd_mark_all demo_net 2 unfit = Inr (2, unfit)"
    by (simp add: sd_mark_all_def to_int32_def int_range_def SD_LISTEN_FDS_START_def numeral_2_eq_2)
  then show ?thesis using strtoul_show_nat [of 7] strtoul_show_nat [of 2]
    by (simp add: sd_listen_fds_def sd_listen_body_def show_7 to_int32_def)
qed

lemma unfit_adopt: "inet_adopt demo_net family 80 3 2 unfit = None"
  by (simp add: numeral_2_eq_2 sd_is_socket_inet_def sd_is_socket_internal_def)

theorem inet_systemd_miss_witness:
  "\<exists>s' k'. inet_open demo_net demo_ev some_ntop ''no socket'' localhost 80 0 (InetServer_new idle 0) unfit = Inr (False, s', k') \<and>
     sv_errorText s' = TextError ''no socket'' \<and> d_open k' = d_open unfit - {5}"
  using inet_systemd_miss [OF demo_fds.fd_table_axioms unfit_sd _ _ _ _ unfit_adopt,
      of some_ntop localhost "''127.0.0.1''" demo_ev "''no socket''" 0 "InetServer_new idle 0"]
  by (simp add: localhost_def ip_str_def some_ntop_def getSocketInet_def)

text \<open>
  C25. Handing a listener to a child process: when the variable of the child is what \<^verbatim>\<open>serialize\<close> printed, the
  \<^verbatim>\<open>open\<close> of the child for the same endpoint adopts the descriptor and watches it. But it leaves address and port of
  the child's server unset, so that the child cannot hand the listener on: its \<^verbatim>\<open>serialize\<close> prints the text of an
  address that was never written.
\<close>

theorem inet_handover:
  assumes ev: "ev_watchers ev" "\<not> isActive ev (InetServer_new i drv)"
    and a: "ip_str ntop (is_ipaddr s) = Inr address" "listener_ok (InetL address (is_port s) (sv_fd s))"
    and ser: "inet_serialize ntop s = Inr txt" "length txt < 1024" and fd: "0 \<le> sv_fd s"
    and child: "sd_listen_fds sys False k = Inr (count, k1)" "sc_getenv sys X0_LISTEN_FDS k1 = Some txt"
      "sc_fstat sys (sv_fd s) k1 = Inr st" "st_kind st = SockFile" "ensure_flags sys (sv_fd s) flags k1 = (None, k2)"
    and ntop: "\<forall>bytes. ntop 0 bytes = None"
  shows "\<exists>c. inet_open sys ev ntop msg (is_ipaddr s) (is_port s) flags (InetServer_new i drv) k = Inr (True, c, k2) \<and>
    sv_fd c = sv_fd s \<and> isActive ev c \<and> io_watches ev (sv_io c) = (sv_fd s, uint EV_READ) \<and>
    inet_serialize ntop c = Inl Uninitialised"
proof -
  let ?x = "InetL address (is_port s) (sv_fd s)"
  have "txt = env_text [?x]" using a(1) ser by (auto simp: inet_serialize_def printed_def split: if_splits)
  then have "getSocketInet sys address (is_port s) k1 = Inr (sv_fd s)"
    using child(2-4) a(2) inet_env [of "[?x]" address sys k1 "is_port s"] by (simp add: getSocketInet_def checked_fd_def)
  then show ?thesis using a(1) fd child(1,5) ntop ev
    by (simp add: inet_open_def Let_def open_step_def open_done_def server_start_def isOpen_def isActive_def
        ev_watchers.io_start_active ev_watchers.io_start_watches ev_watchers.io_set_watches inet_serialize_def ip_str_def
        InetServer_new_def server_fields_def server.defs ip_new_def set_masks_def)
qed

definition parent :: "demo_watcher inet_server" where
  "parent = (InetServer_new idle 0)\<lparr>sv_fd := 3, is_ipaddr := localhost, is_port := 80\<rparr>"

lemma parent_text: "inet_text ''127.0.0.1'' 80 3 = ''127.0.0.1,80,3''"
  by code_simp

theorem inet_handover_witness:
  "\<exists>c. inet_open demo_net demo_ev some_ntop [] localhost 80 0 (InetServer_new idle 0) (child ''127.0.0.1,80,3'') =
     Inr (True, c, child ''127.0.0.1,80,3'') \<and> sv_fd c = 3 \<and> inet_serialize some_ntop c = Inl Uninitialised"
proof -
  let ?k = "child ''127.0.0.1,80,3''"
  have sd: "sd_listen_fds demo_net False ?k = Inr (0, ?k)"
    by (simp add: sd_listen_fds_def sd_listen_body_def demo_net_def child_def X0_LISTEN_FDS_def)
  have st: "sc_fstat demo_net (sv_fd parent) ?k = Inr \<lparr>st_kind = SockFile, st_dev = 0, st_ino = 3\<rparr>"
    by (simp add: demo_net_def child_def parent_def d_at_def new_socket_def)
  have ser: "inet_serialize some_ntop parent = Inr ''127.0.0.1,80,3''"
    by (simp add: inet_serialize_def parent_def localhost_def ip_str_def some_ntop_def parent_text printed_def)
  note idle_inactive
  moreover have "ip_str some_ntop (is_ipaddr parent) = Inr ''127.0.0.1''" "listener_ok (InetL ''127.0.0.1'' (is_port parent) (sv_fd parent))"
    by (simp_all add: parent_def localhost_def ip_str_def some_ntop_def is_int_def)
  moreover have "sc_getenv demo_net X0_LISTEN_FDS ?k = Some ''127.0.0.1,80,3''" "ensure_flags demo_net (sv_fd parent) 0 ?k = (None, ?k)"
    by (simp_all add: demo_net_def child_def ensure_flags_def)
  ultimately show ?thesis using inet_handover [OF kept_ev.ev_watchers_axioms _ _ _ ser _ _ sd _ st,
      where address = "''127.0.0.1''" and flags = 0 and i = idle and drv = 0 and msg = "[]" and ?k2.0 = ?k]
    by (auto simp: parent_def some_ntop_def AF_INET_def)
qed

end
