(* ===== verification/Unix_Server.thy ===== *)
theory Unix_Server
  imports Inet_Server
begin

text \<open>
  The server for local sockets, \<^verbatim>\<open>lib/UnixServer.cpp\<close>, built on the operations and the laws of \<^verbatim>\<open>ServerSocket\<close>. The
  system calls are the ones of an arbitrary kernel.
\<close>

section \<open>Definitions\<close>

record 'i unix_server = "'i server" +
  us_path :: string

definition UnixServer_new :: "'i \<Rightarrow> nat \<Rightarrow> 'i unix_server" where
  "UnixServer_new i drv = server.extend (server_fields i drv) \<lparr>us_path = []\<rparr>"

text \<open>What a C function sees of a \<^verbatim>\<open>std::string\<close> through \<^verbatim>\<open>c_str()\<close>.\<close>

definition as_cstr :: "string \<Rightarrow> string" where
  "as_cstr s = takeWhile (\<lambda>c. c \<noteq> NUL) s"

text \<open>All of the requested flags go to \<^verbatim>\<open>F_SETFL\<close>, also \<^verbatim>\<open>O_CLOEXEC\<close>.\<close>

definition unix_flags :: "'k netops \<Rightarrow> int \<Rightarrow> 32 word \<Rightarrow> 'k \<Rightarrow> nat option \<times> 'k" where
  "unix_flags sys fd flags k = (if flags \<noteq> 0 then add_fl sys fd flags k else (None, k))"

text \<open>
  \<^verbatim>\<open>sun_path\<close> has 108 bytes; 36 is \<^verbatim>\<open>ENAMETOOLONG\<close>. The address that is passed is the family followed by the path without
  its terminator.
\<close>

definition unix_bind :: "'k netops \<Rightarrow> string \<Rightarrow> 'i unix_server \<Rightarrow> 'k \<Rightarrow> nat option \<times> 'i unix_server \<times> 'k" where
  "unix_bind sys path s k =
     (if 108 \<le> length path then (Some 36, s, k)
      else case sc_bind sys (sv_fd s) (le16 AF_UNIX @ as_cstr path) k of
        (Inl e, k') \<Rightarrow> (Some e, s, k')
      | (Inr _, k') \<Rightarrow> (None, s\<lparr>us_path := path\<rparr>, k'))"

text \<open>
  The loop over the descriptors of the service manager. The call passes the address family where the type is
  expected and the type where the listening flag is expected; both are 1.
\<close>

fun unix_adopt :: "'k netops \<Rightarrow> string \<Rightarrow> int \<Rightarrow> nat \<Rightarrow> 'k \<Rightarrow> int option res" where
  "unix_adopt sys path fd 0 k = Inr None"
| "unix_adopt sys path fd (Suc n) k =
     bnd (sd_is_socket_unix sys fd AF_UNIX SOCK_STREAM (Some (path @ [NUL])) (length path) k) (\<lambda>r.
       if 0 < r then Inr (Some fd) else unix_adopt sys path (fd + 1) n k)"

definition no_unix_socket :: "string \<Rightarrow> string" where
  "no_unix_socket path =
     ''Running under systemd socket unit, but we received no UNIX-socket for '' @ CHR 0x22 # path @ [CHR 0x22, CHR ''.'']"

definition unix_systemd :: "'k netops \<Rightarrow> ('i, 't) evops \<Rightarrow> string \<Rightarrow> 32 word \<Rightarrow> int \<Rightarrow> 'i unix_server \<Rightarrow> 'k \<Rightarrow>
    (bool \<times> 'i unix_server \<times> 'k) res" where
  "unix_systemd sys ev path flags count s k =
     bnd (int_range (SD_LISTEN_FDS_START + count)) (\<lambda>last.
     bnd (unix_adopt sys path SD_LISTEN_FDS_START (nat count) k) (\<lambda>r.
       case r of
         Some fd \<Rightarrow> open_step sys (s\<lparr>sv_fd := fd\<rparr>) (unix_flags sys fd flags k) (open_done ev (s\<lparr>sv_fd := fd\<rparr>))
       | None \<Rightarrow> open_err sys (s\<lparr>sv_fd := last, sv_errorText := TextError (no_unix_socket path)\<rparr>) k))"

text \<open>A failing \<^verbatim>\<open>chmod\<close> is only reported.\<close>

definition unix_bind_listen :: "'k netops \<Rightarrow> ('i, 't) evops \<Rightarrow> string \<Rightarrow> 'i unix_server \<Rightarrow> 'k \<Rightarrow> (bool \<times> 'i unix_server \<times> 'k) res" where
  "unix_bind_listen sys ev path s k =
     (case unix_bind sys path s k of (e, s1, k1) \<Rightarrow>
        open_step sys s1 (e, k1) (\<lambda>k2.
          case server_listen sys (sv_backlog s1) s1 k2 of (e2, s2, k3) \<Rightarrow>
            open_step sys s2 (e2, k3) (\<lambda>k4. open_done ev s2 (snd (sc_chmod sys (as_cstr path) 438 k4)))))"

definition unix_create :: "'k netops \<Rightarrow> ('i, 't) evops \<Rightarrow> string \<Rightarrow> 32 word \<Rightarrow> 'i unix_server \<Rightarrow> 'k \<Rightarrow> (bool \<times> 'i unix_server \<times> 'k) res" where
  "unix_create sys ev path flags s k =
     (case sc_socket sys AF_UNIX (of_int SOCK_STREAM) 0 k of
        (Inl e, k1) \<Rightarrow> open_syserr sys e (s\<lparr>sv_fd := - 1\<rparr>) k1
      | (Inr fd, k1) \<Rightarrow>
          open_step sys (s\<lparr>sv_fd := fd\<rparr>) (unix_flags sys fd flags k1) (unix_bind_listen sys ev path (s\<lparr>sv_fd := fd\<rparr>)))"

definition unix_open :: "'k netops \<Rightarrow> ('i, 't) evops \<Rightarrow> string \<Rightarrow> 32 word \<Rightarrow> 'i unix_server \<Rightarrow> 'k \<Rightarrow> (bool \<times> 'i unix_server \<times> 'k) res" where
  "unix_open sys ev path flags s k =
     bnd (sd_listen_fds sys False k) (\<lambda>(count, k1).
       let s1 = set_masks flags s in
       bnd (getSocketUnix sys (as_cstr path) k1) (\<lambda>fd.
         if 0 \<le> fd
         then open_step sys (s1\<lparr>sv_fd := fd\<rparr>) (unix_flags sys fd flags k1) (open_done ev (s1\<lparr>sv_fd := fd\<rparr>))
         else if 0 < count then unix_systemd sys ev path flags count s1 k1
         else unix_create sys ev path flags s1 k1))"

definition unix_clone :: "'k netops \<Rightarrow> ('i, 't) evops \<Rightarrow> 'i \<Rightarrow> nat \<Rightarrow> 'i unix_server \<Rightarrow> 'k \<Rightarrow> ('i unix_server \<times> 'k) res" where
  "unix_clone sys ev i drv s k =
     bnd (unix_open sys ev (us_path s) (sv_flags s) (UnixServer_new i drv) k) (\<lambda>(_, c, k'). Inr (c, k'))"

definition unix_close :: "'k netops \<Rightarrow> ('i, 't) evops \<Rightarrow> 'i unix_server \<Rightarrow> 'k \<Rightarrow> 'i unix_server \<times> 'k" where
  "unix_close sys ev s k =
     (case server_close sys ev s k of (s', k') \<Rightarrow>
        (s', if us_path s' \<noteq> [] then sc_unlink sys (as_cstr (us_path s')) k' else k'))"

definition unix_createSocket :: "'i \<Rightarrow> 't \<Rightarrow> int \<Rightarrow> ('i, 't) socket" where
  "unix_createSocket i t cfd = driver_create i t cfd"

definition unix_serialize :: "'i unix_server \<Rightarrow> string res" where
  "unix_serialize s = printed 4096 (unix_text (as_cstr (us_path s)) (sv_fd s))"

section \<open>Laws\<close>

context net_env
begin

lemma unix_flags_keeps: "fds (snd (unix_flags sys fd flags k)) = fds k"
  by (simp add: unix_flags_def add_fl_keeps)

lemma unix_adopt_range: "unix_adopt sys path fd n k = Inr (Some x) \<Longrightarrow> fd \<le> x"
  by (induction n arbitrary: fd) (auto simp: bnd_eq_Inr split: if_splits, fastforce)

lemma unix_bind_cases:
  assumes "unix_bind sys path s k = (e, s', k')"
  shows "fds k' = fds k \<and> sv_fd s' = sv_fd s \<and> sv_io s' = sv_io s \<and> (e = None \<longrightarrow> us_path s' = path)"
  using assms bind_keeps [of "sv_fd s" "le16 AF_UNIX @ as_cstr path" k]
  by (cases "sc_bind sys (sv_fd s) (le16 AF_UNIX @ as_cstr path) k";
      cases "fst (sc_bind sys (sv_fd s) (le16 AF_UNIX @ as_cstr path) k)")
    (auto simp: unix_bind_def split: if_splits)

lemma unix_bind_listen_post:
  assumes o: "mid_open fds ev k s k1"
  shows "open_post fds ev k (unix_bind_listen sys ev path s k1)"
proof -
  obtain e s1 k2 where b: "unix_bind sys path s k1 = (e, s1, k2)" by (metis prod_cases3)
  note B = unix_bind_cases [OF b]
  have o1: "mid_open fds ev k s1 k2" using o B by (simp add: mid_open_def isActive_def)
  show ?thesis unfolding unix_bind_listen_def b prod.case
  proof (rule open_step_post [OF o1])
    fix k3 assume o3: "mid_open fds ev k s1 k3"
    obtain e2 s2 k4 where l: "server_listen sys (sv_backlog s1) s1 k3 = (e2, s2, k4)" by (metis prod_cases3)
    then have o4: "mid_open fds ev k s2 k4" using server_listen_cases [OF l] o3 by (simp add: mid_open_def isActive_def)
    show "open_post fds ev k (case server_listen sys (sv_backlog s1) s1 k3 of (e2, s2, k3) \<Rightarrow>
        open_step sys s2 (e2, k3) (\<lambda>k4. open_done ev s2 (snd (sc_chmod sys (as_cstr path) 438 k4))))"
      unfolding l prod.case by (intro open_step_post [OF o4] open_done_post mid_open_keeps [OF _ chmod_keeps]) simp_all
  qed simp
qed

lemma unix_create_post:
  assumes s: "\<not> isActive ev s" and k1: "fds k1 = fds k"
  shows "open_post fds ev k (unix_create sys ev path flags s k1)"
proof -
  obtain r k2 where so: "sc_socket sys AF_UNIX (of_int SOCK_STREAM) 0 k1 = (r, k2)" by (rule prod.exhaust)
  show ?thesis
  proof (cases r)
    case (Inl e)
    then show ?thesis using so s k1 socket_fails [OF so [unfolded Inl]]
      by (auto simp: unix_create_def isActive_def intro!: open_fail_post)
  next
    case (Inr fd)
    have "mid_open fds ev k (s\<lparr>sv_fd := fd\<rparr>) k2"
      using socket_new [OF so [unfolded Inr]] s k1 by (auto simp: mid_open_def isActive_def)
    then show ?thesis unfolding unix_create_def so Inr prod.case sum.case
      by (rule open_step_post [OF _ unix_flags_keeps unix_bind_listen_post])
  qed
qed

lemma unix_systemd_post:
  assumes s: "\<not> isActive ev s" and k1: "fds k1 = fds k" and n: "0 < count" "count < 2147483645"
    and a: "unix_adopt sys path 3 (nat count) k1 = Inr r"
  shows "open_post fds ev k (unix_systemd sys ev path flags count s k1)"
proof -
  have i: "int_range (SD_LISTEN_FDS_START + count) = Inr (3 + count)" using n by (simp add: int_range_def SD_LISTEN_FDS_START_def)
  have a3: "unix_adopt sys path SD_LISTEN_FDS_START (nat count) k1 = Inr r" using a by (simp add: SD_LISTEN_FDS_START_def)
  show ?thesis
  proof (cases r)
    case None
    then show ?thesis using i a3 s k1 n
      by (auto simp: unix_systemd_def open_err_def open_post_def isActive_def close_removes)
  next
    case (Some fd)
    then have "0 \<le> fd" using unix_adopt_range a by fastforce
    note o = inet_adopted_post [OF s k1 this]
    show ?thesis unfolding unix_systemd_def i a3 Some bnd.simps option.case
      by (rule open_step_post [OF o unix_flags_keeps open_done_post])
  qed
qed

lemma unix_open_post:
  assumes s: "\<not> isActive ev s" and sd: "sd_listen_fds sys False k = Inr (count, k1)" "count < 2147483645"
    and g: "getSocketUnix sys (as_cstr path) k1 = Inr fd" and a: "unix_adopt sys path 3 (nat count) k1 = Inr r"
  shows "open_post fds ev k (unix_open sys ev path flags s k)"
proof -
  have k1: "fds k1 = fds k" by (rule sd_listen_keeps [OF sd(1)])
  have s1: "\<not> isActive ev (set_masks flags s)" using s by (simp add: isActive_def set_masks_def)
  show ?thesis
  proof (cases "0 \<le> fd")
    case True
    note o = inet_adopted_post [OF s1 k1 True]
    show ?thesis using True unfolding unix_open_def sd(1) bnd.simps prod.case Let_def g
      by (simp, intro open_step_post [OF o unix_flags_keeps open_done_post])
  next
    case False
    then show ?thesis using unix_systemd_post [OF s1 k1 _ sd(2) a] unix_create_post [OF s1 k1]
      by (simp add: unix_open_def Let_def sd(1) g)
  qed
qed

end

definition unix_ready :: "string \<Rightarrow> 'k netops \<Rightarrow> 'k \<Rightarrow> bool" where
  "unix_ready path sys k \<longleftrightarrow> (\<exists>count k1 fd r. sd_listen_fds sys False k = Inr (count, k1) \<and> count < 2147483645 \<and>
     getSocketUnix sys (as_cstr path) k1 = Inr fd \<and> unix_adopt sys path 3 (nat count) k1 = Inr r)"

lemma unix_ready_post: "net_env sys fds ev \<Longrightarrow> \<not> isActive ev s \<Longrightarrow> unix_ready path sys k \<Longrightarrow>
    open_post fds ev k (unix_open sys ev path flags s k)"
  unfolding unix_ready_def by (elim conjE exE) (rule net_env.unix_open_post)

lemma unix_close_law:
  assumes env: "net_env sys fds ev" and s: "0 \<le> sv_fd s" "unix_close sys ev s k = (s', k')"
  shows "sv_fd s' = - 1 \<and> \<not> isActive ev s' \<and> fds k' = fds k - {sv_fd s}"
proof -
  obtain s1 k1 where c: "server_close sys ev s k = (s1, k1)" by (rule prod.exhaust)
  then have "s1 = s'" "fds k' = fds k1"
    using s(2) fd_table.unlink_keeps [OF net_env.axioms(1) [OF env]] by (auto simp: unix_close_def split: if_splits)
  then show ?thesis using net_env.server_close_law [OF env s(1) c] by simp
qed

interpretation uds: listener_contract "unix_ready path" "\<lambda>sys ev. unix_open sys ev path flags" unix_close for path flags
  by (unfold_locales, erule (2) unix_ready_post, erule (2) unix_close_law)

lemma open_step_True: "open_step sys s r f = Inr (True, s', k') \<Longrightarrow> \<exists>k1. f k1 = Inr (True, s', k')"
  by (auto simp: open_step_def open_syserr_def open_err_def split: prod.splits option.splits if_splits)

lemma open_done_True: "open_done ev s k = Inr (ok, s', k') \<Longrightarrow> ok \<and> sv_fd s' = sv_fd s"
  by (auto simp: open_done_def server_start_def assertC_def bnd_eq_Inr split: if_splits)

lemma unix_create_long: "108 \<le> length path \<Longrightarrow> unix_create sys ev path flags s k \<noteq> Inr (True, s', k')"
proof
  assume p: "108 \<le> length path" and c: "unix_create sys ev path flags s k = Inr (True, s', k')"
  then obtain s1 k1 where "unix_bind_listen sys ev path s1 k1 = Inr (True, s', k')"
    by (auto simp: unix_create_def open_syserr_def open_err_def split: prod.splits sum.splits if_splits dest!: open_step_True)
  then show False using p
    by (auto simp: unix_bind_listen_def unix_bind_def open_step_def open_syserr_def open_err_def split: if_splits)
qed

lemma unix_long_path:
  assumes "unix_open sys ev path flags s k = Inr (ok, s', k')"
  shows "108 \<le> length path \<and> ok \<longrightarrow> (\<exists>count k1. sd_listen_fds sys False k = Inr (count, k1) \<and>
    (getSocketUnix sys (as_cstr path) k1 = Inr (sv_fd s') \<or> unix_adopt sys path 3 (nat count) k1 = Inr (Some (sv_fd s'))))"
proof
  assume p: "108 \<le> length path \<and> ok"
  obtain count k1 fd where sd: "sd_listen_fds sys False k = Inr (count, k1)" "getSocketUnix sys (as_cstr path) k1 = Inr fd"
    using assms by (auto simp: unix_open_def Let_def bnd_eq_Inr)
  note u = assms [unfolded unix_open_def Let_def sd bnd.simps prod.case]
  have "unix_adopt sys path 3 (nat count) k1 = Inr (Some (sv_fd s'))" if "\<not> 0 \<le> fd"
  proof -
    have "unix_systemd sys ev path flags count (set_masks flags s) k1 = Inr (True, s', k')"
      using u that p unix_create_long [of path sys ev flags "set_masks flags s" k1 s' k'] by (auto split: if_splits)
    then show ?thesis
      by (auto simp: unix_systemd_def bnd_eq_Inr SD_LISTEN_FDS_START_def open_err_def split: option.splits if_splits
          dest!: open_step_True open_done_True)
  qed
  moreover have "sv_fd s' = fd" if "0 \<le> fd"
    using u that p by (auto dest!: open_step_True open_done_True)
  ultimately show "\<exists>count k1. sd_listen_fds sys False k = Inr (count, k1) \<and>
    (getSocketUnix sys (as_cstr path) k1 = Inr (sv_fd s') \<or> unix_adopt sys path 3 (nat count) k1 = Inr (Some (sv_fd s')))"
    using sd by auto
qed

section \<open>Properties\<close>

text \<open>
  C13. Opening a server for a path, whatever the kernel answers on the way: either \<^verbatim>\<open>open\<close> returns true with a watched
  descriptor, no other descriptor was opened, and \<^verbatim>\<open>close\<close> undoes it; or it returns false, the server is closed, and
  no descriptor was left open. A path of 108 or more bytes always fails, unless the socket was passed to the process.
\<close>

theorem unix_open_outcome:
  assumes env: "net_env sys fds ev" and s: "\<not> isActive ev s" and r: "unix_ready path sys k"
  shows "\<exists>ok s' k'. unix_open sys ev path flags s k = Inr (ok, s', k') \<and>
    (if ok then 0 \<le> sv_fd s' \<and> isActive ev s' \<and> io_watches ev (sv_io s') = (sv_fd s', uint EV_READ) \<and>
       fds k \<subseteq> fds k' \<and> fds k' \<subseteq> insert (sv_fd s') (fds k) \<and>
       (\<exists>s'' k''. unix_close sys ev s' k' = (s'', k'') \<and> sv_fd s'' = - 1 \<and> \<not> isActive ev s'' \<and> fds k'' = fds k - {sv_fd s'})
     else sv_fd s' < 0 \<and> \<not> isActive ev s' \<and> fds k' \<subseteq> fds k) \<and>
    (108 \<le> length path \<and> ok \<longrightarrow> sv_fd s' \<in> {fd. \<exists>count k1. sd_listen_fds sys False k = Inr (count, k1) \<and>
       (getSocketUnix sys (as_cstr path) k1 = Inr fd \<or> unix_adopt sys path 3 (nat count) k1 = Inr (Some fd))})"
proof -
  obtain ok s' k' where o: "unix_open sys ev path flags s k = Inr (ok, s', k')"
    using unix_ready_post [OF env s r, of flags] by (auto simp: open_post_def)
  show ?thesis using uds.open_close [OF env s r, of flags] unix_long_path [OF o] o by simp
qed

lemma local_blank: "unix_ready path demo_net blank_process" "\<not> isActive demo_ev (UnixServer_new idle 0)"
proof -
  have "getSocketUnix demo_net (as_cstr path) blank_process = Inr (- 1)"
    by (simp add: getSocketUnix_def demo_net_def blank_process_def)
  then show "unix_ready path demo_net blank_process" unfolding unix_ready_def using blank_sd
    by (intro exI [of _ 0] exI [of _ blank_process] exI [of _ "- 1"] exI [of _ None]) simp
qed (simp add: isActive_def UnixServer_new_def server_fields_def server.defs demo_ev_def idle_def)

theorem unix_open_outcome_witness:
  "\<exists>s' k'. unix_open demo_net demo_ev (replicate 200 CHR ''x'') 0 (UnixServer_new idle 0) blank_process = Inr (False, s', k') \<and>
     sv_fd s' < 0 \<and> d_open k' \<subseteq> d_open blank_process"
proof -
  let ?p = "replicate 200 CHR ''x''"
  have no: "getSocketUnix demo_net (as_cstr ?p) blank_process = Inr (- 1)"
    by (simp add: getSocketUnix_def demo_net_def blank_process_def)
  obtain ok s' k' where o: "unix_open demo_net demo_ev ?p 0 (UnixServer_new idle 0) blank_process = Inr (ok, s', k')"
      "if ok then 0 \<le> sv_fd s' else sv_fd s' < 0 \<and> d_open k' \<subseteq> d_open blank_process"
      "ok \<longrightarrow> sv_fd s' = - 1"
    using unix_open_outcome [OF demo_env.net_env_axioms local_blank(2) local_blank(1) [of ?p], of 0]
    by (elim exE conjE) (rule that, assumption, auto simp: blank_sd no split: if_splits)
  then have "\<not> ok" by auto
  then show ?thesis using o by auto
qed

end
