(* ===== verification/File_Manager.thy ===== *)
theory File_Manager
  imports Net_Kernel
begin

text \<open>
  The cache of file information, \<^verbatim>\<open>lib/FileMgr.cpp\<close> and \<^verbatim>\<open>include/xio/FileMgr.h\<close>. The sources are kept beside the
  library but are not part of its build; the class \<^verbatim>\<open>FileInfo\<close>, the function \<^verbatim>\<open>read_file\<close> and the tokenizer they use are not in the
  repository, so they are the parameters \<open>examine\<close>, \<open>read_file\<close> and \<open>tokenize\<close>. The inotify code is disabled by the file itself and is not
  modelled.
\<close>

section \<open>Definitions\<close>

record fm_config =
  etagConsiderMtime :: bool
  etagConsiderSize :: bool
  etagConsiderInode :: bool
  fc_mimetypes :: "string \<Rightarrow> string option"
  defaultMimetype :: string
  cacheTTL :: int

definition Config_new :: fm_config where
  "Config_new = \<lparr>etagConsiderMtime = True, etagConsiderSize = True, etagConsiderInode = False, fc_mimetypes = Map.empty,
     defaultMimetype = ''text/plain'', cacheTTL = 10\<rparr>"

record file_info =
  fn_mtime :: int
  fn_size :: nat
  fn_ino :: nat
  fn_cachedAt :: rat
  fn_inotifyId :: int
  fn_mimetype :: string
  fn_etag :: string

text \<open>\<^verbatim>\<open>std::string::find_last_of\<close> of one character.\<close>

definition find_last_of :: "char \<Rightarrow> string \<Rightarrow> nat" where
  "find_last_of c s = (if c \<in> set s then length s - 1 - length (takeWhile (\<lambda>d. d \<noteq> c) (rev s)) else npos)"

text \<open>The loop over an extension, which drops trailing tildes.\<close>

function mime_loop :: "fm_config \<Rightarrow> string \<Rightarrow> string" where
  "mime_loop cfg ext =
     (if ext = [] then defaultMimetype cfg
      else case fc_mimetypes cfg ext of
        Some m \<Rightarrow> m
      | None \<Rightarrow> if last ext \<noteq> CHR ''~'' then defaultMimetype cfg else mime_loop cfg (butlast ext))"
  by auto
termination by (relation "measure (\<lambda>(cfg, ext). length ext)") auto

declare mime_loop.simps [simp del]

definition get_mimetype :: "fm_config \<Rightarrow> string \<Rightarrow> string" where
  "get_mimetype cfg filename =
     (let ndot = find_last_of CHR ''.'' filename; nslash = find_last_of CHR ''/'' filename in
      if ndot \<noteq> npos \<and> nslash < ndot then mime_loop cfg (drop (ndot + 1) filename) else defaultMimetype cfg)"

text \<open>
  \<^verbatim>\<open>loadMimetypes\<close>: a line has a type and its extensions, unless it is a comment; \<open>tokenize\<close> splits at the characters it is given, and
  \<open>strip\<close> is what \<^verbatim>\<open>BufferRef::trim\<close> computes.
\<close>

definition load_line :: "(string \<Rightarrow> string \<Rightarrow> string list) \<Rightarrow> string \<Rightarrow> (string \<Rightarrow> string option) \<Rightarrow> string \<Rightarrow> string option" where
  "load_line tokenize line m =
     (case tokenize (strip line) [CHR '' '', CHR 0x09] of
        [] \<Rightarrow> m
      | mime # exts \<Rightarrow> if mime \<noteq> [] \<and> hd mime \<noteq> CHR ''#'' then fold (\<lambda>ext m. m(ext \<mapsto> mime)) exts m else m)"

definition loadMimetypes :: "(string \<Rightarrow> char list) \<Rightarrow> (string \<Rightarrow> string \<Rightarrow> string list) \<Rightarrow> string \<Rightarrow> fm_config \<Rightarrow> fm_config" where
  "loadMimetypes read_file tokenize filename cfg =
     cfg\<lparr>fc_mimetypes := fold (load_line tokenize) (tokenize (read_file filename) [CHR 0x0A]) Map.empty\<rparr>"

text \<open>The parts of an entity tag, each but the first one after a dash.\<close>

fun etag_parts :: "string list \<Rightarrow> string" where
  "etag_parts [] = []"
| "etag_parts [x] = x"
| "etag_parts (x # xs) = x @ CHR ''-'' # etag_parts xs"

definition make_etag :: "fm_config \<Rightarrow> file_info \<Rightarrow> string" where
  "make_etag cfg fi =
     CHR 0x22 # etag_parts
       ((if etagConsiderMtime cfg then [show_int (fn_mtime fi)] else []) @
        (if etagConsiderSize cfg then [show_nat (fn_size fi)] else []) @
        (if etagConsiderInode cfg then [show_nat (fn_ino fi)] else [])) @ [CHR 0x22]"

text \<open>\<open>now\<close> is the time of the event loop.\<close>

definition fm_isValid :: "fm_config \<Rightarrow> rat \<Rightarrow> file_info \<Rightarrow> bool" where
  "fm_isValid cfg now fi \<longleftrightarrow> 0 < fn_inotifyId fi \<or> now < fn_cachedAt fi + of_int (cacheTTL cfg)"

type_synonym fm_cache = "string \<Rightarrow> file_info option"

definition fm_key :: "string \<Rightarrow> string res" where
  "fm_key name = (if name = [] then Inl OutOfBounds else Inr (if last name = CHR ''/'' then butlast name else name))"

definition fm_query :: "fm_config \<Rightarrow> (string \<Rightarrow> 'k \<Rightarrow> file_info \<times> 'k) \<Rightarrow> rat \<Rightarrow> string \<Rightarrow> fm_cache \<Rightarrow> 'k \<Rightarrow>
    (file_info \<times> fm_cache \<times> 'k) res" where
  "fm_query cfg examine now name cache k =
     bnd (fm_key name) (\<lambda>filename.
       case cache filename of
         Some fi \<Rightarrow>
           if fm_isValid cfg now fi then Inr (fi, cache, k)
           else (case examine filename k of (fi, k') \<Rightarrow>
             let fi' = fi\<lparr>fn_mimetype := get_mimetype cfg filename, fn_etag := make_etag cfg fi\<rparr> in
             Inr (fi', (cache(filename := None))(filename \<mapsto> fi'), k'))
       | None \<Rightarrow>
           (case examine filename k of (fi, k') \<Rightarrow>
             let fi' = fi\<lparr>fn_mimetype := get_mimetype cfg filename, fn_etag := make_etag cfg fi\<rparr> in
             Inr (fi', cache(filename \<mapsto> fi'), k')))"

text \<open>The call operator, and the constructor as far as it is compiled.\<close>

definition fm_call :: "fm_config \<Rightarrow> (string \<Rightarrow> 'k \<Rightarrow> file_info \<times> 'k) \<Rightarrow> rat \<Rightarrow> string \<Rightarrow> fm_cache \<Rightarrow> 'k \<Rightarrow>
    (file_info \<times> fm_cache \<times> 'k) res" where
  "fm_call cfg examine now name cache k = fm_query cfg examine now name cache k"

definition FileMgr_new :: fm_cache where
  "FileMgr_new = Map.empty"

definition fm_empty :: "fm_cache \<Rightarrow> bool" where
  "fm_empty cache \<longleftrightarrow> cache = Map.empty"

definition fm_size :: "fm_cache \<Rightarrow> nat" where
  "fm_size cache = card (dom cache)"

section \<open>Lemmas\<close>

lemma find_last_of_split: "c \<notin> set b \<Longrightarrow> find_last_of c (a @ c # b) = length a"
  by (simp add: find_last_of_def takeWhile_append)

lemma last_split:
  assumes "c \<notin> set ys" "c \<notin> set ys'"
  shows "xs @ c # ys = xs' @ c # ys' \<longleftrightarrow> xs = xs' \<and> ys = ys'"
proof
  assume e: "xs @ c # ys = xs' @ c # ys'"
  have t: "takeWhile (\<lambda>d. d \<noteq> c) (rev (us @ c # vs)) = rev vs" if "c \<notin> set vs" for us vs
    using that by (simp add: takeWhile_append)
  have "ys = ys'" using t [OF assms(1), of xs] t [OF assms(2), of xs'] e by simp
  then show "xs = xs' \<and> ys = ys'" using e by simp
qed simp

lemma show_nat_no_dash: "CHR ''-'' \<notin> set (show_nat n)"
  using show_nat_isdigit [of n] by (auto simp: isdigit_def)

lemma last_split3:
  assumes "c \<notin> set ys" "c \<notin> set ys'" "c \<notin> set zs" "c \<notin> set zs'"
  shows "xs @ c # ys @ c # zs = xs' @ c # ys' @ c # zs' \<longleftrightarrow> xs = xs' \<and> ys = ys' \<and> zs = zs'"
  using last_split [OF assms(3,4), of "xs @ c # ys" "xs' @ c # ys'"] last_split [OF assms(1,2), of xs xs'] by simp

lemma show_nat_inject: "show_nat m = show_nat n \<longleftrightarrow> m = n"
  using digits_val_show_nat by metis

lemma show_int_inject: "show_int i = show_int j \<longleftrightarrow> i = j"
proof -
  have "CHR ''-'' # t \<noteq> show_nat n" "show_nat n \<noteq> CHR ''-'' # t" for t n using show_nat_no_dash [of n] by (metis list.set_intros(1))+
  then show ?thesis by (auto simp: show_int_def show_nat_inject)
qed

lemma mime_loop_tildes:
  "fc_mimetypes cfg ext = Some m \<Longrightarrow> ext \<noteq> [] \<Longrightarrow> \<forall>i < n. fc_mimetypes cfg (ext @ replicate (Suc i) CHR ''~'') = None \<Longrightarrow>
   mime_loop cfg (ext @ replicate n CHR ''~'') = m"
proof (induction n)
  case (Suc n)
  let ?e = "ext @ replicate (Suc n) CHR ''~''"
  have "butlast ?e = ext @ replicate n CHR ''~''" "last ?e = CHR ''~''"
    by (simp_all add: butlast_append replicate_append_same [symmetric])
  moreover have "fc_mimetypes cfg ?e = None" using Suc.prems(3) by blast
  ultimately show ?case using Suc by (subst mime_loop.simps) simp
qed (simp add: mime_loop.simps)

section \<open>Properties\<close>

text \<open>
  C34. Entity tags identify what they are configured to consider: two files have the same tag exactly if they agree
  in modification time, size and inode number, as far as these are switched on.
\<close>

theorem etag_identifies:
  "make_etag cfg a = make_etag cfg b \<longleftrightarrow>
     (etagConsiderMtime cfg \<longrightarrow> fn_mtime a = fn_mtime b) \<and> (etagConsiderSize cfg \<longrightarrow> fn_size a = fn_size b) \<and>
     (etagConsiderInode cfg \<longrightarrow> fn_ino a = fn_ino b)"
  by (cases "etagConsiderMtime cfg"; cases "etagConsiderSize cfg"; cases "etagConsiderInode cfg")
    (simp_all add: make_etag_def last_split last_split3 show_nat_no_dash show_nat_inject show_int_inject)

theorem etag_identifies_witness:
  "make_etag Config_new \<lparr>fn_mtime = 1, fn_size = 2, fn_ino = 3, fn_cachedAt = 0, fn_inotifyId = 0, fn_mimetype = [], fn_etag = []\<rparr> \<noteq>
   make_etag Config_new \<lparr>fn_mtime = 1, fn_size = 5, fn_ino = 3, fn_cachedAt = 0, fn_inotifyId = 0, fn_mimetype = [], fn_etag = []\<rparr>"
  by (simp add: etag_identifies Config_new_def)

lemma mimetype_found:
  assumes ext: "fc_mimetypes cfg ext = Some m" "ext \<noteq> []" "\<forall>i < n. fc_mimetypes cfg (ext @ replicate (Suc i) CHR ''~'') = None"
    and chars: "CHR ''.'' \<notin> set ext" "CHR ''/'' \<notin> set (base @ ext)" and len: "length (dir @ base @ ext) + n + 2 < npos"
  shows "get_mimetype cfg (dir @ ''/'' @ base @ ''.'' @ ext @ replicate n CHR ''~'') = m"
proof -
  let ?x = "ext @ replicate n CHR ''~''"
  have e: "CHR ''.'' \<notin> set ?x" "CHR ''/'' \<notin> set (base @ ''.'' @ ?x)" using chars by auto
  have "find_last_of CHR ''.'' (dir @ ''/'' @ base @ ''.'' @ ?x) = length (dir @ ''/'' @ base)"
    using find_last_of_split [OF e(1), of "dir @ ''/'' @ base"] by simp
  moreover have "find_last_of CHR ''/'' (dir @ ''/'' @ base @ ''.'' @ ?x) = length dir"
    using find_last_of_split [OF e(2), of dir] by simp
  ultimately show ?thesis using len mime_loop_tildes [OF ext] by (simp add: get_mimetype_def)
qed

lemma load_line_hit:
  assumes "tokenize (strip line) [CHR '' '', CHR 0x09] = mime # exts" "mime \<noteq> []" "hd mime \<noteq> CHR ''#''" "ext \<in> set exts"
  shows "load_line tokenize line m ext = Some mime"
proof -
  have "(x \<in> set es \<or> m x = Some mime) \<Longrightarrow> fold (\<lambda>ext m. m(ext \<mapsto> mime)) es m x = Some mime" for es x and m :: "string \<Rightarrow> string option"
    by (induction es arbitrary: m) auto
  then show ?thesis using assms by (simp add: load_line_def)
qed

lemma load_lines_skip:
  assumes "\<forall>x \<in> set post. ext \<notin> set (tl (tokenize (strip x) [CHR '' '', CHR 0x09]))"
  shows "fold (load_line tokenize) post m ext = m ext"
proof -
  have keep: "x \<notin> set es \<Longrightarrow> fold (\<lambda>ext m. m(ext \<mapsto> mime)) es m x = m x" for es x mime and m :: "string \<Rightarrow> string option"
    by (induction es arbitrary: m) auto
  have "load_line tokenize x m ext = m ext" if "x \<in> set post" for x m
    using assms that keep [of ext] by (auto simp: load_line_def split: list.splits)
  then show ?thesis by (induction post arbitrary: m) simp_all
qed

text \<open>
  C35. The type of a file in a directory is that of its extension, also if tildes follow it; but the comparison with
  the position of a slash that is not there makes every name without a slash have the default type.
\<close>

theorem mimetype_of_extension:
  assumes ext: "fc_mimetypes cfg ext = Some m" "ext \<noteq> []" "\<forall>i < n. fc_mimetypes cfg (ext @ replicate (Suc i) CHR ''~'') = None"
    and chars: "CHR ''.'' \<notin> set ext" "CHR ''/'' \<notin> set (base @ ext)" and len: "length (dir @ base @ ext) + n + 2 < npos"
  shows "get_mimetype cfg (dir @ ''/'' @ base @ ''.'' @ ext @ replicate n CHR ''~'') = m \<and>
    get_mimetype cfg (base @ ''.'' @ ext @ replicate n CHR ''~'') = defaultMimetype cfg"
proof -
  let ?x = "ext @ replicate n CHR ''~''"
  have e: "CHR ''.'' \<notin> set ?x" "CHR ''/'' \<notin> set (base @ ''.'' @ ?x)" using chars by auto
  have "find_last_of CHR ''.'' (base @ ''.'' @ ?x) = length base" "find_last_of CHR ''/'' (base @ ''.'' @ ?x) = npos"
    using find_last_of_split [OF e(1), of base] e(2) by (simp_all add: find_last_of_def)
  then show ?thesis using len mimetype_found [OF ext chars len] by (simp add: get_mimetype_def)
qed

theorem mimetype_of_extension_witness:
  "get_mimetype (Config_new\<lparr>fc_mimetypes := [''html'' \<mapsto> ''text/html'']\<rparr>) ''/a/b.html~'' = ''text/html'' \<and>
   get_mimetype (Config_new\<lparr>fc_mimetypes := [''html'' \<mapsto> ''text/html'']\<rparr>) ''b.html~'' = ''text/plain''"
  using mimetype_of_extension [of "Config_new\<lparr>fc_mimetypes := [''html'' \<mapsto> ''text/html'']\<rparr>" "''html''" "''text/html''" 1 "''b''" "''/a''"]
  by (simp add: Config_new_def npos_def)

text \<open>
  The table of types that \<^verbatim>\<open>loadMimetypes\<close> builds: a file in a directory has the type of the last line of the table that lists its
  extension.
\<close>

theorem mimetypes_loaded:
  assumes l: "tokenize (read_file tab) [CHR 0x0A] = pre @ line # post" and t: "tokenize (strip line) [CHR '' '', CHR 0x09] = mime # exts"
    and m: "mime \<noteq> []" "hd mime \<noteq> CHR ''#''" "ext \<in> set exts"
    and p: "\<forall>x \<in> set post. ext \<notin> set (tl (tokenize (strip x) [CHR '' '', CHR 0x09]))"
    and chars: "ext \<noteq> []" "CHR ''.'' \<notin> set ext" "CHR ''/'' \<notin> set (base @ ext)" and len: "length (dir @ base @ ext) + 2 < npos"
  shows "get_mimetype (loadMimetypes read_file tokenize tab cfg) (dir @ ''/'' @ base @ ''.'' @ ext) = mime"
proof -
  have "fc_mimetypes (loadMimetypes read_file tokenize tab cfg) ext = Some mime"
    using load_lines_skip [of post ext tokenize, OF p] load_line_hit [of tokenize line, OF t m] l by (simp add: loadMimetypes_def)
  from mimetype_found [OF this chars(1) _ chars(2,3), of 0 dir] len show ?thesis by simp
qed

theorem mimetypes_loaded_witness:
  "get_mimetype (loadMimetypes (\<lambda>_. ''t html'') (\<lambda>s d. if d = [CHR 0x0A] then [s] else [takeWhile (\<lambda>c. c \<noteq> CHR '' '') s, tl (dropWhile (\<lambda>c. c \<noteq> CHR '' '') s)])
     ''types'' Config_new) ''/a/b.html'' = ''t''"
proof -
  let ?tok = "\<lambda>s d. if d = [CHR 0x0A] then [s] else [takeWhile (\<lambda>c. c \<noteq> CHR '' '') s, tl (dropWhile (\<lambda>c. c \<noteq> CHR '' '') s)]"
  have "?tok ((\<lambda>_. ''t html'') ''types'') [CHR 0x0A] = [] @ ''t html'' # []"
    "?tok (strip ''t html'') [CHR '' '', CHR 0x09] = ''t'' # [''html'']" by (simp_all add: strip_def isspace_def)
  from mimetypes_loaded [of ?tok "\<lambda>_. ''t html''", OF this, where ext = "''html''" and base = "''b''" and dir = "''/a''" and cfg = Config_new]
  show ?thesis by (simp add: npos_def)
qed

text \<open>
  The cache: what a query returned is returned again, with no access to the file, for the same name or the name with
  another slash at its end, until it expires; after that the file is examined again.
\<close>

theorem fm_query_cached:
  assumes q: "fm_query cfg examine now name cache k = Inr (fi, cache', k')" and same: "fm_key other = fm_key name"
  shows "fm_query cfg examine later other cache' k2 =
    (if fm_isValid cfg later fi then Inr (fi, cache', k2)
     else fm_query cfg examine later other (\<lambda>x. if Inr x = fm_key name then None else cache' x) k2)"
proof -
  obtain key where key: "fm_key name = Inr key" using q by (auto simp: fm_query_def bnd_eq_Inr)
  have "cache' key = Some fi"
    using q key by (auto simp: fm_query_def Let_def split: option.splits if_splits prod.splits)
  moreover have "cache'(key \<mapsto> x) = (\<lambda>y. if y = key then None else cache' y)(key \<mapsto> x)" for x by auto
  ultimately show ?thesis using key same by (auto simp: fm_query_def Let_def split: prod.splits)
qed

theorem fm_query_cached_witness:
  "\<exists>fi cache'. fm_query Config_new (\<lambda>n k. (\<lparr>fn_mtime = 1, fn_size = 2, fn_ino = 3, fn_cachedAt = 5, fn_inotifyId = 0, fn_mimetype = [], fn_etag = []\<rparr>, Suc k))
       5 ''/d/'' Map.empty (0 :: nat) = Inr (fi, cache', Suc 0) \<and>
     fm_query Config_new (\<lambda>n k. (\<lparr>fn_mtime = 1, fn_size = 2, fn_ino = 3, fn_cachedAt = 5, fn_inotifyId = 0, fn_mimetype = [], fn_etag = []\<rparr>, Suc k))
       7 ''/d'' cache' (Suc 0) = Inr (fi, cache', Suc 0)"
proof -
  let ?x = "\<lambda>n k. (\<lparr>fn_mtime = 1, fn_size = 2, fn_ino = 3, fn_cachedAt = 5, fn_inotifyId = 0, fn_mimetype = [], fn_etag = []\<rparr>, Suc k)"
  obtain fi c where q: "fm_query Config_new ?x 5 ''/d/'' Map.empty 0 = Inr (fi, c, Suc 0)" "fn_cachedAt fi = 5"
    by (simp add: fm_query_def fm_key_def Let_def)
  have "fm_isValid Config_new 7 fi" using q(2) by (simp add: fm_isValid_def Config_new_def)
  then show ?thesis using q fm_query_cached [OF q(1), of "''/d''" 7 "Suc 0"] by (auto simp: fm_key_def)
qed

end
