(* ===== verification/File_Stream.thy ===== *)
theory File_Stream
  imports Net_Kernel
begin

text \<open>
  Files: the stream over a file descriptor, \<^verbatim>\<open>lib/FileStream.cpp\<close>, and the class \<^verbatim>\<open>File\<close> with its change notification,
  \<^verbatim>\<open>lib/File.cpp\<close>. The system calls are a record of an arbitrary kernel; the locale \<open>watch_table\<close> states what
  \<^verbatim>\<open>inotify(7)\<close> documents of watches.
\<close>

section \<open>FileStream\<close>

record 'k fileops =
  fo_open :: "string \<Rightarrow> nat \<Rightarrow> 'k \<Rightarrow> (nat + int) \<times> 'k"
  fo_close :: "int \<Rightarrow> 'k \<Rightarrow> 'k"
  fo_size :: "int \<Rightarrow> 'k \<Rightarrow> nat + nat"
  fo_inotify_init :: "nat \<Rightarrow> 'k \<Rightarrow> (nat + int) \<times> 'k"
  fo_add_watch :: "int \<Rightarrow> string \<Rightarrow> nat \<Rightarrow> 'k \<Rightarrow> (nat + int) \<times> 'k"
  fo_rm_watch :: "int \<Rightarrow> int \<Rightarrow> 'k \<Rightarrow> 'k"

text \<open>The value of a call that returns a descriptor.\<close>

fun fd_of :: "nat + int \<Rightarrow> int" where
  "fd_of (Inl e) = - 1"
| "fd_of (Inr fd) = fd"

record filestream =
  fl_fd :: int

definition FileStream_new :: "int \<Rightarrow> filestream" where
  "FileStream_new fd = \<lparr>fl_fd = fd\<rparr>"

definition FileStream_destroy :: "'k fileops \<Rightarrow> filestream \<Rightarrow> 'k \<Rightarrow> 'k" where
  "FileStream_destroy fo s k = (if 0 \<le> fl_fd s then fo_close fo (fl_fd s) k else k)"

definition fl_size :: "'k fileops \<Rightarrow> filestream \<Rightarrow> 'k \<Rightarrow> nat" where
  "fl_size fo s k = (case fo_size fo (fl_fd s) k of Inl e \<Rightarrow> 0 | Inr n \<Rightarrow> n)"

definition fl_read :: "'k sysops \<Rightarrow> ptr \<Rightarrow> nat \<Rightarrow> filestream \<Rightarrow> heap \<times> 'k \<Rightarrow> (int \<times> heap \<times> 'k) res" where
  "fl_read sys dst n s w = read_into sys (fl_fd s) dst n w"

definition fl_write :: "'k sysops \<Rightarrow> source \<Rightarrow> nat \<Rightarrow> filestream \<Rightarrow> heap \<times> 'k \<Rightarrow> (int \<times> heap \<times> 'k) res" where
  "fl_write sys src n s w = write_from sys (fl_fd s) src n w"

text \<open>The operations that are not implemented.\<close>

definition fl_read_buffer :: "filestream \<Rightarrow> int" where
  "fl_read_buffer s = - 1"

definition fl_read_stub :: "filestream \<Rightarrow> int" where
  "fl_read_stub s = - 1"

definition fl_write_stub :: "filestream \<Rightarrow> int" where
  "fl_write_stub s = - 1"

section \<open>Inotify\<close>

text \<open>The process-wide object: its descriptor and its watcher, which exists between \<^verbatim>\<open>init\<close> and \<^verbatim>\<open>deinit\<close>.\<close>

record 'i inotify =
  no_handle :: int
  no_io :: "'i option"

text \<open>\<^verbatim>\<open>IN_NONBLOCK | IN_CLOEXEC\<close>.\<close>

definition Inotify_new :: "'k fileops \<Rightarrow> 'k \<Rightarrow> 'i inotify \<times> 'k" where
  "Inotify_new fo k = (case fo_inotify_init fo (2048 + 524288) k of (r, k') \<Rightarrow> (\<lparr>no_handle = fd_of r, no_io = None\<rparr>, k'))"

definition Inotify_destroy :: "'k fileops \<Rightarrow> 'i inotify \<Rightarrow> 'k \<Rightarrow> 'k" where
  "Inotify_destroy fo n k = fo_close fo (no_handle n) k"

definition Inotify_add :: "'k fileops \<Rightarrow> string \<Rightarrow> nat \<Rightarrow> 'i inotify \<Rightarrow> 'k \<Rightarrow> int \<times> 'k" where
  "Inotify_add fo path mode n k = (case fo_add_watch fo (no_handle n) path mode k of (r, k') \<Rightarrow> (fd_of r, k'))"

definition Inotify_remove :: "'k fileops \<Rightarrow> int \<Rightarrow> 'i inotify \<Rightarrow> 'k \<Rightarrow> 'k" where
  "Inotify_remove fo wd n k = fo_rm_watch fo (no_handle n) wd k"

text \<open>\<open>i\<close> is the new watcher; 1 is \<^verbatim>\<open>ev::READ\<close>.\<close>

definition Inotify_init :: "('i, 't) evops \<Rightarrow> 'i \<Rightarrow> 'i inotify \<Rightarrow> 'i inotify" where
  "Inotify_init ev i n = n\<lparr>no_io := Some (io_start ev (io_set ev (no_handle n) 1 i))\<rparr>"

text \<open>The watcher is stopped and deleted; without one, a null pointer is used.\<close>

definition Inotify_deinit :: "('i, 't) evops \<Rightarrow> 'i inotify \<Rightarrow> 'i inotify res" where
  "Inotify_deinit ev n = (case no_io n of None \<Rightarrow> Inl NullDeref | Some i \<Rightarrow> Inr (n\<lparr>no_io := None\<rparr>))"

section \<open>File\<close>

record xfile =
  fi_path :: string
  fi_inotify :: int

definition File_new :: "string \<Rightarrow> xfile" where
  "File_new path = \<lparr>fi_path = path, fi_inotify = - 1\<rparr>"

definition filename :: "xfile \<Rightarrow> string" where
  "filename f = fi_path f"

text \<open>\<^verbatim>\<open>IN_MODIFY | IN_MOVE_SELF | IN_MOVED_FROM | IN_MOVED_TO\<close>.\<close>

definition WATCH_MODE :: nat where
  "WATCH_MODE = 2 + 2048 + 64 + 128"

definition File_updateCache :: "'k fileops \<Rightarrow> 'i inotify \<Rightarrow> xfile \<Rightarrow> 'k \<Rightarrow> bool \<times> xfile \<times> 'k" where
  "File_updateCache fo n f k =
     (let k1 = (if fi_inotify f < 0 then Inotify_remove fo (fi_inotify f) n k else k) in
      case Inotify_add fo (fi_path f) WATCH_MODE n k1 of (wd, k2) \<Rightarrow> (False, f\<lparr>fi_inotify := wd\<rparr>, k2))"

definition File_clearCache :: "'k fileops \<Rightarrow> 'i inotify \<Rightarrow> xfile \<Rightarrow> 'k \<Rightarrow> xfile \<times> 'k" where
  "File_clearCache fo n f k =
     (if fi_inotify f \<noteq> - 1 then (f\<lparr>fi_inotify := - 1\<rparr>, Inotify_remove fo (fi_inotify f) n k) else (f, k))"

definition File_destroy :: "'k fileops \<Rightarrow> 'i inotify \<Rightarrow> xfile \<Rightarrow> 'k \<Rightarrow> xfile \<times> 'k" where
  "File_destroy fo n f k =
     (if fi_inotify f \<noteq> - 1 then (f\<lparr>fi_inotify := - 1\<rparr>, Inotify_remove fo (fi_inotify f) n k) else (f, k))"

definition File_open :: "'k fileops \<Rightarrow> nat \<Rightarrow> xfile \<Rightarrow> 'k \<Rightarrow> filestream option \<times> 'k" where
  "File_open fo flags f k =
     (case fo_open fo (fi_path f) flags k of
        (Inl e, k') \<Rightarrow> (None, k')
      | (Inr fd, k') \<Rightarrow> (Some (FileStream_new fd), k'))"

section \<open>Watches\<close>

text \<open>
  \<open>watches k\<close> are the watches of the process. Adding one for a file that has one gives the same again, so the
  result need not be new.
\<close>

locale watch_table =
  fixes fo :: "'k fileops" and watches :: "'k \<Rightarrow> int set"
  assumes add_new: "fo_add_watch fo h path mode k = (Inr wd, k') \<Longrightarrow> 0 \<le> wd \<and> watches k' = insert wd (watches k)"
    and add_fails: "fo_add_watch fo h path mode k = (Inl e, k') \<Longrightarrow> watches k' = watches k"
    and rm_removes: "watches (fo_rm_watch fo h wd k) = watches k - {wd}"
    and watches_nonneg: "wd \<in> watches k \<Longrightarrow> 0 \<le> wd"
begin

lemma watch_update_law:
  assumes "File_updateCache fo n f k = (r, f', k')"
  shows "\<not> r \<and> fi_path f' = fi_path f \<and> watches k' = watches k \<union> {fi_inotify f'} - {- 1} \<and> - 1 \<le> fi_inotify f'"
proof -
  define k1 where "k1 = (if fi_inotify f < 0 then Inotify_remove fo (fi_inotify f) n k else k)"
  have k1: "watches k1 = watches k"
    using watches_nonneg [of "fi_inotify f" k] by (auto simp: k1_def Inotify_remove_def rm_removes)
  obtain x k2 where a: "fo_add_watch fo (no_handle n) (fi_path f) WATCH_MODE k1 = (x, k2)" by (rule prod.exhaust)
  then have e: "r = False" "f' = f\<lparr>fi_inotify := fd_of x\<rparr>" "k' = k2"
    using assms by (simp_all add: File_updateCache_def Let_def Inotify_add_def flip: k1_def)
  have "- 1 \<notin> watches k" using watches_nonneg [of "- 1" k] by auto
  then show ?thesis using a k1 add_new [of "no_handle n" "fi_path f" WATCH_MODE k1] add_fails [of "no_handle n" "fi_path f" WATCH_MODE k1] e
    by (cases x) auto
qed

lemma watch_destroy_law: "File_destroy fo n f k = (f', k') \<Longrightarrow> - 1 \<notin> watches k \<Longrightarrow> watches k' = watches k - {fi_inotify f}"
  by (auto simp: File_destroy_def Inotify_remove_def rm_removes split: if_splits)

end

text \<open>A kernel with the numbers of its watches, which gives a new one for every path.\<close>

definition demo_files :: "int set fileops" where
  "demo_files = \<lparr>fo_open = (\<lambda>path flags k. (Inr 3, k)), fo_close = (\<lambda>fd k. k), fo_size = (\<lambda>fd k. Inr 0),
     fo_inotify_init = (\<lambda>flags k. (Inr 4, k)),
     fo_add_watch = (\<lambda>h path mode k. let wd = int (length path) in (Inr wd, insert wd k)),
     fo_rm_watch = (\<lambda>h wd k. k - {wd})\<rparr>"

interpretation demo_watches: watch_table demo_files "\<lambda>k. k \<inter> {0..}"
  by unfold_locales (auto simp: demo_files_def Let_def)

section \<open>Properties\<close>

text \<open>
  \<^verbatim>\<open>updateCache()\<close> tests for the wrong sign and so never removes the watch it replaces: if the path leads to
  another file by then, the old watch is left behind, also by the destructor. The destructor removes the last watch.
\<close>

theorem file_watch_leaks:
  assumes w: "watch_table fo watches" and old: "fi_inotify f \<in> watches k"
    and u: "File_updateCache fo n f k = (r, f', k')" and new: "fi_inotify f' \<noteq> fi_inotify f"
    and d: "File_destroy fo n f' k' = (f'', k'')"
  shows "\<not> r \<and> fi_inotify f \<in> watches k'' \<and> fi_inotify f' \<notin> watches k''"
proof -
  have "0 \<le> fi_inotify f" "- 1 \<notin> watches k'" using watch_table.watches_nonneg [OF w] old by force+
  then show ?thesis using watch_table.watch_update_law [OF w u] watch_table.watch_destroy_law [OF w d] old new by auto
qed

theorem file_watch_leaks_witness:
  "\<exists>f' k' f'' k''. File_updateCache demo_files \<lparr>no_handle = 4, no_io = (None :: unit option)\<rparr> \<lparr>fi_path = ''ab'', fi_inotify = 1\<rparr> {1} = (False, f', k') \<and>
     File_destroy demo_files \<lparr>no_handle = 4, no_io = (None :: unit option)\<rparr> f' k' = (f'', k'') \<and> 1 \<in> k''"
proof -
  let ?n = "\<lparr>no_handle = 4, no_io = (None :: unit option)\<rparr>" and ?f = "\<lparr>fi_path = ''ab'', fi_inotify = 1\<rparr>"
  obtain f' k' f'' k'' where u: "File_updateCache demo_files ?n ?f {1} = (False, f', k')" "fi_inotify f' = 2"
      and d: "File_destroy demo_files ?n f' k' = (f'', k'')"
    by (simp add: File_updateCache_def Inotify_add_def demo_files_def Let_def File_destroy_def)
  from file_watch_leaks [OF demo_watches.watch_table_axioms _ u(1) _ d] u d show ?thesis by auto
qed

end
