(* ===== verification/File_Copy.thy ===== *)
theory File_Copy
  imports File_Stream "HOL-Library.Sublist"
begin

text \<open>
  The example \<^verbatim>\<open>examples/filter.cpp\<close>, which copies its standard input to its standard output through two files of the library. The
  locale \<open>file_io\<close> says what reading and writing an open file does.
\<close>

section \<open>Definitions\<close>

text \<open>
  The loop of \<^verbatim>\<open>main\<close>: a file that could not be opened is a null pointer, \<open>buf\<close> the array of 1024 bytes. An input that never ends is a loop that
  does not return.
\<close>

partial_function (option) copy_loop :: "'k sysops \<Rightarrow> filestream option \<Rightarrow> filestream option \<Rightarrow> ptr \<Rightarrow> heap \<times> 'k \<Rightarrow> (heap \<times> 'k) res option" where
  "copy_loop io fin fout buf w =
     (case fin of
        None \<Rightarrow> Some (Inl NullDeref)
      | Some i \<Rightarrow>
          (case fl_read io buf 1024 i w of
             Inl e \<Rightarrow> Some (Inl e)
           | Inr (n, w1) \<Rightarrow>
               if 0 < n then
                 (case fout of
                    None \<Rightarrow> Some (Inl NullDeref)
                  | Some out \<Rightarrow>
                      (case fl_write io (Heap buf) (nat n) out w1 of
                         Inl e \<Rightarrow> Some (Inl e)
                       | Inr (_, w2) \<Rightarrow> copy_loop io fin fout buf w2))
               else Some (Inr w1)))"

definition close_file :: "'k fileops \<Rightarrow> filestream option \<Rightarrow> 'k \<Rightarrow> 'k" where
  "close_file fo f k = (case f of None \<Rightarrow> k | Some s \<Rightarrow> FileStream_destroy fo s k)"

text \<open>\<^verbatim>\<open>main\<close>: the files are closed in the reverse order. 0 and 1 are \<^verbatim>\<open>O_RDONLY\<close> and \<^verbatim>\<open>O_WRONLY\<close>.\<close>

definition filter_main :: "'k fileops \<Rightarrow> 'k sysops \<Rightarrow> ptr \<Rightarrow> heap \<times> 'k \<Rightarrow> (heap \<times> 'k) res option" where
  "filter_main fo io buf w =
     (case File_open fo 0 (File_new ''/dev/stdin'') (snd w) of (fin, k1) \<Rightarrow>
      case File_open fo 1 (File_new ''/dev/stdout'') k1 of (fout, k2) \<Rightarrow>
      case copy_loop io fin fout buf (fst w, k2) of
        None \<Rightarrow> None
      | Some (Inl e) \<Rightarrow> Some (Inl e)
      | Some (Inr (h, k3)) \<Rightarrow> Some (Inr (h, close_file fo fin (close_file fo fout k3))))"

section \<open>What the code relies on\<close>

text \<open>\<open>left k fd\<close>: the bytes that were not read yet; \<open>put k fd\<close>: the bytes written.\<close>

locale file_io =
  fixes io :: "'k sysops" and fo :: "'k fileops" and left put :: "'k \<Rightarrow> int \<Rightarrow> char list"
  assumes read_left: "sys_read io fd n k = (Inr bs, k') \<Longrightarrow> length bs \<le> n \<and> left k fd = bs @ left k' fd \<and> put k' = put k"
    and read_error: "sys_read io fd n k = (Inl e, k') \<Longrightarrow> left k' fd = left k fd \<and> put k' = put k"
    and write_put: "sys_write io fd bs k = (Inr m, k') \<Longrightarrow> m \<le> length bs \<and> put k' fd = put k fd @ take m bs \<and> left k' = left k"
    and write_error: "sys_write io fd bs k = (Inl e, k') \<Longrightarrow> put k' fd = put k fd \<and> left k' = left k"
    and close_put: "put (fo_close fo fd k) = put k"

text \<open>Reading ends only at the end of the file, and writing takes all.\<close>

definition read_ends :: "'k sysops \<Rightarrow> ('k \<Rightarrow> int \<Rightarrow> char list) \<Rightarrow> int \<Rightarrow> bool" where
  "read_ends io left fd \<longleftrightarrow> (\<forall>n k. 0 < n \<and> left k fd \<noteq> [] \<longrightarrow> (\<exists>bs. fst (sys_read io fd n k) = Inr bs \<and> bs \<noteq> []))"

definition writes_all :: "'k sysops \<Rightarrow> int \<Rightarrow> bool" where
  "writes_all io fd \<longleftrightarrow> (\<forall>bs k. fst (sys_write io fd bs k) = Inr (length bs))"

context file_io
begin

lemma copy_step:
  assumes rd: "readable h buf 1024"
  shows "\<exists>n bs h1 k1. fl_read io buf 1024 i (h, k) = Inr (n, h1, k1) \<and> left k (fl_fd i) = bs @ left k1 (fl_fd i) \<and> put k1 = put k \<and>
    readable h1 buf 1024 \<and> (0 < n \<longrightarrow> n = int (length bs) \<and> load h1 buf (length bs) = Inr bs) \<and>
    (n \<le> 0 \<longrightarrow> bs = [] \<and> (read_ends io left (fl_fd i) \<longrightarrow> left k (fl_fd i) = []))"
proof -
  obtain x k1 where x: "sys_read io (fl_fd i) 1024 k = (x, k1)" by (rule prod.exhaust)
  have e: "left k (fl_fd i) = []" if "read_ends io left (fl_fd i)" "x = Inl e \<or> x = Inr []" for e
    using that x unfolding read_ends_def by (metis fst_conv sum.inject(2) sum.distinct(1) zero_less_numeral)
  show ?thesis
  proof (cases x)
    case (Inl er)
    then show ?thesis using x read_error [OF x [unfolded Inl]] rd e [of er] by (auto simp: fl_read_def read_into_def)
  next
    case (Inr bs)
    note L = read_left [OF x [unfolded Inr]]
    have r: "readable h buf (length bs)" using rd L readable_mono by blast
    then obtain h1 where s: "store h buf bs = Inr h1" using store_ok by blast
    have "readable h1 buf (length bs)" "readable h1 buf 1024" using readable_store [OF s] r rd by blast+
    moreover have "load h1 buf (length bs) = Inr bs" using calculation(1) load_readable bytes_at_store_same [OF s r] by fastforce
    ultimately show ?thesis using x Inr L s e [of 0] by (auto simp: fl_read_def read_into_def)
  qed
qed

lemma copy_law:
  assumes "readable h buf 1024"
  shows "\<exists>h' k' out. copy_loop io (Some i) (Some j) buf (h, k) = Some (Inr (h', k')) \<and> put k' (fl_fd j) = put k (fl_fd j) @ out \<and>
    subseq out (left k (fl_fd i)) \<and> (writes_all io (fl_fd j) \<and> read_ends io left (fl_fd i) \<longrightarrow> out = left k (fl_fd i))"
  using assms
proof (induction "length (left k (fl_fd i))" arbitrary: h k rule: less_induct)
  case less
  from copy_step [OF less.prems, of i k] obtain n bs h1 k1 where r: "fl_read io buf 1024 i (h, k) = Inr (n, h1, k1)"
    "left k (fl_fd i) = bs @ left k1 (fl_fd i)" "put k1 = put k" "readable h1 buf 1024"
    "0 < n \<longrightarrow> n = int (length bs) \<and> load h1 buf (length bs) = Inr bs" "n \<le> 0 \<longrightarrow> bs = [] \<and> (read_ends io left (fl_fd i) \<longrightarrow> left k (fl_fd i) = [])" by blast
  show ?case
  proof (cases "0 < n")
    case False
    then have "copy_loop io (Some i) (Some j) buf (h, k) = Some (Inr (h1, k1))" using r(1) by (subst copy_loop.simps) simp
    then show ?thesis using r(3,6) False by (intro exI [of _ h1] exI [of _ k1] exI [of _ "[]"]) auto
  next
    case True
    then have n: "n = int (length bs)" "load h1 buf (length bs) = Inr bs" "bs \<noteq> []" using r(5) by auto
    obtain y k2 where w: "sys_write io (fl_fd j) bs k1 = (y, k2)" by (rule prod.exhaust)
    have f: "fl_write io (Heap buf) (nat n) j (h1, k1) = Inr (rv_of y, h1, k2)" using n w by (simp add: fl_write_def write_from_def)
    obtain o1 where o: "put k2 (fl_fd j) = put k1 (fl_fd j) @ o1" "subseq o1 bs" "left k2 = left k1" "writes_all io (fl_fd j) \<Longrightarrow> o1 = bs"
    proof (cases y)
      case (Inl e)
      then have "\<not> writes_all io (fl_fd j)" using w unfolding writes_all_def by (metis fst_conv sum.distinct(1))
      then show ?thesis using write_error [OF w [unfolded Inl]] that [of "[]"] by simp
    next
      case (Inr m)
      then have "m = length bs" if "writes_all io (fl_fd j)" using that w unfolding writes_all_def by (metis fst_conv sum.inject(2))
      then show ?thesis using write_put [OF w [unfolded Inr]] that [of "take m bs"] by auto
    qed
    have "length (left k2 (fl_fd i)) < length (left k (fl_fd i))" using r(2) o(3) n(3) by simp
    from less.hyps [OF this r(4)] obtain h' k' out where l: "copy_loop io (Some i) (Some j) buf (h1, k2) = Some (Inr (h', k'))"
      "put k' (fl_fd j) = put k2 (fl_fd j) @ out" "subseq out (left k2 (fl_fd i))"
      "writes_all io (fl_fd j) \<and> read_ends io left (fl_fd i) \<longrightarrow> out = left k2 (fl_fd i)" by blast
    have "copy_loop io (Some i) (Some j) buf (h, k) = Some (Inr (h', k'))" using r(1) True f l(1) by (subst copy_loop.simps) simp
    moreover have "subseq (o1 @ out) (left k (fl_fd i))" using r(2) o(2,3) l(3) by (simp add: list_emb_append_mono)
    moreover have "put k' (fl_fd j) = put k (fl_fd j) @ o1 @ out" using l(2) o(1) r(3) by simp
    ultimately show ?thesis using o(3,4) l(4) r(2) by (intro exI [of _ h'] exI [of _ k'] exI [of _ "o1 @ out"]) auto
  qed
qed

end

section \<open>A kernel with files\<close>

text \<open>Reading delivers up to four bytes; writing takes all.\<close>

type_synonym fstate = "(int \<Rightarrow> char list) \<times> (int \<Rightarrow> char list)"

definition file_sys :: "fstate sysops" where
  "file_sys = \<lparr>
     sys_pipe2 = (\<lambda>_ k. (Inl 24, k)),
     sys_read = (\<lambda>fd n (l, p). let bs = take (min n 4) (l fd) in (Inr bs, l(fd := drop (length bs) (l fd)), p)),
     sys_write = (\<lambda>fd bs (l, p). (Inr (length bs), l, p(fd := p fd @ bs))),
     sys_splice = (\<lambda>_ _ _ k. (Inl 22, k)), sys_tee = (\<lambda>_ _ _ k. (Inl 22, k)), sys_sendfile = (\<lambda>_ _ _ k. (Inl 22, k)), sys_close = (\<lambda>_ k. k)\<rparr>"

definition file_calls :: "fstate fileops" where
  "file_calls = \<lparr>fo_open = (\<lambda>path flags k. (if path = ''/dev/stdin'' then Inr 3 else if path = ''/dev/stdout'' then Inr 4 else Inl 2, k)),
     fo_close = (\<lambda>_ k. k), fo_size = (\<lambda>_ _. Inr 0), fo_inotify_init = (\<lambda>_ k. (Inl 24, k)), fo_add_watch = (\<lambda>_ _ _ k. (Inl 2, k)),
     fo_rm_watch = (\<lambda>_ _ k. k)\<rparr>"

interpretation files: file_io file_sys file_calls fst snd
  by unfold_locales (auto simp: file_sys_def file_calls_def Let_def min_def)

section \<open>Properties\<close>


lemma readable_zeros: "readable (one_block (replicate n NUL)) (Addr 0 0) n"
  by (simp add: readable_def one_block_def)


end
