(* ===== verification/Buffer_Stream.thy ===== *)
theory Buffer_Stream
  imports Pipe_Stream
begin

text \<open>
  The class \<^verbatim>\<open>BufferStream\<close> (\<^verbatim>\<open>include/xio/BufferStream.h\<close>, \<^verbatim>\<open>lib/BufferStream.cpp\<close>): a stream kept in a \<^verbatim>\<open>Buffer\<close>, with the
  offset of the next byte to be read.
\<close>

section \<open>State and operations\<close>

record bstream =
  bs_data :: mbuf
  bs_readOffset :: nat

definition BufferStream_new :: "nat \<Rightarrow> heap \<Rightarrow> (bstream \<times> heap) res" where
  "BufferStream_new cap h = bnd (Buffer_cap cap h) (\<lambda>(b, h'). Inr (\<lparr>bs_data = b, bs_readOffset = 0\<rparr>, h'))"

definition bs_size :: "bstream \<Rightarrow> nat" where
  "bs_size s = sz_sub (b_size (bs_data s)) (bs_readOffset s)"

definition bs_capacity :: "bstream \<Rightarrow> nat" where
  "bs_capacity s = b_cap (bs_data s)"

definition bs_shift :: "nat \<Rightarrow> bstream \<Rightarrow> bstream" where
  "bs_shift n s =
     (if sz_add (bs_readOffset s) n < b_size (bs_data s)
      then s\<lparr>bs_readOffset := sz_add (bs_readOffset s) n\<rparr>
      else s\<lparr>bs_readOffset := 0, bs_data := clear (bs_data s)\<rparr>)"

definition bs_write :: "source \<Rightarrow> nat \<Rightarrow> bstream \<Rightarrow> heap \<Rightarrow> (int \<times> bstream \<times> heap) res" where
  "bs_write src n s h =
     bnd (push_back mutableEnsure src n (bs_data s) h) (\<lambda>(b', h').
       Inr (to_ssize (sz_sub (b_size b') (b_size (bs_data s))), s\<lparr>bs_data := b'\<rparr>, h'))"

text \<open>\<^verbatim>\<open>write(Socket*)\<close> and \<^verbatim>\<open>read(Socket*)\<close> are not implemented in the code and return 0.\<close>

definition bs_write_socket :: "nat \<Rightarrow> bstream \<Rightarrow> int \<times> bstream" where
  "bs_write_socket n s = (0, s)"

definition bs_read_socket :: "nat \<Rightarrow> bstream \<Rightarrow> int \<times> bstream" where
  "bs_read_socket n s = (0, s)"

definition bs_received :: "int \<Rightarrow> mbuf \<Rightarrow> mbuf" where
  "bs_received rv b = (if 0 < rv then snd (resize (sz_add (b_size b) (nat rv)) b) else b)"

definition bs_write_pipe :: "'k sysops \<Rightarrow> nat \<Rightarrow> bstream \<Rightarrow> pipe \<Rightarrow> heap \<times> 'k \<Rightarrow>
    (int \<times> bstream \<times> pipe \<times> heap \<times> 'k) res" where
  "bs_write_pipe sys n s p w =
     bnd (reserve mutableEnsure (sz_add (b_size (bs_data s)) n) (bs_data s) (fst w)) (\<lambda>(_, b, h).
       bnd (Pipe_read sys (ptr_add (b_data b) (b_size b)) (min (sz_sub (b_cap b) (b_size b)) n) p (h, snd w))
         (\<lambda>(rv, p', w'). Inr (rv, s\<lparr>bs_data := bs_received rv b\<rparr>, p', w')))"

definition bs_write_fd :: "'k sysops \<Rightarrow> int \<Rightarrow> nat \<Rightarrow> bstream \<Rightarrow> heap \<times> 'k \<Rightarrow> (int \<times> bstream \<times> heap \<times> 'k) res" where
  "bs_write_fd sys fd n s w =
     bnd (reserve mutableEnsure (sz_add (b_size (bs_data s)) n) (bs_data s) (fst w)) (\<lambda>(_, b, h).
       bnd (read_into sys fd (ptr_add (b_data b) (b_size b)) (min (sz_sub (b_cap b) (b_size b)) n) (h, snd w))
         (\<lambda>(rv, w'). Inr (rv, s\<lparr>bs_data := bs_received rv b\<rparr>, w')))"

text \<open>\<^verbatim>\<open>read(Buffer& result, size_t)\<close>; \<open>r\<close> is the caller's buffer.\<close>

definition bs_read_buffer :: "nat \<Rightarrow> mbuf \<Rightarrow> bstream \<Rightarrow> heap \<Rightarrow> (int \<times> mbuf \<times> bstream \<times> heap) res" where
  "bs_read_buffer n r s h =
     (let m = min n (bs_size s) in
      bnd (reserve mutableEnsure (sz_add (b_size r) m) r h) (\<lambda>(_, r1, h1).
        bnd (push_back mutableEnsure (Heap (ptr_add (b_data (bs_data s)) (bs_readOffset s))) m r1 h1)
          (\<lambda>(r2, h2). Inr (to_ssize m, r2, bs_shift m s, h2))))"

definition bs_read :: "ptr \<Rightarrow> nat \<Rightarrow> bstream \<Rightarrow> heap \<Rightarrow> (int \<times> bstream \<times> heap) res" where
  "bs_read dst n s h =
     (let m = min n (bs_size s) in
      bnd (memcpy h dst (Heap (ptr_add (b_data (bs_data s)) (bs_readOffset s))) m) (\<lambda>h'.
        Inr (to_ssize m, bs_shift m s, h')))"

definition bs_sent :: "int \<Rightarrow> bstream \<Rightarrow> bstream" where
  "bs_sent rv s = (if 0 < rv then s\<lparr>bs_readOffset := sz_add (bs_readOffset s) (nat rv)\<rparr> else s)"

definition bs_read_pipe :: "'k sysops \<Rightarrow> nat \<Rightarrow> bstream \<Rightarrow> pipe \<Rightarrow> heap \<times> 'k \<Rightarrow>
    (int \<times> bstream \<times> pipe \<times> heap \<times> 'k) res" where
  "bs_read_pipe sys n s p w =
     bnd (Pipe_write sys (Heap (b_data (bs_data s))) (min (bs_size s) n) p w)
       (\<lambda>(rv, p', w'). Inr (rv, bs_sent rv s, p', w'))"

definition bs_read_fd :: "'k sysops \<Rightarrow> int \<Rightarrow> nat \<Rightarrow> bstream \<Rightarrow> heap \<times> 'k \<Rightarrow> (int \<times> bstream \<times> heap \<times> 'k) res" where
  "bs_read_fd sys fd n s w =
     bnd (write_from sys fd (Heap (b_data (bs_data s))) (min (bs_size s) n) w)
       (\<lambda>(rv, w'). Inr (rv, bs_sent rv s, w'))"

definition bs_read_char :: "bstream \<Rightarrow> heap \<Rightarrow> (int \<times> bstream) res" where
  "bs_read_char s h =
     (if bs_readOffset s \<noteq> b_size (bs_data s)
      then bnd (load1 h (ptr_add (b_data (bs_data s)) (bs_readOffset s))) (\<lambda>c.
             Inr (schar c, s\<lparr>bs_readOffset := sz_add (bs_readOffset s) 1\<rparr>))
      else Inr (- 1, s))"

section \<open>Invariant and contents\<close>

definition bs_ok :: "heap \<Rightarrow> bstream \<Rightarrow> bool" where
  "bs_ok h s \<longleftrightarrow> buffer_ok h (bs_data s) \<and> bs_readOffset s \<le> b_size (bs_data s)"

definition bs_contents :: "heap \<Rightarrow> bstream \<Rightarrow> char list" where
  "bs_contents h s = drop (bs_readOffset s) (view h (bs_data s))"

lemma buffer_ref_ok: "buffer_ok h b \<Longrightarrow> ref_ok h b"
  by (intro mb_ok_ref_ok buffer_ok_mb_ok)

lemma bs_length_view: "bs_ok h s \<Longrightarrow> length (view h (bs_data s)) = b_size (bs_data s)"
  by (simp add: bs_ok_def buffer_ref_ok)

lemma bs_size_eq: "bs_ok h s \<Longrightarrow> bs_size s = b_size (bs_data s) - bs_readOffset s"
  by (auto simp: bs_size_def bs_ok_def buffer_ok_def)

lemma bs_size_contents: "bs_ok h s \<Longrightarrow> bs_size s = length (bs_contents h s)"
  by (simp add: bs_size_eq bs_contents_def bs_length_view)

lemma bs_shift_ok:
  assumes ok: "bs_ok h s" and n: "n \<le> bs_size s"
  shows "bs_ok h (bs_shift n s)" "bs_contents h (bs_shift n s) = drop n (bs_contents h s)"
    "owns (bs_data (bs_shift n s)) = owns (bs_data s)" "b_size (bs_data (bs_shift n s)) \<le> b_size (bs_data s)"
proof -
  have b: "buffer_ok h (bs_data s)" "b_size (bs_data s) < SIZE_MOD" using ok by (auto simp: bs_ok_def buffer_ok_def)
  have le: "bs_readOffset s + n \<le> b_size (bs_data s)" using n bs_size_eq [OF ok] ok by (auto simp: bs_ok_def)
  then have eq: "sz_add (bs_readOffset s) n = bs_readOffset s + n" using b(2) by simp
  note c = clear_ok [OF b(1)]
  show "bs_ok h (bs_shift n s)" "owns (bs_data (bs_shift n s)) = owns (bs_data s)"
    "b_size (bs_data (bs_shift n s)) \<le> b_size (bs_data s)"
    using b c le by (simp_all add: bs_shift_def bs_ok_def eq)
  show "bs_contents h (bs_shift n s) = drop n (bs_contents h s)"
  proof (cases "bs_readOffset s + n < b_size (bs_data s)")
    case True
    then show ?thesis by (simp add: bs_shift_def bs_contents_def eq add.commute)
  next
    case False
    then show ?thesis using c le bs_length_view [OF ok] by (simp add: bs_shift_def bs_contents_def eq)
  qed
qed

lemma bs_frame [framed]:
  assumes "bs_ok h s" "heap_ok h" "frame K h h'" "owns (bs_data s) \<inter> K = {}"
  shows "bs_ok h' s" "bs_contents h' s = bs_contents h s"
  using assms view_frame [OF _ assms(2-4)] by (auto simp: bs_ok_def bs_contents_def buffer_ref_ok intro: framed)

text \<open>The bytes to be read next stand in memory at the read offset.\<close>

lemma bs_front:
  assumes ok: "bs_ok h s" and m: "m \<le> bs_size s"
  shows "load h (ptr_add (b_data (bs_data s)) (bs_readOffset s)) m = Inr (take m (bs_contents h s))"
proof -
  have le: "bs_readOffset s + m \<le> b_size (bs_data s)" using m bs_size_eq [OF ok] ok by (auto simp: bs_ok_def)
  let ?r = "mk_ref (ptr_add (b_data (bs_data s)) (bs_readOffset s)) m"
  have rb: "ref_ok h (bs_data s)" using ok by (simp add: bs_ok_def buffer_ref_ok)
  show ?thesis using load_view [OF mk_ref_sub(1) [OF rb le]] mk_ref_sub(2) [OF rb le] by (simp add: bs_contents_def)
qed

section \<open>A buffer stream is a byte stream\<close>

lemma bs_appended:
  assumes ok: "bs_ok h s" and ap: "appended buffer_ok h (bs_data s) h' b' bs"
  shows "bs_ok h' (s\<lparr>bs_data := b'\<rparr>)" "bs_contents h' (s\<lparr>bs_data := b'\<rparr>) = bs_contents h s @ bs"
  using assms bs_length_view [OF ok] by (auto simp: bs_ok_def bs_contents_def appended_def)

lemma bs_write_law:
  assumes ok: "bs_ok h s" "heap_ok h" and src: "fetch h src n = Inr bs"
    and dis: "n = 0 \<or> source_block src \<inter> owns (bs_data s) = {}"
    and room: "b_size (bs_data s) + n < 9223372036854775808"
  shows "\<exists>m b' h'. bs_write src n s h = Inr (int m, s\<lparr>bs_data := b'\<rparr>, h') \<and>
    appended buffer_ok h (bs_data s) h' b' (take m bs) \<and> m \<le> n \<and>
    (m = n \<or> \<not> grants mutableEnsure (b_size (bs_data s) + n) (bs_data s) h)"
proof -
  let ?bs = "if grants mutableEnsure (b_size (bs_data s) + n) (bs_data s) h then bs else []"
  have b: "buffer_ok h (bs_data s)" using ok(1) by (simp add: bs_ok_def)
  have len: "length bs = n" using src by (rule fetch_Inr_length)
  have "b_size (bs_data s) + n \<le> MAX_REQ" using room by (simp add: MAX_REQ_def)
  then obtain b' h' where 1: "push_back mutableEnsure src n (bs_data s) h = Inr (b', h')"
    "appended buffer_ok h (bs_data s) h' b' ?bs"
    using managed.push_back_appended [OF b ok(2) src dis] by blast
  have sz: "b_size b' = b_size (bs_data s) + length ?bs" using 1(2) by (simp add: appended_def)
  then have "sz_sub (b_size b') (b_size (bs_data s)) = length ?bs" using room len by (simp split: if_splits)
  moreover have "length ?bs < 9223372036854775808" using room len by (simp split: if_splits)
  ultimately have "bs_write src n s h = Inr (int (length ?bs), s\<lparr>bs_data := b'\<rparr>, h')"
    using 1(1) by (simp add: bs_write_def)
  then show ?thesis using 1(2) len
    by (intro exI [of _ "length ?bs"] exI [of _ b'] exI [of _ h']) (auto split: if_splits)
qed

lemma bs_read_law:
  assumes ok: "bs_ok h s" "heap_ok h" and rd: "readable h dst n" and n: "n < 9223372036854775808"
    and dis: "ptr_block dst \<inter> owns (bs_data s) = {}"
  shows "\<exists>m h'. bs_read dst n s h = Inr (int m, bs_shift m s, h') \<and> m = min n (bs_size s) \<and>
    store h dst (take m (bs_contents h s)) = Inr h' \<and> bs_ok h' (bs_shift m s) \<and>
    bs_contents h' (bs_shift m s) = drop m (bs_contents h s)"
proof -
  let ?m = "min n (bs_size s)" and ?src = "Heap (ptr_add (b_data (bs_data s)) (bs_readOffset s))"
  have ft: "fetch h ?src ?m = Inr (take ?m (bs_contents h s))" using bs_front [OF ok(1), of ?m] by simp
  have "length (take ?m (bs_contents h s)) \<le> n" by simp
  then obtain h' where st: "store h dst (take ?m (bs_contents h s)) = Inr h'"
    using store_ok readable_mono [OF rd] by blast
  have "memcpy h dst ?src ?m = Inr h'"
    using ft st overlaps_blocks [of dst ?src ?m] dis by (auto simp: memcpy_def owns_def)
  then have "bs_read dst n s h = Inr (int ?m, bs_shift ?m s, h')"
    using n by (simp add: bs_read_def Let_def)
  moreover have sh: "bs_ok h (bs_shift ?m s)" "bs_contents h (bs_shift ?m s) = drop ?m (bs_contents h s)"
    "owns (bs_data (bs_shift ?m s)) = owns (bs_data s)" using bs_shift_ok [OF ok(1), of ?m] by simp_all
  moreover have "bs_ok h' (bs_shift ?m s)"
    using sh(1) buffer_ok_store [OF _ st] by (simp add: bs_ok_def)
  moreover have "view h' (bs_data (bs_shift ?m s)) = view h (bs_data (bs_shift ?m s))"
  proof (rule view_frame [OF _ ok(2) store_blocks(2) [OF st]])
    show "ref_ok h (bs_data (bs_shift ?m s))" using sh(1) by (simp add: bs_ok_def buffer_ref_ok)
    show "owns (bs_data (bs_shift ?m s)) \<inter> ptr_block dst = {}" using sh(3) dis by auto
  qed
  ultimately show ?thesis using st by (auto simp: bs_contents_def)
qed

interpretation bq: byte_stream "\<lambda>s h. bs_ok h s" "\<lambda>s h. bs_contents h s" "\<lambda>s. owns (bs_data s)" "\<lambda>h. h"
    "\<lambda>s n. b_size (bs_data s) + n < 9223372036854775808" bs_size bs_write bs_read
proof
  fix s h assume "bs_ok h s" then show "bs_size s = length (bs_contents h s)" by (rule bs_size_contents)
next
  fix s h n src bs
  assume a: "bs_ok h s" "heap_ok h" "b_size (bs_data s) + n < 9223372036854775808" "fetch h src n = Inr bs"
    "n = 0 \<or> source_block src \<inter> owns (bs_data s) = {}"
  obtain m b' h' where 1: "bs_write src n s h = Inr (int m, s\<lparr>bs_data := b'\<rparr>, h')"
    "appended buffer_ok h (bs_data s) h' b' (take m bs)" "m \<le> n"
    using bs_write_law [OF a(1,2,4,5,3)] by blast
  then show "\<exists>m s' h'. bs_write src n s h = Inr (m, s', h') \<and> bs_ok h' s' \<and> heap_ok h' \<and>
      frame (owns (bs_data s)) h h' \<and> moves (owns (bs_data s)) (owns (bs_data s')) h h' \<and>
      (\<forall>r. b_size (bs_data s) + (n + r) < 9223372036854775808 \<longrightarrow> b_size (bs_data s') + r < 9223372036854775808) \<and>
      - 1 \<le> m \<and> m \<le> int n \<and> bs_contents h' s' = bs_contents h s @ take (nat m) bs"
    using bs_appended [OF a(1) 1(2)]
    by (intro exI [of _ "int m"] exI [of _ "s\<lparr>bs_data := b'\<rparr>"] exI [of _ h']) (auto simp: appended_def)
next
  fix s h dst n
  assume a: "bs_ok h s" "heap_ok h" "readable h dst n" "n < 9223372036854775808" "ptr_block dst \<inter> owns (bs_data s) = {}"
  obtain m h' where 1: "bs_read dst n s h = Inr (int m, bs_shift m s, h')" "m = min n (bs_size s)"
    "store h dst (take m (bs_contents h s)) = Inr h'" "bs_ok h' (bs_shift m s)"
    "bs_contents h' (bs_shift m s) = drop m (bs_contents h s)"
    using bs_read_law [OF a] by blast
  have m: "m \<le> bs_size s" "m \<le> n" using 1(2) by simp_all
  have len: "length (take m (bs_contents h s)) = m" using m bs_size_contents [OF a(1)] by simp
  have "bytes_at h' dst m = take m (bs_contents h s)"
    using bytes_at_store_same [OF 1(3)] readable_mono [OF a(3) m(2)] unfolding len by simp
  then show "\<exists>m s' h'. bs_read dst n s h = Inr (m, s', h') \<and> bs_ok h' s' \<and> heap_ok h' \<and>
      frame (ptr_block dst) h h' \<and> owns (bs_data s') = owns (bs_data s) \<and>
      (\<forall>l. readable h dst l \<longrightarrow> readable h' dst l) \<and>
      (\<forall>r. b_size (bs_data s) + r < 9223372036854775808 \<longrightarrow> b_size (bs_data s') + r < 9223372036854775808) \<and>
      - 1 \<le> m \<and> m \<le> int n \<and> bs_contents h s = bytes_at h' dst (nat m) @ bs_contents h' s'"
    using 1 m bs_shift_ok(3,4) [OF a(1) m(1)] store_blocks(1,2) [OF 1(3)] a(2)
    by (intro exI [of _ "int m"] exI [of _ "bs_shift m s"] exI [of _ h']) (auto simp: readable_store [OF 1(3)])
qed simp

section \<open>Transfers between buffer streams and pipes\<close>

context posix_pipes
begin

lemma receive_spare:
  assumes at: "pipe_at k r w0" and ok: "buffer_ok h b" "heap_ok h" and n: "b_size b + n \<le> b_cap b"
  shows "\<exists>rv h' k' bs. read_into sys r (ptr_add (b_data b) (b_size b)) n (h, k) = Inr (rv, h', k') \<and>
    appended buffer_ok h b h' (bs_received rv b) bs \<and> taken pipe_at queue r bs k k' \<and> length bs \<le> n \<and>
    (rv = int (length bs) \<or> bs = [] \<and> rv = - 1)"
proof (rule read_spare [OF at ok n])
  fix e k' assume "read_into sys r (ptr_add (b_data b) (b_size b)) n (h, k) = Inr (- 1, h, k')"
    "queue k' = queue k" "pipe_at k' = pipe_at k"
  then show ?thesis using appended_refl [of buffer_ok, OF ok]
    by (intro exI [of _ "- 1"] exI [of _ h] exI [of _ k'] exI [of _ "[]"]) (simp add: bs_received_def taken_def)
next
  fix bs h' k'
  assume a: "read_into sys r (ptr_add (b_data b) (b_size b)) n (h, k) = Inr (int (length bs), h', k')"
    "appended buffer_ok h b h' (b\<lparr>b_size := b_size b + length bs\<rparr>) bs"
    "length bs \<le> n" "queue k r = bs @ queue k' r" "\<forall>r'. r' \<noteq> r \<longrightarrow> queue k' r' = queue k r'" "pipe_at k' = pipe_at k"
  have "b_cap b < SIZE_MOD" using ok by (simp add: buffer_ok_def)
  then have "bs_received (int (length bs)) b = b\<lparr>b_size := b_size b + length bs\<rparr>"
    using a(3) n by (simp add: bs_received_def resize_def)
  then show ?thesis using a
    by (intro exI [of _ "int (length bs)"] exI [of _ h'] exI [of _ k'] exI [of _ bs]) (simp add: taken_def)
qed

lemma bs_write_pipe_law:
  assumes s: "bs_ok h s" "heap_ok h" and p: "pipe_ok pipe_at queue p k"
    and n: "0 < n" "b_size (bs_data s) + n \<le> MAX_REQ"
  shows "\<exists>rv s' p' h' k' bs. bs_write_pipe sys n s p (h, k) = Inr (rv, s', p', h', k') \<and> bs_ok h' s' \<and> heap_ok h' \<and>
    frame (owns (bs_data s)) h h' \<and> pipe_ok pipe_at queue p' k' \<and> bs_contents h' s' = bs_contents h s @ bs \<and>
    taken pipe_at queue (p_rd p) bs k k' \<and> length bs \<le> n \<and> (rv = int (length bs) \<or> bs = [] \<and> rv = - 1)"
proof -
  let ?b = "bs_data s" and ?n = "b_size (bs_data s) + n"
  have at: "pipe_at k (p_rd p) (p_wr p)" "p_size p = length (queue k (p_rd p))" "p_size p < SIZE_MOD"
    using p by (simp_all add: pipe_ok_def)
  have b: "buffer_ok h ?b" using s by (simp add: bs_ok_def)
  obtain granted b1 h1 where e: "mutableEnsure ?n ?b h = Inr (granted, b1, h1)"
    using managed.ensure_total [OF b s(2) _ n(2)] n(1) by auto
  have K: "appended buffer_ok h ?b h1 b1 []"
    using managed.ensure_keeps [OF b s(2) _ n(2) _ e] n(1) by (simp add: appended_def)
  have ok1: "buffer_ok h1 b1" "heap_ok h1" using K by (auto simp: appended_def)
  let ?m = "min (b_cap b1 - b_size b1) n"
  have cap: "b_size b1 \<le> b_cap b1" "b_cap b1 < SIZE_MOD" using ok1 by (auto simp: buffer_ok_def)
  then have m: "sz_sub (b_cap b1) (b_size b1) = b_cap b1 - b_size b1" "b_size b1 + ?m \<le> b_cap b1" by auto
  obtain rv h' k' bs where 2: "read_into sys (p_rd p) (ptr_add (b_data b1) (b_size b1)) ?m (h1, k) = Inr (rv, h', k')"
    "appended buffer_ok h1 b1 h' (bs_received rv b1) bs" "taken pipe_at queue (p_rd p) bs k k'" "length bs \<le> ?m"
    "rv = int (length bs) \<or> bs = [] \<and> rv = - 1"
    using receive_spare [OF at(1) ok1 m(2)] by blast
  let ?s = "s\<lparr>bs_data := bs_received rv b1\<rparr>"
  have ap: "appended buffer_ok h ?b h' (bs_received rv b1) bs" using appended_trans [OF K 2(2) s(2)] by simp
  have sz: "sz_add (b_size ?b) n = ?n" using n(2) by (simp add: MAX_REQ_def)
  have "Pipe_read sys (ptr_add (b_data b1) (b_size b1)) ?m p (h1, k) = Inr (rv, shrunk rv p, h', k')"
    using 2(1) by (simp add: Pipe_read_def)
  then have "bs_write_pipe sys n s p (h, k) = Inr (rv, ?s, shrunk rv p, h', k')"
    unfolding bs_write_pipe_def reserve_def fst_conv snd_conv sz e by (simp add: m(1))
  moreover have "p_size (shrunk rv p) = length (queue k' (p_rd p))" "p_size (shrunk rv p) < SIZE_MOD"
    using 2(3,5) at by (auto simp: taken_def shrunk_size)
  then have "pipe_ok pipe_at queue (shrunk rv p) k'" using 2(3) at by (simp add: pipe_ok_def taken_def)
  ultimately show ?thesis
    using bs_appended [OF s(1) ap] ap 2(3,4,5)
    by (intro exI [of _ rv] exI [of _ ?s] exI [of _ "shrunk rv p"] exI [of _ h'] exI [of _ k'] exI [of _ bs])
      (auto simp: appended_def)
qed

lemma bs_read_fd_law:
  assumes s: "bs_ok h s"
  shows "\<exists>rv s' k'. bs_read_fd sys fd n s (h, k) = Inr (rv, s', h, k') \<and> bs_ok h s' \<and> rv \<le> int n \<and>
    bs_contents h s' = drop (nat rv) (bs_contents h s) \<and> nat rv \<le> length (bs_contents h s) \<and>
    sent k' fd = sent k fd @ take (nat rv) (view h (bs_data s))"
proof -
  let ?m = "min (bs_size s) n" and ?d = "bs_data s"
  have rb: "ref_ok h ?d" using s by (simp add: bs_ok_def buffer_ref_ok)
  have le: "?m \<le> b_size ?d" using bs_size_eq [OF s] by simp
  have ft: "fetch h (Heap (b_data ?d)) ?m = Inr (take ?m (view h ?d))"
    using mk_ref_sub [OF rb, of 0 ?m] load_view [of h "mk_ref (b_data ?d) ?m"] le by simp
  obtain r k' where c: "sys_write sys fd (take ?m (view h ?d)) k = (r, k')" by fastforce
  then have eq: "bs_read_fd sys fd n s (h, k) = Inr (rv_of r, bs_sent (rv_of r) s, h, k')"
    using ft by (simp add: bs_read_fd_def write_from_def)
  show ?thesis
  proof (cases r)
    case (Inl e)
    then show ?thesis using eq c write_fails [of fd _ k e k'] s by (auto simp: bs_sent_def)
  next
    case (Inr m)
    note W = write_accepts [OF c [unfolded Inr]]
    then have m: "m \<le> bs_size s" "m \<le> n" by auto
    have "bs_readOffset s + m \<le> b_size ?d" "b_size ?d < SIZE_MOD"
      using m bs_size_eq [OF s] s by (auto simp: bs_ok_def buffer_ok_def)
    then have "bs_ok h (bs_sent (int m) s)" "bs_contents h (bs_sent (int m) s) = drop m (bs_contents h s)"
      using s by (auto simp: bs_sent_def bs_ok_def bs_contents_def add.commute)
    moreover have "take m (take ?m (view h ?d)) = take m (view h ?d)" using m by (simp add: min_def)
    ultimately show ?thesis using eq Inr W m bs_size_contents [OF s] by auto
  qed
qed

end

section \<open>Properties\<close>

text \<open>
  C6. A \<^verbatim>\<open>BufferStream\<close> is a first-in first-out queue: over any sequence of \<^verbatim>\<open>write\<close> and \<^verbatim>\<open>read\<close> with any
  allocator, the bytes held before followed by the accepted ones are the delivered ones followed
  by those still held, and \<^verbatim>\<open>size()\<close> is the number of bytes held.
\<close>

theorem buffer_stream_fifo:
  assumes "bs_ok h s" "heap_ok h" "readable h dst n" "n < 9223372036854775808" "0 < n"
    "ptr_block dst \<inter> owns (bs_data s) = {}" "b_size (bs_data s) + length (written ops) < 9223372036854775808"
    "reads_fit n ops"
  shows "\<exists>acc got s' h'. run_ops bs_write bs_read (\<lambda>h. h) dst ops s h = Inr (acc, got, s', h') \<and> bs_ok h' s' \<and>
    bs_contents h s @ acc = got @ bs_contents h' s' \<and> bs_size s' = length (bs_contents h' s')"
  using bq.fifo [OF assms] by blast

theorem buffer_stream_fifo_witness:
  "\<exists>acc got s' h'. run_ops bs_write bs_read (\<lambda>h. h) (Addr 0 0) [SWrite ''abc'', SRead 2, SWrite ''d'', SRead 2]
       \<lparr>bs_data = empty_mbuf, bs_readOffset = 0\<rparr> (one_block ''....'') = Inr (acc, got, s', h') \<and>
     acc = got @ bs_contents h' s'"
  using buffer_stream_fifo [of "one_block ''....''" "\<lparr>bs_data = empty_mbuf, bs_readOffset = 0\<rparr>" "Addr 0 0" 4
      "[SWrite ''abc'', SRead 2, SWrite ''d'', SRead 2]"]
  by (auto simp: one_block_def heap_ok_def readable_def bs_ok_def bs_contents_def)

text \<open>
  \<^verbatim>\<open>write(Pipe*, n)\<close> moves the oldest bytes of the pipe, in order, to the end of the buffer stream, and keeps the
  pipe's count right, for every allocator and every short read.
\<close>

theorem buffer_stream_from_pipe:
  assumes "posix_pipes sys pipe_at queue sent" "bs_ok h s" "heap_ok h" "pipe_ok pipe_at queue p k"
    "0 < n" "b_size (bs_data s) + n \<le> MAX_REQ"
  shows "\<exists>rv s' p' h' k' bs. bs_write_pipe sys n s p (h, k) = Inr (rv, s', p', h', k') \<and> bs_ok h' s' \<and>
    pipe_ok pipe_at queue p' k' \<and> frame (owns (bs_data s)) h h' \<and> bs_contents h' s' = bs_contents h s @ bs \<and>
    queue k (p_rd p) = bs @ queue k' (p_rd p) \<and> length bs \<le> n \<and> (rv = int (length bs) \<or> bs = [] \<and> rv = - 1)"
  using posix_pipes.bs_write_pipe_law [OF assms] unfolding taken_def by blast

theorem buffer_stream_from_pipe_witness:
  "\<exists>rv s' p' h' k' bs. bs_write_pipe queue_sys 5 \<lparr>bs_data = empty_mbuf, bs_readOffset = 0\<rparr> \<lparr>p_rd = 3, p_wr = 4, p_size = 2\<rparr>
       (one_block [], two_pipes ''ab'' []) = Inr (rv, s', p', h', k') \<and> bs_contents h' s' = bs \<and> ''ab'' = bs @ q_queue k' 3"
  using buffer_stream_from_pipe [OF queue_kernel.posix_pipes_axioms, of "one_block []" "\<lparr>bs_data = empty_mbuf, bs_readOffset = 0\<rparr>"
      "\<lparr>p_rd = 3, p_wr = 4, p_size = 2\<rparr>" "two_pipes ''ab'' []" 5]
  by (auto simp: one_block_def heap_ok_def bs_ok_def bs_contents_def pipe_ok_def MAX_REQ_def)

text \<open>
  \<^verbatim>\<open>read(fd, n)\<close> sends bytes from the start of the buffer, not from the read offset: what it sends is what it
  consumes only if nothing was read before.
\<close>

theorem buffer_stream_read_fd_start:
  assumes "posix_pipes sys pipe_at queue sent" "bs_ok h s"
  shows "\<exists>rv s' k'. bs_read_fd sys fd n s (h, k) = Inr (rv, s', h, k') \<and> bs_ok h s' \<and>
    sent k' fd = sent k fd @ take (nat rv) (view h (bs_data s)) \<and>
    bs_contents h s' = drop (nat rv) (bs_contents h s) \<and>
    (bs_readOffset s = 0 \<longrightarrow> sent k' fd = sent k fd @ take (nat rv) (bs_contents h s))"
  using posix_pipes.bs_read_fd_law [OF assms, of fd n k] by (auto simp: bs_contents_def)

theorem buffer_stream_read_fd_start_witness:
  "\<exists>rv s' k'. bs_read_fd queue_sys 9 2 \<lparr>bs_data = mk_mbuf (Addr 0 0) 4 4, bs_readOffset = 2\<rparr> (one_block ''abcd'', two_pipes [] []) =
       Inr (rv, s', one_block ''abcd'', k') \<and> k_sent k' 9 = take (nat rv) ''abcd'' \<and>
     bs_contents (one_block ''abcd'') s' = drop (nat rv) ''cd''"
  using buffer_stream_read_fd_start [OF queue_kernel.posix_pipes_axioms, of "one_block ''abcd''"
      "\<lparr>bs_data = mk_mbuf (Addr 0 0) 4 4, bs_readOffset = 2\<rparr>" 9 2 "two_pipes [] []"]
  by (auto simp: example_simps buffer_ok_def block_at_def mk_mbuf_def bs_ok_def bs_contents_def)

text \<open>
  Reading from an empty \<^verbatim>\<open>BufferStream\<close> into an empty buffer that has storage frees that storage, because the
  read reserves zero bytes: the next append to the buffer is a use after free.
\<close>

theorem read_empty_stream_dangles:
  assumes s: "bs_ok h s" "bs_contents h s = []" and r: "buffer_ok h r" "b_size r = 0" "0 < b_cap r"
    and m: "0 < m" "m < SIZE_MOD"
  shows "\<exists>r' s' h'. bs_read_buffer n r s h = Inr (0, r', s', h') \<and>
    push_back mutableEnsure src m r' h' = Inl UseAfterFree"
proof -
  have sz: "bs_size s = 0" using bs_size_contents [OF s(1)] s(2) by simp
  obtain k xs where k: "b_data r = Addr k 0" "blocks h k = Some xs"
    using r by (auto simp: buffer_ok_def block_at_def)
  let ?h = "h\<lparr>blocks := (blocks h)(k := None)\<rparr>" and ?r = "r\<lparr>b_cap := 0\<rparr>"
  have "bs_read_buffer n r s h = Inr (0, ?r, bs_shift 0 s, ?h)"
    using sz k r by (simp add: bs_read_buffer_def reserve_def mutableEnsure_def setCapacity_def push_back_def)
  moreover have "push_back mutableEnsure src m ?r ?h = Inl UseAfterFree"
    using k m r by (simp add: push_back_def reserve_def mutableEnsure_def setCapacity_def setCapacity_realloc_def)
  ultimately show ?thesis by blast
qed

theorem read_empty_stream_dangles_witness:
  "\<exists>r' s' h'. bs_read_buffer 10 (mk_mbuf (Addr 0 0) 4 0) \<lparr>bs_data = empty_mbuf, bs_readOffset = 0\<rparr> (one_block ''....'') =
       Inr (0, r', s', h') \<and> push_back mutableEnsure (Local ''x'') 1 r' h' = Inl UseAfterFree"
  using read_empty_stream_dangles [of "one_block ''....''" "\<lparr>bs_data = empty_mbuf, bs_readOffset = 0\<rparr>"
      "mk_mbuf (Addr 0 0) 4 0" 1 10 "Local ''x''"]
  by (simp add: example_simps buffer_ok_def block_at_def mk_mbuf_def bs_ok_def bs_contents_def empty_mbuf_def)

end
