(* ===== verification/Chunked_Stream.thy ===== *)
theory Chunked_Stream
  imports Buffer_Stream
begin

text \<open>
  The class \<^verbatim>\<open>ChunkedStream\<close> (\<^verbatim>\<open>include/xio/ChunkedStream.h\<close>, \<^verbatim>\<open>lib/ChunkedStream.cpp\<close>): a queue of streams, each a
  \<^verbatim>\<open>BufferStream\<close> or a \<^verbatim>\<open>Pipe\<close>. Bytes are written to the last chunk and read from the first one, which is
  deleted once it is empty. The memory and the kernel are threaded through all calls.
\<close>

section \<open>State and operations\<close>

datatype chunk = BufChunk bstream | PipeChunk pipe

text \<open>The virtual calls on a chunk.\<close>

fun chunk_size :: "chunk \<Rightarrow> nat" where
  "chunk_size (BufChunk s) = bs_size s"
| "chunk_size (PipeChunk p) = p_size p"

fun chunk_write :: "'k sysops \<Rightarrow> source \<Rightarrow> nat \<Rightarrow> chunk \<Rightarrow> heap \<times> 'k \<Rightarrow> (int \<times> chunk \<times> heap \<times> 'k) res" where
  "chunk_write sys src n (BufChunk s) w =
     bnd (bs_write src n s (fst w)) (\<lambda>(rv, s', h'). Inr (rv, BufChunk s', h', snd w))"
| "chunk_write sys src n (PipeChunk p) w =
     bnd (Pipe_write sys src n p w) (\<lambda>(rv, p', w'). Inr (rv, PipeChunk p', w'))"

text \<open>From the pipe \<open>q\<close> into the chunk.\<close>

fun chunk_write_pipe :: "'k sysops \<Rightarrow> pipe \<Rightarrow> nat \<Rightarrow> stream_mode \<Rightarrow> chunk \<Rightarrow> heap \<times> 'k \<Rightarrow>
    (int \<times> chunk \<times> pipe \<times> heap \<times> 'k) res" where
  "chunk_write_pipe sys q n mode (BufChunk s) w =
     bnd (bs_write_pipe sys n s q w) (\<lambda>(rv, s', q', w'). Inr (rv, BufChunk s', q', w'))"
| "chunk_write_pipe sys q n mode (PipeChunk p) w =
     (case Pipe_write_pipe sys q n mode p (snd w) of (rv, q', p', k') \<Rightarrow> Inr (rv, PipeChunk p', q', fst w, k'))"

fun chunk_write_fd :: "'k sysops \<Rightarrow> int \<Rightarrow> nat \<Rightarrow> chunk \<Rightarrow> heap \<times> 'k \<Rightarrow> (int \<times> chunk \<times> heap \<times> 'k) res" where
  "chunk_write_fd sys fd n (BufChunk s) w =
     bnd (bs_write_fd sys fd n s w) (\<lambda>(rv, s', w'). Inr (rv, BufChunk s', w'))"
| "chunk_write_fd sys fd n (PipeChunk p) w =
     (case Pipe_write_fd sys fd n p (snd w) of (rv, p', k') \<Rightarrow> Inr (rv, PipeChunk p', fst w, k'))"

fun chunk_read :: "'k sysops \<Rightarrow> ptr \<Rightarrow> nat \<Rightarrow> chunk \<Rightarrow> heap \<times> 'k \<Rightarrow> (int \<times> chunk \<times> heap \<times> 'k) res" where
  "chunk_read sys dst n (BufChunk s) w =
     bnd (bs_read dst n s (fst w)) (\<lambda>(rv, s', h'). Inr (rv, BufChunk s', h', snd w))"
| "chunk_read sys dst n (PipeChunk p) w =
     bnd (Pipe_read sys dst n p w) (\<lambda>(rv, p', w'). Inr (rv, PipeChunk p', w'))"

text \<open>From the chunk into the pipe \<open>q\<close>, which is a part of the state.\<close>

fun chunk_read_pipe :: "'k sysops \<Rightarrow> nat \<Rightarrow> chunk \<Rightarrow> pipe \<times> heap \<times> 'k \<Rightarrow> (int \<times> chunk \<times> pipe \<times> heap \<times> 'k) res" where
  "chunk_read_pipe sys n (BufChunk s) (q, w) =
     bnd (bs_read_pipe sys n s q w) (\<lambda>(rv, s', q', w'). Inr (rv, BufChunk s', q', w'))"
| "chunk_read_pipe sys n (PipeChunk p) (q, w) =
     (case Pipe_read_pipe q p (snd w) of (rv, q', p', k') \<Rightarrow> Inr (rv, PipeChunk p', q', fst w, k'))"

fun chunk_read_fd :: "'k sysops \<Rightarrow> int \<Rightarrow> nat \<Rightarrow> chunk \<Rightarrow> heap \<times> 'k \<Rightarrow> (int \<times> chunk \<times> heap \<times> 'k) res" where
  "chunk_read_fd sys fd n (BufChunk s) w =
     bnd (bs_read_fd sys fd n s w) (\<lambda>(rv, s', w'). Inr (rv, BufChunk s', w'))"
| "chunk_read_fd sys fd n (PipeChunk p) w =
     (case Pipe_read_fd sys fd n p (snd w) of (rv, p', k') \<Rightarrow> Inr (rv, PipeChunk p', fst w, k'))"

fun chunk_read_char :: "'k sysops \<Rightarrow> chunk \<Rightarrow> heap \<times> 'k \<Rightarrow> (int \<times> chunk \<times> heap \<times> 'k) res" where
  "chunk_read_char sys (BufChunk s) w = bnd (bs_read_char s (fst w)) (\<lambda>(rv, s'). Inr (rv, BufChunk s', w))"
| "chunk_read_char sys (PipeChunk p) w =
     (case Pipe_read_char sys p (snd w) of (rv, p', k') \<Rightarrow> Inr (rv, PipeChunk p', fst w, k'))"

text \<open>\<^verbatim>\<open>delete chunk\<close>, through the virtual destructor.\<close>

fun chunk_delete :: "'k sysops \<Rightarrow> chunk \<Rightarrow> heap \<times> 'k \<Rightarrow> (heap \<times> 'k) res" where
  "chunk_delete sys (BufChunk s) w = bnd (Buffer_destroy (bs_data s) (fst w)) (\<lambda>h'. Inr (h', snd w))"
| "chunk_delete sys (PipeChunk p) w = Inr (fst w, Pipe_destroy sys p (snd w))"

definition cs_empty :: "chunk list \<Rightarrow> bool" where
  "cs_empty cs \<longleftrightarrow> (case cs of [] \<Rightarrow> True | c # _ \<Rightarrow> chunk_size c = 0)"

definition cs_size :: "chunk list \<Rightarrow> nat" where
  "cs_size cs = fold (\<lambda>c result. sz_add result (chunk_size c)) cs 0"

text \<open>
  \<^verbatim>\<open>buffer(size)\<close> and \<^verbatim>\<open>pipe(size)\<close> return the chunk to write to. That is always the last one of the new
  queue, so they return the queue.
\<close>

definition cs_buffer :: "nat \<Rightarrow> chunk list \<Rightarrow> heap \<Rightarrow> (chunk list \<times> heap) res" where
  "cs_buffer n cs h =
     (case (if cs = [] then None else Some (last cs)) of
        Some (BufChunk s) \<Rightarrow>
          if bs_size s < bs_capacity s then Inr (cs, h)
          else bnd (BufferStream_new n h) (\<lambda>(s', h'). Inr (cs @ [BufChunk s'], h'))
      | _ \<Rightarrow> bnd (BufferStream_new n h) (\<lambda>(s', h'). Inr (cs @ [BufChunk s'], h')))"

text \<open>\<^verbatim>\<open>O_NONBLOCK | O_CLOEXEC\<close>.\<close>

definition PIPE_FLAGS :: nat where
  "PIPE_FLAGS = 526336"

definition cs_pipe :: "'k sysops \<Rightarrow> nat \<Rightarrow> chunk list \<Rightarrow> 'k \<Rightarrow> chunk list \<times> 'k" where
  "cs_pipe sys n cs k =
     (case (if cs = [] then None else Some (last cs)) of
        Some (PipeChunk p) \<Rightarrow> (cs, k)
      | _ \<Rightarrow> (case Pipe_new sys PIPE_FLAGS k of (p, k') \<Rightarrow> (cs @ [PipeChunk p], k')))"

definition cs_write :: "'k sysops \<Rightarrow> source \<Rightarrow> nat \<Rightarrow> chunk list \<Rightarrow> heap \<times> 'k \<Rightarrow>
    (int \<times> chunk list \<times> heap \<times> 'k) res" where
  "cs_write sys src n cs w =
     bnd (cs_buffer n cs (fst w)) (\<lambda>(cs1, h1).
       bnd (chunk_write sys src n (last cs1) (h1, snd w)) (\<lambda>(rv, c, w'). Inr (rv, butlast cs1 @ [c], w')))"

text \<open>\<^verbatim>\<open>write(Socket*)\<close> and \<^verbatim>\<open>read(Socket*)\<close> are not implemented in the code and return 0.\<close>

definition cs_write_socket :: "nat \<Rightarrow> chunk list \<Rightarrow> int \<times> chunk list" where
  "cs_write_socket n cs = (0, cs)"

definition cs_read_socket :: "nat \<Rightarrow> chunk list \<Rightarrow> int \<times> chunk list" where
  "cs_read_socket n cs = (0, cs)"

definition cs_write_pipe :: "'k sysops \<Rightarrow> pipe \<Rightarrow> nat \<Rightarrow> stream_mode \<Rightarrow> chunk list \<Rightarrow> heap \<times> 'k \<Rightarrow>
    (int \<times> chunk list \<times> pipe \<times> heap \<times> 'k) res" where
  "cs_write_pipe sys q n mode cs w =
     (if mode = MOVE
      then case cs_pipe sys n cs (snd w) of (cs1, k1) \<Rightarrow>
        bnd (chunk_write_pipe sys q n mode (last cs1) (fst w, k1)) (\<lambda>(rv, c, q', w').
          Inr (rv, butlast cs1 @ [c], q', w'))
      else bnd (cs_buffer n cs (fst w)) (\<lambda>(cs1, h1).
        bnd (chunk_write_pipe sys q n MOVE (last cs1) (h1, snd w)) (\<lambda>(rv, c, q', w').
          Inr (rv, butlast cs1 @ [c], q', w'))))"

definition cs_write_fd :: "'k sysops \<Rightarrow> int \<Rightarrow> nat \<Rightarrow> chunk list \<Rightarrow> heap \<times> 'k \<Rightarrow>
    (int \<times> chunk list \<times> heap \<times> 'k) res" where
  "cs_write_fd sys fd n cs w =
     (case cs_pipe sys n cs (snd w) of (cs1, k1) \<Rightarrow>
        bnd (chunk_write_fd sys fd n (last cs1) (fst w, k1)) (\<lambda>(rv, c, w'). Inr (rv, butlast cs1 @ [c], w')))"

text \<open>
  The loop of the three reading operations, which differ in the call on the front chunk, \<open>get\<close>.
  \<open>None\<close> is a loop that does not end.
\<close>

partial_function (option) cs_drain :: "(nat \<Rightarrow> chunk \<Rightarrow> 'w \<Rightarrow> (int \<times> chunk \<times> 'w) res) \<Rightarrow>
    (chunk \<Rightarrow> 'w \<Rightarrow> 'w res) \<Rightarrow> nat \<Rightarrow> int \<Rightarrow> chunk list \<Rightarrow> 'w \<Rightarrow> (int \<times> chunk list \<times> 'w) res option" where
  "cs_drain get del n result cs w =
     (if \<not> cs_empty cs \<and> 0 < n
      then case get n (hd cs) w of
        Inl e \<Rightarrow> Some (Inl e)
      | Inr (rv, c, w1) \<Rightarrow>
          if rv < 0 then Some (Inr (if result \<noteq> 0 then result else - 1, c # tl cs, w1))
          else if chunk_size c = 0
          then case del c w1 of
            Inl e \<Rightarrow> Some (Inl e)
          | Inr w2 \<Rightarrow> cs_drain get del (if 0 < rv then sz_sub n (nat rv) else n) (result + rv) (tl cs) w2
          else cs_drain get del (if 0 < rv then sz_sub n (nat rv) else n) (result + rv) (c # tl cs) w1
      else Some (Inr (result, cs, w)))"

definition cs_read :: "'k sysops \<Rightarrow> ptr \<Rightarrow> nat \<Rightarrow> chunk list \<Rightarrow> heap \<times> 'k \<Rightarrow>
    (int \<times> chunk list \<times> heap \<times> 'k) res option" where
  "cs_read sys dst n cs w = cs_drain (chunk_read sys dst) (chunk_delete sys) n 0 cs w"

definition cs_read_pipe :: "'k sysops \<Rightarrow> pipe \<Rightarrow> nat \<Rightarrow> chunk list \<Rightarrow> heap \<times> 'k \<Rightarrow>
    (int \<times> chunk list \<times> pipe \<times> heap \<times> 'k) res option" where
  "cs_read_pipe sys q n cs w =
     cs_drain (chunk_read_pipe sys) (\<lambda>c (q, w). bnd (chunk_delete sys c w) (\<lambda>w'. Inr (q, w'))) n 0 cs (q, w)"

definition cs_read_fd :: "'k sysops \<Rightarrow> int \<Rightarrow> nat \<Rightarrow> chunk list \<Rightarrow> heap \<times> 'k \<Rightarrow>
    (int \<times> chunk list \<times> heap \<times> 'k) res option" where
  "cs_read_fd sys fd n cs w = cs_drain (chunk_read_fd sys fd) (chunk_delete sys) n 0 cs w"

definition cs_read_buffer :: "'k sysops \<Rightarrow> mbuf \<Rightarrow> nat \<Rightarrow> chunk list \<Rightarrow> heap \<times> 'k \<Rightarrow>
    (int \<times> mbuf \<times> chunk list \<times> heap \<times> 'k) res option" where
  "cs_read_buffer sys b n cs w =
     (case reserve mutableEnsure (sz_add (b_size b) n) b (fst w) of
        Inl e \<Rightarrow> Some (Inl e)
      | Inr (_, b1, h1) \<Rightarrow>
          map_option (\<lambda>r. bnd r (\<lambda>(rv, cs', w').
              Inr (rv, if 0 < rv then snd (resize (sz_add (b_size b1) (nat rv)) b1) else b1, cs', w')))
            (cs_read sys (ptr_add (b_data b1) (b_size b1)) n cs (h1, snd w)))"

definition cs_pop_front :: "'k sysops \<Rightarrow> chunk list \<Rightarrow> heap \<times> 'k \<Rightarrow> (chunk list \<times> heap \<times> 'k) res" where
  "cs_pop_front sys cs w = bnd (chunk_delete sys (hd cs) w) (\<lambda>w'. Inr (tl cs, w'))"

definition cs_read_char :: "'k sysops \<Rightarrow> chunk list \<Rightarrow> heap \<times> 'k \<Rightarrow> (int \<times> chunk list \<times> heap \<times> 'k) res" where
  "cs_read_char sys cs w =
     (if \<not> cs_empty cs
      then bnd (chunk_read_char sys (hd cs) w) (\<lambda>(ch, c, w1).
        if chunk_size c = 0
        then bnd (cs_pop_front sys (c # tl cs) w1) (\<lambda>(cs', w2). Inr (if ch \<noteq> - 1 then ch else - 1, cs', w2))
        else Inr (if ch \<noteq> - 1 then ch else - 1, c # tl cs, w1))
      else Inr (- 1, cs, w))"

text \<open>The destructor deletes all chunks; \<^verbatim>\<open>front()\<close> is a reader of the first chunk, or of no stream.\<close>

fun cs_destroy :: "'k sysops \<Rightarrow> chunk list \<Rightarrow> heap \<times> 'k \<Rightarrow> (heap \<times> 'k) res" where
  "cs_destroy sys [] w = Inr w"
| "cs_destroy sys (c # cs) w = bnd (chunk_delete sys c w) (cs_destroy sys cs)"

definition cs_front :: "chunk list \<Rightarrow> chunk option" where
  "cs_front cs = (if cs \<noteq> [] then Some (hd cs) else None)"

text \<open>\<^verbatim>\<open>StreamReader::read(char*, size_t)\<close> and \<^verbatim>\<open>StreamReader::read()\<close>, with the stream behind the pointer.\<close>

definition reader_read :: "'k sysops \<Rightarrow> ptr \<Rightarrow> nat \<Rightarrow> chunk option \<Rightarrow> heap \<times> 'k \<Rightarrow> (int \<times> chunk \<times> heap \<times> 'k) res" where
  "reader_read sys dst n r w = (case r of None \<Rightarrow> Inl NullDeref | Some c \<Rightarrow> chunk_read sys dst n c w)"

definition reader_read_char :: "'k sysops \<Rightarrow> chunk option \<Rightarrow> heap \<times> 'k \<Rightarrow> (int \<times> chunk \<times> heap \<times> 'k) res" where
  "reader_read_char sys r w = (case r of None \<Rightarrow> Inl NullDeref | Some c \<Rightarrow> chunk_read_char sys c w)"

section \<open>Invariant and contents\<close>

fun chunk_foot :: "chunk \<Rightarrow> nat set" where
  "chunk_foot (BufChunk s) = owns (bs_data s)"
| "chunk_foot (PipeChunk p) = {}"

fun chunk_pipe :: "chunk \<Rightarrow> int set" where
  "chunk_pipe (BufChunk s) = {}"
| "chunk_pipe (PipeChunk p) = {p_rd p}"

fun chunk_ok :: "('k \<Rightarrow> int \<Rightarrow> int \<Rightarrow> bool) \<Rightarrow> ('k \<Rightarrow> int \<Rightarrow> char list) \<Rightarrow> chunk \<Rightarrow> heap \<times> 'k \<Rightarrow> bool" where
  "chunk_ok pipe_at queue (BufChunk s) w \<longleftrightarrow> bs_ok (fst w) s"
| "chunk_ok pipe_at queue (PipeChunk p) w \<longleftrightarrow> pipe_ok pipe_at queue p (snd w)"

fun chunk_contents :: "('k \<Rightarrow> int \<Rightarrow> char list) \<Rightarrow> chunk \<Rightarrow> heap \<times> 'k \<Rightarrow> char list" where
  "chunk_contents queue (BufChunk s) w = bs_contents (fst w) s"
| "chunk_contents queue (PipeChunk p) w = queue (snd w) (p_rd p)"

definition separate :: "chunk \<Rightarrow> chunk \<Rightarrow> bool" where
  "separate c d \<longleftrightarrow> chunk_foot c \<inter> chunk_foot d = {} \<and> chunk_pipe c \<inter> chunk_pipe d = {}"

definition cs_ok :: "('k \<Rightarrow> int \<Rightarrow> int \<Rightarrow> bool) \<Rightarrow> ('k \<Rightarrow> int \<Rightarrow> char list) \<Rightarrow> chunk list \<Rightarrow> heap \<times> 'k \<Rightarrow> bool" where
  "cs_ok pipe_at queue cs w \<longleftrightarrow> heap_ok (fst w) \<and> (\<forall>c \<in> set cs. chunk_ok pipe_at queue c w) \<and> sorted_wrt separate cs"

definition cs_contents :: "('k \<Rightarrow> int \<Rightarrow> char list) \<Rightarrow> chunk list \<Rightarrow> heap \<times> 'k \<Rightarrow> char list" where
  "cs_contents queue cs w = concat (map (\<lambda>c. chunk_contents queue c w) cs)"

text \<open>No chunk is empty: what writing leaves if the allocator grants, and reading keeps.\<close>

definition cs_packed :: "chunk list \<Rightarrow> bool" where
  "cs_packed cs \<longleftrightarrow> (\<forall>c \<in> set cs. chunk_size c \<noteq> 0)"

text \<open>A step that writes to the blocks \<open>K\<close> and the pipes \<open>P\<close> only.\<close>

definition spares :: "('k \<Rightarrow> int \<Rightarrow> int \<Rightarrow> bool) \<Rightarrow> ('k \<Rightarrow> int \<Rightarrow> char list) \<Rightarrow> nat set \<Rightarrow> int set \<Rightarrow>
    heap \<times> 'k \<Rightarrow> heap \<times> 'k \<Rightarrow> bool" where
  "spares pipe_at queue K P w w' \<longleftrightarrow> frame K (fst w) (fst w') \<and>
     (\<forall>r x. pipe_at (snd w) r x \<longrightarrow> r \<notin> P \<longrightarrow> pipe_at (snd w') r x \<and> queue (snd w') r = queue (snd w) r)"

lemma chunk_size_contents: "chunk_ok pipe_at queue c w \<Longrightarrow> chunk_size c = length (chunk_contents queue c w)"
  by (cases c) (simp_all add: bs_size_contents pipe_ok_def)

lemma chunk_spared:
  assumes "chunk_ok pipe_at queue c w" "heap_ok (fst w)" "spares pipe_at queue K P w w'"
    "chunk_foot c \<inter> K = {}" "chunk_pipe c \<inter> P = {}"
  shows "chunk_ok pipe_at queue c w'" "chunk_contents queue c w' = chunk_contents queue c w"
proof -
  have f: "frame K (fst w) (fst w')" using assms(3) by (simp add: spares_def)
  have "chunk_ok pipe_at queue c w' \<and> chunk_contents queue c w' = chunk_contents queue c w"
  proof (cases c)
    case (BufChunk s)
    then show ?thesis using assms bs_frame [OF _ assms(2) f] by simp
  next
    case (PipeChunk p)
    then show ?thesis using assms by (auto simp: spares_def pipe_ok_def)
  qed
  then show "chunk_ok pipe_at queue c w'" "chunk_contents queue c w' = chunk_contents queue c w" by auto
qed

lemma cs_spared:
  assumes "cs_ok pipe_at queue cs w" "spares pipe_at queue K P w w'" "heap_ok (fst w')"
    "\<forall>c \<in> set cs. chunk_foot c \<inter> K = {} \<and> chunk_pipe c \<inter> P = {}"
  shows "cs_ok pipe_at queue cs w'" "cs_contents queue cs w' = cs_contents queue cs w"
proof -
  have "chunk_ok pipe_at queue c w' \<and> chunk_contents queue c w' = chunk_contents queue c w" if "c \<in> set cs" for c
    using that chunk_spared [OF _ _ assms(2)] assms(1,4) by (auto simp: cs_ok_def)
  then show "cs_ok pipe_at queue cs w'" "cs_contents queue cs w' = cs_contents queue cs w"
    using assms(1,3) by (auto simp: cs_ok_def cs_contents_def intro: arg_cong [where f = concat] map_cong)
qed

text \<open>The chunks behind one that is changed or deleted.\<close>

lemma cs_spared_tl:
  assumes "cs_ok pipe_at queue cs w" "spares pipe_at queue (chunk_foot c) (chunk_pipe c) w w'" "heap_ok (fst w')"
    "\<forall>d \<in> set cs. separate c d"
  shows "cs_ok pipe_at queue cs w'" "cs_contents queue cs w' = cs_contents queue cs w"
proof -
  have "\<forall>d \<in> set cs. chunk_foot d \<inter> chunk_foot c = {} \<and> chunk_pipe d \<inter> chunk_pipe c = {}"
    using assms(4) by (auto simp: separate_def)
  then show "cs_ok pipe_at queue cs w'" "cs_contents queue cs w' = cs_contents queue cs w"
    using cs_spared [OF assms(1-3)] by simp_all
qed

lemma cs_ok_Nil [simp]: "cs_ok pipe_at queue [] w \<longleftrightarrow> heap_ok (fst w)"
  by (simp add: cs_ok_def)

lemma cs_ok_Cons [simp]:
  "cs_ok pipe_at queue (c # cs) w \<longleftrightarrow>
     chunk_ok pipe_at queue c w \<and> cs_ok pipe_at queue cs w \<and> (\<forall>d \<in> set cs. separate c d)"
  by (auto simp: cs_ok_def)

lemma cs_ok_snoc:
  "cs_ok pipe_at queue (cs @ [c]) w \<longleftrightarrow>
     chunk_ok pipe_at queue c w \<and> cs_ok pipe_at queue cs w \<and> (\<forall>d \<in> set cs. separate d c)"
  by (auto simp: cs_ok_def sorted_wrt_append)

lemma cs_contents_simps [simp]:
  "cs_contents queue [] w = []"
  "cs_contents queue (c # cs) w = chunk_contents queue c w @ cs_contents queue cs w"
  "cs_contents queue (cs @ ds) w = cs_contents queue cs w @ cs_contents queue ds w"
  by (simp_all add: cs_contents_def)

lemma cs_packed_simps [simp]:
  "cs_packed []" "cs_packed (c # cs) \<longleftrightarrow> chunk_size c \<noteq> 0 \<and> cs_packed cs"
  "cs_packed (cs @ ds) \<longleftrightarrow> cs_packed cs \<and> cs_packed ds"
  by (auto simp: cs_packed_def)

lemma cs_empty_packed: "cs_packed cs \<Longrightarrow> cs_empty cs \<longleftrightarrow> cs = []"
  by (cases cs) (auto simp: cs_empty_def)

lemma chunk_foot_old: "chunk_ok pipe_at queue c w \<Longrightarrow> heap_ok (fst w) \<Longrightarrow> chunk_foot c \<subseteq> {k. k < next_block (fst w)}"
  using live by (cases c) (auto simp: bs_ok_def)

lemma cs_size_contents:
  assumes "cs_ok pipe_at queue cs w" "length (cs_contents queue cs w) < SIZE_MOD"
  shows "cs_size cs = length (cs_contents queue cs w)"
proof -
  have "fold (\<lambda>c result. sz_add result (chunk_size c)) cs a = a + length (cs_contents queue cs w)"
    if "a + length (cs_contents queue cs w) < SIZE_MOD" for a
    using assms(1) that by (induction cs arbitrary: a) (auto simp: chunk_size_contents)
  then show ?thesis using assms(2) by (simp add: cs_size_def)
qed

section \<open>Reading\<close>

lemma bs_read_char_law:
  assumes ok: "bs_ok h s" and c: "bs_contents h s = c # cs"
  shows "\<exists>s'. bs_read_char s h = Inr (schar c, s') \<and> bs_ok h s' \<and> bs_contents h s' = cs \<and> bs_data s' = bs_data s"
proof -
  let ?s = "s\<lparr>bs_readOffset := bs_readOffset s + 1\<rparr>"
  have sz: "bs_size s = Suc (length cs)" using bs_size_contents [OF ok] c by simp
  then have lt: "bs_readOffset s < b_size (bs_data s)" using bs_size_eq [OF ok] by simp
  have "load h (ptr_add (b_data (bs_data s)) (bs_readOffset s)) 1 = Inr [c]"
    using bs_front [OF ok, of 1] sz c by simp
  moreover have "b_size (bs_data s) < SIZE_MOD" using ok by (auto simp: bs_ok_def buffer_ok_def)
  ultimately have "bs_read_char s h = Inr (schar c, ?s)" using lt by (simp add: bs_read_char_def load1_def)
  moreover have "bs_contents h ?s = tl (bs_contents h s)" by (simp add: bs_contents_def drop_Suc tl_drop)
  ultimately show ?thesis using ok lt c by (auto simp: bs_ok_def)
qed

context posix_pipes
begin

lemma pipe_read_front:
  assumes p: "pipe_ok pipe_at queue p k" and ne: "queue k (p_rd p) \<noteq> []" and n: "0 < n" and rd: "readable h dst n"
  shows "\<exists>bs h' k'. Pipe_read sys dst n p (h, k) = Inr (int (length bs), shrunk (int (length bs)) p, h', k') \<and>
    bs \<noteq> [] \<and> length bs \<le> n \<and> taken pipe_at queue (p_rd p) bs k k' \<and> store h dst bs = Inr h' \<and>
    pipe_ok pipe_at queue (shrunk (int (length bs)) p) k'"
proof -
  have at: "pipe_at k (p_rd p) (p_wr p)" "p_size p = length (queue k (p_rd p))" "p_size p < SIZE_MOD"
    using p by (simp_all add: pipe_ok_def)
  obtain bs k' where c: "sys_read sys (p_rd p) n k = (Inr bs, k')" "bs \<noteq> []"
    using read_delivers [OF at(1) ne n] by blast
  note R = read_takes [OF at(1) c(1)]
  obtain h' where st: "store h dst bs = Inr h'" using store_ok readable_mono [OF rd, of "length bs"] R by blast
  have "length bs \<le> p_size p" using R at(2) by simp
  then have "p_size (shrunk (int (length bs)) p) = p_size p - length bs" using at(3) by (rule shrunk_size)
  then have "pipe_ok pipe_at queue (shrunk (int (length bs)) p) k'" using R at by (simp add: pipe_ok_def)
  then show ?thesis using c st R
    by (intro exI [of _ bs] exI [of _ h'] exI [of _ k']) (simp add: Pipe_read_def read_into_def taken_def)
qed

lemma taken_spares:
  "taken pipe_at queue r bs k k' \<Longrightarrow> frame K h h' \<Longrightarrow> spares pipe_at queue K {r} (h, k) (h', k')"
  by (auto simp: spares_def taken_def)

lemma chunk_read_law:
  assumes ok: "chunk_ok pipe_at queue c w" "heap_ok (fst w)" and ne: "chunk_contents queue c w \<noteq> []"
    and n: "0 < n" "n < 9223372036854775808" and rd: "readable (fst w) dst n" and dis: "ptr_block dst \<inter> chunk_foot c = {}"
  shows "\<exists>bs c' w'. chunk_read sys dst n c w = Inr (int (length bs), c', w') \<and> bs \<noteq> [] \<and> length bs \<le> n \<and>
    chunk_contents queue c w = bs @ chunk_contents queue c' w' \<and> chunk_ok pipe_at queue c' w' \<and>
    spares pipe_at queue (ptr_block dst) (chunk_pipe c) w w' \<and> chunk_foot c' = chunk_foot c \<and>
    chunk_pipe c' = chunk_pipe c \<and> store (fst w) dst bs = Inr (fst w') \<and>
    (\<forall>s. c = BufChunk s \<longrightarrow> bs = take n (bs_contents (fst w) s))"
proof (cases c)
  case (BufChunk s)
  obtain m h' where 1: "bs_read dst n s (fst w) = Inr (int m, bs_shift m s, h')" "m = min n (bs_size s)"
    "store (fst w) dst (take m (bs_contents (fst w) s)) = Inr h'" "bs_ok h' (bs_shift m s)"
    "bs_contents h' (bs_shift m s) = drop m (bs_contents (fst w) s)"
    using bs_read_law [of "fst w" s dst n] assms BufChunk by auto
  have "m \<le> bs_size s" and sz: "bs_size s = length (bs_contents (fst w) s)"
    using 1(2) bs_size_contents ok(1) BufChunk by auto
  moreover have "take m (bs_contents (fst w) s) = take n (bs_contents (fst w) s)"
    "drop m (bs_contents (fst w) s) = drop n (bs_contents (fst w) s)" using 1(2) sz by (simp_all add: min_def)
  moreover have "owns (bs_data (bs_shift m s)) = owns (bs_data s)"
    using bs_shift_ok(3) ok(1) BufChunk \<open>m \<le> bs_size s\<close> by simp
  moreover have "m \<noteq> 0" using 1(2) sz ne n BufChunk by simp
  ultimately show ?thesis using 1 ne BufChunk store_blocks(2) [OF 1(3)]
    by (intro exI [of _ "take m (bs_contents (fst w) s)"] exI [of _ "BufChunk (bs_shift m s)"] exI [of _ "(h', snd w)"])
      (auto simp: spares_def)
next
  case (PipeChunk p)
  obtain bs h' k' where 1: "Pipe_read sys dst n p (fst w, snd w) = Inr (int (length bs), shrunk (int (length bs)) p, h', k')"
    "bs \<noteq> []" "length bs \<le> n" "taken pipe_at queue (p_rd p) bs (snd w) k'" "store (fst w) dst bs = Inr h'"
    "pipe_ok pipe_at queue (shrunk (int (length bs)) p) k'"
    using pipe_read_front [of p "snd w" n "fst w" dst] assms PipeChunk by auto
  then show ?thesis using PipeChunk taken_spares [OF 1(4) store_blocks(2) [OF 1(5)]]
    by (intro exI [of _ bs] exI [of _ "PipeChunk (shrunk (int (length bs)) p)"] exI [of _ "(h', k')"])
      (auto simp: taken_def)
qed

lemma close_spares: "pipe_at k r x \<Longrightarrow> spares pipe_at queue K {r} (h, k) (h, sys_close sys x (sys_close sys r k))"
proof -
  assume a: "pipe_at k r x"
  have "pipe_at (sys_close sys x (sys_close sys r k)) r' x' \<and> queue (sys_close sys x (sys_close sys r k)) r' = queue k r'"
    if "pipe_at k r' x'" "r' \<noteq> r" for r' x'
  proof -
    have d: "x' \<noteq> x" "x' \<noteq> r" "r' \<noteq> x"
      using pipe_ends [OF that(1) a] pipe_ends_differ [OF a that(1)] pipe_ends_differ [OF that(1) a] that(2) by auto
    show ?thesis using close_other [OF that(2) d(2) that(1)] close_other [OF d(3,1)] by auto
  qed
  then show ?thesis by (simp add: spares_def)
qed

lemma chunk_delete_law:
  assumes "chunk_ok pipe_at queue c w" "heap_ok (fst w)"
  shows "\<exists>w'. chunk_delete sys c w = Inr w' \<and> heap_ok (fst w') \<and> spares pipe_at queue (chunk_foot c) (chunk_pipe c) w w' \<and>
    moves (chunk_foot c) {} (fst w) (fst w')"
proof (cases c)
  case (BufChunk s)
  then show ?thesis using Buffer_destroy_spec [of "fst w" "bs_data s"] assms by (auto simp: bs_ok_def spares_def)
next
  case (PipeChunk p)
  have at: "pipe_at (snd w) (p_rd p) (p_wr p)" using assms(1) PipeChunk by (simp add: pipe_ok_def)
  then show ?thesis using PipeChunk assms(2) close_spares [OF at, of "{}" "fst w"] pipe_fds [OF at]
    by (simp add: Pipe_destroy_def Pipe_isOpen_def)
qed

lemma chunk_read_char_law:
  assumes ok: "chunk_ok pipe_at queue c w" and ne: "chunk_contents queue c w = b # bs"
  shows "\<exists>c' w'. chunk_read_char sys c w = Inr (schar b, c', w') \<and> chunk_contents queue c' w' = bs \<and>
    chunk_ok pipe_at queue c' w' \<and> spares pipe_at queue {} (chunk_pipe c) w w' \<and> fst w' = fst w \<and>
    chunk_foot c' = chunk_foot c \<and> chunk_pipe c' = chunk_pipe c"
proof (cases c)
  case (BufChunk s)
  then obtain s' where "bs_read_char s (fst w) = Inr (schar b, s')" "bs_ok (fst w) s'" "bs_contents (fst w) s' = bs"
    "bs_data s' = bs_data s"
    using bs_read_char_law [of "fst w" s b bs] assms by auto
  then show ?thesis using BufChunk by (auto simp: spares_def)
next
  case (PipeChunk p)
  have p: "pipe_ok pipe_at queue p (snd w)" "queue (snd w) (p_rd p) = b # bs" using assms PipeChunk by simp_all
  then have at: "pipe_at (snd w) (p_rd p) (p_wr p)" "p_size p = Suc (length bs)" "p_size p < SIZE_MOD"
    by (simp_all add: pipe_ok_def)
  obtain ds k' where r: "sys_read sys (p_rd p) 1 (snd w) = (Inr ds, k')" "ds \<noteq> []"
    using read_delivers [OF at(1), of 1] p(2) by auto
  note R = read_takes [OF at(1) r(1)]
  obtain d t where dt: "ds = d # t" using r(2) by (cases ds) auto
  then have "t = []" using R by simp
  then have ds: "ds = [b]" "queue k' (p_rd p) = bs" using R p(2) dt by simp_all
  have "Pipe_read_char sys p (snd w) = (schar b, shrunk 1 p, k')"
    using r(1) at ds(1) by (simp add: Pipe_read_char_def)
  moreover have "pipe_ok pipe_at queue (shrunk 1 p) k'"
    using R at ds(2) shrunk_size [of 1 p] by (simp add: pipe_ok_def)
  moreover have "spares pipe_at queue {} {p_rd p} w (fst w, k')" using R by (auto simp: spares_def)
  ultimately show ?thesis using PipeChunk ds(2)
    by (intro exI [of _ "PipeChunk (shrunk 1 p)"] exI [of _ "(fst w, k')"]) simp
qed

lemma cs_drain_step:
  assumes ok: "cs_ok pipe_at queue (c # cs) w" "cs_packed (c # cs)" and n: "0 < n" "n < 9223372036854775808"
    and rd: "readable (fst w) dst n" and dis: "\<forall>d \<in> set (c # cs). ptr_block dst \<inter> chunk_foot d = {}"
  shows "\<exists>bs cs' w'. cs_drain (chunk_read sys dst) (chunk_delete sys) n result (c # cs) w =
      cs_drain (chunk_read sys dst) (chunk_delete sys) (n - length bs) (result + int (length bs)) cs' w' \<and>
    bs \<noteq> [] \<and> length bs \<le> n \<and> cs_ok pipe_at queue cs' w' \<and> cs_packed cs' \<and> readable (fst w') dst n \<and>
    (\<forall>d \<in> set cs'. ptr_block dst \<inter> chunk_foot d = {}) \<and> cs_contents queue (c # cs) w = bs @ cs_contents queue cs' w' \<and>
    bytes_at (fst w') dst (length bs) = bs \<and>
    (\<forall>s. c = BufChunk s \<longrightarrow> length (bs_contents (fst w) s) \<le> n \<longrightarrow> bs = bs_contents (fst w) s \<and> cs' = cs)"
proof -
  note D = cs_drain.simps [of "chunk_read sys dst" "chunk_delete sys" n result "c # cs" w]
  have c: "chunk_ok pipe_at queue c w" "heap_ok (fst w)" "chunk_contents queue c w \<noteq> []" "ptr_block dst \<inter> chunk_foot c = {}"
    using ok dis chunk_size_contents [of pipe_at queue c w] by (auto simp: cs_ok_def)
  obtain bs c' w1 where 1: "chunk_read sys dst n c w = Inr (int (length bs), c', w1)" "bs \<noteq> []" "length bs \<le> n"
    "chunk_contents queue c w = bs @ chunk_contents queue c' w1" "chunk_ok pipe_at queue c' w1"
    "spares pipe_at queue (ptr_block dst) (chunk_pipe c) w w1" "chunk_foot c' = chunk_foot c" "chunk_pipe c' = chunk_pipe c"
    "store (fst w) dst bs = Inr (fst w1)" "\<forall>s. c = BufChunk s \<longrightarrow> bs = take n (bs_contents (fst w) s)"
    using chunk_read_law [OF c(1-3) n rd c(4)] by blast
  have sep: "chunk_foot d \<inter> ptr_block dst = {} \<and> chunk_pipe d \<inter> chunk_pipe c = {}" if "d \<in> set cs" for d
    using that dis ok by (auto simp: separate_def)
  have h1: "heap_ok (fst w1)" using store_blocks(1) [OF 1(9)] c(2) .
  note S = cs_spared [OF _ 1(6) h1, of cs]
  have T: "cs_ok pipe_at queue cs w1" "cs_contents queue cs w1 = cs_contents queue cs w" using S ok sep by auto
  have rd1: "readable (fst w1) dst n" using rd by (simp add: readable_store [OF 1(9)])
  have st: "bytes_at (fst w1) dst (length bs) = bs" using bytes_at_store_same [OF 1(9)] readable_mono [OF rd 1(3)] .
  have all: "bs = bs_contents (fst w) s \<and> chunk_size c' = 0" if "c = BufChunk s" "length (bs_contents (fst w) s) \<le> n" for s
    using that 1(4,10) chunk_size_contents [OF 1(5)] by simp
  have ne: "\<not> cs_empty (c # cs)" using ok by (simp add: cs_empty_def)
  have sz: "sz_sub n (length bs) = n - length bs" using 1(3) n by simp
  show ?thesis
  proof (cases "chunk_size c' = 0")
    case False
    then show ?thesis using D 1 T ok ne n sz dis rd1 st all
      by (intro exI [of _ bs] exI [of _ "c' # cs"] exI [of _ w1]) (auto simp: separate_def)
  next
    case True
    obtain w2 where 2: "chunk_delete sys c' w1 = Inr w2" "heap_ok (fst w2)"
      "spares pipe_at queue (chunk_foot c') (chunk_pipe c') w1 w2"
      using chunk_delete_law [OF 1(5) h1] by blast
    have "cs_ok pipe_at queue cs w2" "cs_contents queue cs w2 = cs_contents queue cs w1"
      using cs_spared_tl [OF T(1) 2(3,2)] ok 1(7,8) by (auto simp: separate_def)
    moreover have "readable (fst w2) dst n"
      using readable_frame [of "chunk_foot c'" "fst w1" "fst w2" dst n] 2(3) h1 c(4) rd1 1(7) by (simp add: spares_def)
    moreover have "chunk_contents queue c' w1 = []" using True chunk_size_contents [OF 1(5)] by simp
    moreover have "bytes_at (fst w2) dst (length bs) = bs"
      using bytes_at_frame [of "chunk_foot c'" "fst w1" "fst w2" dst "length bs"] 2(3) h1 c(4) rd1 1(3,7) st
      by (simp add: spares_def readable_mono)
    ultimately show ?thesis using D 1 2 T ok ne n sz dis True all
      by (intro exI [of _ bs] exI [of _ cs] exI [of _ w2]) auto
  qed
qed

lemma cs_drain_law:
  assumes "cs_ok pipe_at queue cs w" "cs_packed cs" "n < 9223372036854775808" "readable (fst w) dst n"
    "\<forall>d \<in> set cs. ptr_block dst \<inter> chunk_foot d = {}"
  shows "\<exists>cs' w'. cs_drain (chunk_read sys dst) (chunk_delete sys) n result cs w =
      Some (Inr (result + int (min n (length (cs_contents queue cs w))), cs', w')) \<and>
    cs_ok pipe_at queue cs' w' \<and> cs_packed cs' \<and> cs_contents queue cs' w' = drop n (cs_contents queue cs w)"
  using assms
proof (induction n arbitrary: result cs w rule: less_induct)
  case (less n)
  show ?case
  proof (cases "cs = [] \<or> n = 0")
    case True
    then have "cs_drain (chunk_read sys dst) (chunk_delete sys) n result cs w = Some (Inr (result, cs, w))"
      by (auto simp: cs_drain.simps [of _ _ n result cs w] cs_empty_def)
    then show ?thesis using less.prems True by (intro exI [of _ cs] exI [of _ w]) auto
  next
    case False
    then obtain c ds where cs: "cs = c # ds" and n: "0 < n" by (cases cs) auto
    obtain bs cs1 w1 where 1: "cs_drain (chunk_read sys dst) (chunk_delete sys) n result cs w =
        cs_drain (chunk_read sys dst) (chunk_delete sys) (n - length bs) (result + int (length bs)) cs1 w1"
      "bs \<noteq> []" "length bs \<le> n" "cs_ok pipe_at queue cs1 w1" "cs_packed cs1" "readable (fst w1) dst n"
      "\<forall>d \<in> set cs1. ptr_block dst \<inter> chunk_foot d = {}" "cs_contents queue cs w = bs @ cs_contents queue cs1 w1"
      using cs_drain_step [OF less.prems(1,2) [unfolded cs] n less.prems(3,4) less.prems(5) [unfolded cs]] cs by blast
    have "n - length bs < n" using 1(2) n by simp
    moreover have "n - length bs < 9223372036854775808" using less.prems(3) by simp
    moreover have "readable (fst w1) dst (n - length bs)" using readable_mono [OF 1(6)] by simp
    ultimately obtain cs' w' where "cs_drain (chunk_read sys dst) (chunk_delete sys) (n - length bs) (result + int (length bs)) cs1 w1 =
        Some (Inr (result + int (length bs) + int (min (n - length bs) (length (cs_contents queue cs1 w1))), cs', w'))"
      "cs_ok pipe_at queue cs' w'" "cs_packed cs'" "cs_contents queue cs' w' = drop (n - length bs) (cs_contents queue cs1 w1)"
      using less.IH [OF _ 1(4,5) _ _ 1(7), of "n - length bs" "result + int (length bs)"] by blast
    then show ?thesis using 1(1,3,8) by (intro exI [of _ cs'] exI [of _ w']) (auto simp: min_def)
  qed
qed

lemma cs_read_char_law:
  assumes ok: "cs_ok pipe_at queue cs w" "cs_packed cs"
  shows "\<exists>rv cs' w'. cs_read_char sys cs w = Inr (rv, cs', w') \<and> cs_ok pipe_at queue cs' w' \<and> cs_packed cs' \<and>
    answers (fst w') = answers (fst w) \<and>
    (\<forall>s. BufChunk s \<in> set cs' \<longrightarrow> (\<exists>t. BufChunk t \<in> set cs \<and> bs_data t = bs_data s)) \<and>
    (case cs_contents queue cs w of [] \<Rightarrow> rv = - 1 \<and> cs' = cs \<and> w' = w
     | b # bs \<Rightarrow> rv = schar b \<and> cs_contents queue cs' w' = bs)"
proof (cases cs)
  case Nil
  then show ?thesis using ok by (simp add: cs_read_char_def cs_empty_def)
next
  case (Cons c ds)
  then have c: "chunk_ok pipe_at queue c w" "heap_ok (fst w)" "chunk_contents queue c w \<noteq> []"
    using ok chunk_size_contents [of pipe_at queue c w] by (auto simp: cs_ok_def)
  then obtain b bs where bs: "chunk_contents queue c w = b # bs" by (cases "chunk_contents queue c w") auto
  have ne: "\<not> cs_empty (c # ds)" using ok Cons by (simp add: cs_empty_def)
  have buf: "\<exists>t. c = BufChunk t \<and> bs_data t = bs_data s"
    if "chunk_read_char sys c w = Inr (rv, BufChunk s, w1)" for rv s w1
    using that by (cases c) (auto simp: bs_read_char_def bnd_eq_Inr split: if_splits prod.splits)
  obtain c' w1 where 1: "chunk_read_char sys c w = Inr (schar b, c', w1)" "chunk_contents queue c' w1 = bs"
    "chunk_ok pipe_at queue c' w1" "spares pipe_at queue {} (chunk_pipe c) w w1" "fst w1 = fst w"
    "chunk_foot c' = chunk_foot c" "chunk_pipe c' = chunk_pipe c"
    using chunk_read_char_law [OF c(1) bs] by blast
  have h1: "heap_ok (fst w1)" using c(2) 1(5) by simp
  have T: "cs_ok pipe_at queue ds w1" "cs_contents queue ds w1 = cs_contents queue ds w"
    using cs_spared [OF _ 1(4) h1, of ds] ok Cons by (auto simp: separate_def Int_commute)
  show ?thesis
  proof (cases "chunk_size c' = 0")
    case False
    then show ?thesis using 1 T ok Cons ne bs buf [of "schar b" _ w1]
      by (intro exI [of _ "schar b"] exI [of _ "c' # ds"] exI [of _ w1]) (auto simp: cs_read_char_def separate_def)
  next
    case True
    obtain w2 where 2: "chunk_delete sys c' w1 = Inr w2" "heap_ok (fst w2)"
      "spares pipe_at queue (chunk_foot c') (chunk_pipe c') w1 w2"
      using chunk_delete_law [OF 1(3) h1] by blast
    have "cs_ok pipe_at queue ds w2" "cs_contents queue ds w2 = cs_contents queue ds w1"
      using cs_spared_tl [OF T(1) 2(3,2)] ok 1(6,7) Cons by (auto simp: separate_def)
    moreover have "bs = []" using True chunk_size_contents [OF 1(3)] 1(2) by simp
    moreover have "answers (fst w2) = answers (fst w)" using 2(3) 1(5) by (simp add: spares_def frame_def)
    moreover have "cs_read_char sys cs w = Inr (schar b, ds, w2)"
      using 1(1) 2(1) True ne Cons by (simp add: cs_read_char_def cs_pop_front_def)
    ultimately show ?thesis using T ok Cons bs
      by (intro exI [of _ "schar b"] exI [of _ ds] exI [of _ w2]) auto
  qed
qed

end

section \<open>Writing\<close>

definition cs_room :: "chunk list \<Rightarrow> nat \<Rightarrow> bool" where
  "cs_room cs n \<longleftrightarrow> n < 9223372036854775808 \<and>
     (\<forall>s. BufChunk s \<in> set cs \<longrightarrow> b_size (bs_data s) + n < 9223372036854775808)"

lemma source_old:
  "heap_ok h \<Longrightarrow> fetch h src n = Inr bs \<Longrightarrow> 0 < n \<Longrightarrow> source_block src \<subseteq> {k. k < next_block h}"
  by (cases src; simp) (case_tac x1; auto dest: live_lt_next split: if_splits option.splits)

lemma BufferStream_new_law:
  assumes "heap_ok h" "0 < n" "n < 9223372036854775808"
  shows "\<exists>s h'. BufferStream_new n h = Inr (s, h') \<and> bs_ok h' s \<and> heap_ok h' \<and> frame {} h h' \<and>
    owns (bs_data s) \<inter> {k. k < next_block h} = {} \<and> bs_contents h' s = [] \<and> b_size (bs_data s) = 0 \<and>
    (answers h (next_block h) n \<noteq> Refuse \<longrightarrow> n \<le> b_cap (bs_data s))"
proof -
  have n: "n \<le> MAX_REQ" using assms(3) by (simp add: MAX_REQ_def)
  obtain granted b' h' where 1: "mutableEnsure n empty_mbuf h = Inr (granted, b', h')" "buffer_ok h' b'" "heap_ok h'"
    "frame {} h h'" "b_size b' = 0" "view h' b' = []" "moves {} (owns b') h h'" "granted \<longrightarrow> n \<le> b_cap b'"
    "granted \<longleftrightarrow> n \<le> 0 \<or> answers h (next_block h) (target_cap n empty_mbuf) \<noteq> Refuse"
    by (rule mutableEnsure_spec [OF buffer_ok_empty assms(1,2) n]) auto
  then have "owns b' \<inter> {k. k < next_block h} = {}" using moves_fresh [OF 1(7)] by auto
  then show ?thesis using 1 assms(2)
    by (simp add: BufferStream_new_def Buffer_cap_def reserve_def bs_ok_def bs_contents_def target_cap_def)
qed

text \<open>The chunk that \<^verbatim>\<open>buffer(size)\<close> selects.\<close>

lemma cs_buffer_law:
  assumes ok: "cs_ok pipe_at queue cs (h, k)" and n: "0 < n" "n < 9223372036854775808"
    and src: "fetch h src n = Inr bs" "\<forall>c \<in> set cs. source_block src \<inter> chunk_foot c = {}"
  obtains ds s h' where "cs_buffer n cs h = Inr (ds @ [BufChunk s], h')" "cs_ok pipe_at queue (ds @ [BufChunk s]) (h', k)"
    "cs_contents queue (ds @ [BufChunk s]) (h', k) = cs_contents queue cs (h, k)" "frame {} h h'"
    "source_block src \<inter> owns (bs_data s) = {}" "cs_packed cs \<longrightarrow> cs_packed ds"
    "\<forall>m. cs_room cs m \<longrightarrow> cs_room (ds @ [BufChunk s]) m"
proof -
  note give = that
  have hok: "heap_ok h" using ok by (simp add: cs_ok_def)
  have new: "thesis" if eq: "cs_buffer n cs h = bnd (BufferStream_new n h) (\<lambda>(s', h'). Inr (cs @ [BufChunk s'], h'))"
  proof -
    obtain s h' where 1: "BufferStream_new n h = Inr (s, h')" "bs_ok h' s" "heap_ok h'" "frame {} h h'"
      "owns (bs_data s) \<inter> {k. k < next_block h} = {}" "bs_contents h' s = []" "b_size (bs_data s) = 0"
      using BufferStream_new_law [OF hok n] by blast
    have sp: "spares pipe_at queue {} {} (h, k) (h', k)" using 1(4) by (simp add: spares_def)
    have T: "cs_ok pipe_at queue cs (h', k)" "cs_contents queue cs (h', k) = cs_contents queue cs (h, k)"
      using cs_spared [OF ok sp] 1(3) by simp_all
    have "chunk_foot c \<subseteq> {i. i < next_block h}" if "c \<in> set cs" for c
      using chunk_foot_old [of pipe_at queue c "(h, k)"] that ok by (simp add: cs_ok_def)
    then have sep: "\<forall>d \<in> set cs. separate d (BufChunk s)" using 1(5) by (fastforce simp: separate_def)
    have "source_block src \<inter> owns (bs_data s) = {}" using source_old [OF hok src(1) n(1)] 1(5) by blast
    then show thesis using give [of cs s h'] eq 1 T sep by (simp add: cs_ok_snoc cs_room_def)
  qed
  show thesis
  proof (cases "\<exists>ds s. cs = ds @ [BufChunk s] \<and> bs_size s < bs_capacity s")
    case True
    then obtain ds s where "cs = ds @ [BufChunk s]" "bs_size s < bs_capacity s" by blast
    then show thesis using give [of ds s h] ok src(2) by (simp add: cs_buffer_def)
  next
    case False
    show thesis
    proof (rule new, cases cs rule: rev_cases)
      case Nil
      then show "cs_buffer n cs h = bnd (BufferStream_new n h) (\<lambda>(s', h'). Inr (cs @ [BufChunk s'], h'))"
        by (simp add: cs_buffer_def)
    next
      case (snoc ds c)
      then show "cs_buffer n cs h = bnd (BufferStream_new n h) (\<lambda>(s', h'). Inr (cs @ [BufChunk s'], h'))"
        using False by (cases c) (auto simp: cs_buffer_def)
    qed
  qed
qed

lemma cs_write_law:
  assumes ok: "cs_ok pipe_at queue cs (h, k)" and n: "0 < n" "cs_room cs n"
    and src: "fetch h src n = Inr bs" "\<forall>c \<in> set cs. source_block src \<inter> chunk_foot c = {}"
  shows "\<exists>m cs' h'. cs_write sys src n cs (h, k) = Inr (int m, cs', h', k) \<and> cs_ok pipe_at queue cs' (h', k) \<and>
    cs_contents queue cs' (h', k) = cs_contents queue cs (h, k) @ take m bs \<and> m \<le> n \<and>
    ((\<forall>i l. answers h i l \<noteq> Refuse) \<longrightarrow> m = n) \<and> (\<forall>r. cs_room cs (n + r) \<longrightarrow> cs_room cs' r) \<and>
    (cs_packed cs \<and> 0 < m \<longrightarrow> cs_packed cs') \<and> answers h' = answers h"
proof -
  have n2: "n < 9223372036854775808" using n(2) by (simp add: cs_room_def)
  obtain ds s h1 where 1: "cs_buffer n cs h = Inr (ds @ [BufChunk s], h1)" "cs_ok pipe_at queue (ds @ [BufChunk s]) (h1, k)"
    "cs_contents queue (ds @ [BufChunk s]) (h1, k) = cs_contents queue cs (h, k)" "frame {} h h1"
    "source_block src \<inter> owns (bs_data s) = {}" "cs_packed cs \<longrightarrow> cs_packed ds"
    "\<forall>m. cs_room cs m \<longrightarrow> cs_room (ds @ [BufChunk s]) m"
    using cs_buffer_law [OF ok n(1) n2 src] by blast
  have s: "bs_ok h1 s" "heap_ok h1" using 1(2) by (auto simp: cs_ok_def)
  have hok: "heap_ok h" using ok by (simp add: cs_ok_def)
  have ft: "fetch h1 src n = Inr bs" using fetch_frame [OF 1(4) hok _ src(1)] by simp
  have room: "b_size (bs_data s) + n < 9223372036854775808" using 1(7) n(2) by (simp add: cs_room_def)
  obtain m b' h' where 2: "bs_write src n s h1 = Inr (int m, s\<lparr>bs_data := b'\<rparr>, h')"
    "appended buffer_ok h1 (bs_data s) h' b' (take m bs)" "m \<le> n"
    "m = n \<or> \<not> grants mutableEnsure (b_size (bs_data s) + n) (bs_data s) h1"
    using bs_write_law [OF s ft _ room] 1(5) by blast
  let ?s = "s\<lparr>bs_data := b'\<rparr>"
  note A = bs_appended [OF s(1) 2(2)]
  have ap: "heap_ok h'" "frame (owns (bs_data s)) h1 h'" "moves (owns (bs_data s)) (owns b') h1 h'"
    "b_size b' = b_size (bs_data s) + length (take m bs)" using 2(2) by (simp_all add: appended_def)
  have sp: "spares pipe_at queue (owns (bs_data s)) {} (h1, k) (h', k)" using ap(2) by (simp add: spares_def)
  have D: "cs_ok pipe_at queue ds (h1, k)" "\<forall>d \<in> set ds. separate d (BufChunk s)" using 1(2) by (auto simp: cs_ok_snoc)
  have T: "cs_ok pipe_at queue ds (h', k)" "cs_contents queue ds (h', k) = cs_contents queue ds (h1, k)"
    using cs_spared [OF D(1) sp] D(2) ap(1) by (auto simp: separate_def)
  have "chunk_foot d \<subseteq> {i. i < next_block h1}" if "d \<in> set ds" for d
    using chunk_foot_old [of pipe_at queue d "(h1, k)"] that D(1) by (simp add: cs_ok_def)
  then have sep: "\<forall>d \<in> set ds. separate d (BufChunk ?s)"
    using D(2) moves_fresh [OF ap(3)] unfolding separate_def by fastforce
  have g: "m = n" if "\<forall>i l. answers h i l \<noteq> Refuse"
  proof -
    have "answers h1 = answers h" using 1(4) by (simp add: frame_def)
    then have "always_grants mutableEnsure buffer_ok (answers h1)" using that always_grants_mutable by metis
    then show ?thesis using 2(4) always_grantsD s room n(1) by (auto simp: bs_ok_def MAX_REQ_def)
  qed
  have len: "length bs = n" using src(1) by (rule fetch_Inr_length)
  have "cs_write sys src n cs (h, k) = Inr (int m, ds @ [BufChunk ?s], h', k)" using 1(1) 2(1) by (simp add: cs_write_def)
  moreover have "cs_ok pipe_at queue (ds @ [BufChunk ?s]) (h', k)" using T(1) A(1) sep by (simp add: cs_ok_snoc)
  moreover have "cs_contents queue (ds @ [BufChunk ?s]) (h', k) = cs_contents queue cs (h, k) @ take m bs"
    using T(2) A(2) 1(3) by simp
  moreover have "cs_room (ds @ [BufChunk ?s]) r" if "cs_room cs (n + r)" for r
    using 1(7) that ap(4) len 2(3) by (fastforce simp: cs_room_def)
  moreover have "answers h' = answers h" using 1(4) ap(2) by (simp add: frame_def)
  moreover have "chunk_size (BufChunk ?s) \<noteq> 0" if "0 < m"
    using chunk_size_contents [of pipe_at queue "BufChunk ?s" "(h', k)"] A that 2(3) len n(1) by auto
  ultimately show ?thesis using 2(3) g 1(6)
    by (intro exI [of _ m] exI [of _ "ds @ [BufChunk ?s]"] exI [of _ h']) auto
qed

text \<open>A pipe in front is never read into another pipe.\<close>

lemma cs_read_pipe_stuck:
  assumes "p_size p \<noteq> 0" "0 < n"
  shows "cs_read_pipe (sys :: 'k sysops) q n (PipeChunk p # cs) w = None"
proof -
  have "g = chunk_read_pipe sys \<longrightarrow> \<not> (0 < n \<and> (\<exists>p cs. xs = PipeChunk p # cs \<and> p_size p \<noteq> 0))"
    if "cs_drain g d n r xs v = Some y" for g d n r xs y and v :: "pipe \<times> heap \<times> 'k"
    using that
  proof (rule cs_drain.raw_induct [rotated], intro impI notI)
    fix f g d n r xs y and v :: "pipe \<times> heap \<times> 'k"
    assume IH: "\<And>g d n r xs v y. f g d n r xs v = Some y \<Longrightarrow>
        g = chunk_read_pipe sys \<longrightarrow> \<not> (0 < n \<and> (\<exists>p cs. xs = PipeChunk p # cs \<and> p_size p \<noteq> 0))"
      and step: "(if \<not> cs_empty xs \<and> 0 < n
        then case g n (hd xs) v of
          Inl e \<Rightarrow> Some (Inl e)
        | Inr (rv, c, w1) \<Rightarrow>
            if rv < 0 then Some (Inr (if r \<noteq> 0 then r else - 1, c # tl xs, w1))
            else if chunk_size c = 0
            then case d c w1 of
              Inl e \<Rightarrow> Some (Inl e)
            | Inr w2 \<Rightarrow> f g d (if 0 < rv then sz_sub n (nat rv) else n) (r + rv) (tl xs) w2
            else f g d (if 0 < rv then sz_sub n (nat rv) else n) (r + rv) (c # tl xs) w1
        else Some (Inr (r, xs, v))) = Some y"
      and g: "g = chunk_read_pipe sys" and a: "0 < n \<and> (\<exists>p cs. xs = PipeChunk p # cs \<and> p_size p \<noteq> 0)"
    from a obtain p cs where xs: "xs = PipeChunk p # cs" "p_size p \<noteq> 0" by blast
    from step g a xs have "f g d n r xs v = Some y"
      by (cases v) (simp add: cs_empty_def Pipe_read_pipe_def)
    from IH [OF this] g a show False by blast
  qed
  then show ?thesis using assms unfolding cs_read_pipe_def by (metis option.exhaust)
qed

section \<open>Sequences of calls\<close>

text \<open>A client that writes, and reads single bytes while the stream is not empty.\<close>

datatype chunk_op = CPut "char list" | CGet

fun put_bytes :: "chunk_op list \<Rightarrow> char list" where
  "put_bytes [] = []"
| "put_bytes (CPut bs # ops) = bs @ put_bytes ops"
| "put_bytes (CGet # ops) = put_bytes ops"

fun cs_run :: "'k sysops \<Rightarrow> chunk_op list \<Rightarrow> chunk list \<Rightarrow> heap \<times> 'k \<Rightarrow> (int list \<times> chunk list \<times> heap \<times> 'k) res" where
  "cs_run sys [] cs w = Inr ([], cs, w)"
| "cs_run sys (CPut bs # ops) cs w = bnd (cs_write sys (Local bs) (length bs) cs w) (\<lambda>(_, cs1, w1). cs_run sys ops cs1 w1)"
| "cs_run sys (CGet # ops) cs w =
     (if cs_empty cs then cs_run sys ops cs w
      else bnd (cs_read_char sys cs w) (\<lambda>(ch, cs1, w1).
        bnd (cs_run sys ops cs1 w1) (\<lambda>(got, cs2, w2). Inr (ch # got, cs2, w2))))"

context posix_pipes
begin

lemma cs_destroy_law:
  assumes "cs_ok pipe_at queue cs w"
  shows "\<exists>w'. cs_destroy sys cs w = Inr w' \<and>
    (\<forall>i. blocks (fst w') i = (if i \<in> \<Union> (chunk_foot ` set cs) then None else blocks (fst w) i))"
  using assms
proof (induction cs arbitrary: w)
  case (Cons c cs)
  have h: "heap_ok (fst w)" "chunk_ok pipe_at queue c w" "\<forall>d \<in> set cs. separate c d" using Cons.prems by (auto simp: cs_ok_def)
  obtain w1 where 1: "chunk_delete sys c w = Inr w1" "heap_ok (fst w1)"
    "spares pipe_at queue (chunk_foot c) (chunk_pipe c) w w1" "moves (chunk_foot c) {} (fst w) (fst w1)"
    using chunk_delete_law [OF h(2,1)] by blast
  have "cs_ok pipe_at queue cs w1" using cs_spared_tl(1) [OF _ 1(3,2) h(3)] Cons.prems by simp
  then obtain w' where 2: "cs_destroy sys cs w1 = Inr w'"
    "\<forall>i. blocks (fst w') i = (if i \<in> \<Union> (chunk_foot ` set cs) then None else blocks (fst w1) i)"
    using Cons.IH by blast
  have "blocks (fst w1) i = (if i \<in> chunk_foot c then None else blocks (fst w) i)" for i using 1(4) by (simp add: moves_def)
  then show ?case using 1(1) 2 by (intro exI [of _ w']) auto
qed simp

lemma cs_run_law:
  assumes "cs_ok pipe_at queue cs w" "cs_packed cs" "\<forall>i l. answers (fst w) i l \<noteq> Refuse" "CPut [] \<notin> set ops"
    "cs_room cs (length (put_bytes ops))"
  shows "\<exists>got cs' w'. cs_run sys ops cs w = Inr (got, cs', w') \<and> cs_ok pipe_at queue cs' w' \<and> cs_packed cs' \<and>
    map schar (cs_contents queue cs w @ put_bytes ops) = got @ map schar (cs_contents queue cs' w')"
  using assms
proof (induction ops arbitrary: cs w)
  case (Cons x ops)
  show ?case
  proof (cases x)
    case (CPut bs)
    then have bs: "0 < length bs" using Cons.prems(4) by auto
    have room: "cs_room cs (length bs + length (put_bytes ops))" "cs_room cs (length bs)"
      using Cons.prems(5) CPut by (auto simp: cs_room_def)
    obtain m cs1 h1 where 1: "cs_write sys (Local bs) (length bs) cs (fst w, snd w) = Inr (int m, cs1, h1, snd w)"
      "cs_ok pipe_at queue cs1 (h1, snd w)" "cs_contents queue cs1 (h1, snd w) = cs_contents queue cs w @ take m bs"
      "m = length bs" "cs_room cs1 (length (put_bytes ops))" "cs_packed cs1" "answers h1 = answers (fst w)"
      using cs_write_law [of pipe_at queue cs "fst w" "snd w" "length bs" "Local bs" bs sys] Cons.prems(1-3) bs room
      by auto
    then show ?thesis using Cons.IH [OF 1(2,6) _ _ 1(5)] Cons.prems(3,4) CPut by auto
  next
    case CGet
    show ?thesis
    proof (cases "cs = []")
      case True
      then show ?thesis using Cons.IH [of "[]" w] Cons.prems CGet by (simp add: cs_empty_def)
    next
      case False
      obtain rv cs1 w1 where 1: "cs_read_char sys cs w = Inr (rv, cs1, w1)" "cs_ok pipe_at queue cs1 w1" "cs_packed cs1"
        "answers (fst w1) = answers (fst w)"
        "\<forall>s. BufChunk s \<in> set cs1 \<longrightarrow> (\<exists>t. BufChunk t \<in> set cs \<and> bs_data t = bs_data s)"
        "case cs_contents queue cs w of [] \<Rightarrow> rv = - 1 \<and> cs1 = cs \<and> w1 = w
         | b # bs \<Rightarrow> rv = schar b \<and> cs_contents queue cs1 w1 = bs"
        using cs_read_char_law [OF Cons.prems(1,2)] by (elim exE conjE) (rule that)
      have "cs_contents queue cs w \<noteq> []" using False Cons.prems(1,2) chunk_size_contents by (cases cs) fastforce+
      then obtain b bs where b: "cs_contents queue cs w = b # bs" by (cases "cs_contents queue cs w") auto
      have "cs_room cs1 (length (put_bytes ops))" using Cons.prems(5) 1(5) CGet by (fastforce simp: cs_room_def)
      then show ?thesis using Cons.IH [OF 1(2,3)] Cons.prems(2-4) 1 b CGet False by (auto simp: cs_empty_packed)
    qed
  qed
qed auto

text \<open>Two buffers in a row: each is copied to the start of the destination.\<close>

lemma cs_read_two:
  assumes ok: "cs_ok pipe_at queue [BufChunk s, BufChunk t] w"
    and ab: "bs_contents (fst w) s = a" "bs_contents (fst w) t = b" "a \<noteq> []" "b \<noteq> []"
    and n: "length a + length b < 9223372036854775808" and rd: "readable (fst w) dst (length a + length b)"
    and dis: "ptr_block dst \<inter> owns (bs_data s) = {}" "ptr_block dst \<inter> owns (bs_data t) = {}"
  shows "\<exists>w'. cs_read sys dst (length a + length b) [BufChunk s, BufChunk t] w = Some (Inr (int (length a + length b), [], w')) \<and>
    bytes_at (fst w') dst (length b) = b"
proof -
  let ?n = "length a + length b" and ?drain = "cs_drain (chunk_read sys dst) (chunk_delete sys)"
  have pk: "cs_packed [BufChunk s, BufChunk t]"
    using ok ab chunk_size_contents [of pipe_at queue "BufChunk s" w] chunk_size_contents [of pipe_at queue "BufChunk t" w]
    by simp
  obtain bs cs1 w1 where 1: "?drain ?n 0 [BufChunk s, BufChunk t] w = ?drain (?n - length bs) (0 + int (length bs)) cs1 w1"
    "cs_ok pipe_at queue cs1 w1" "cs_packed cs1" "readable (fst w1) dst ?n" "bs = a" "cs1 = [BufChunk t]"
    "cs_contents queue [BufChunk s, BufChunk t] w = bs @ cs_contents queue cs1 w1"
    using cs_drain_step [OF ok pk _ n rd, of 0] dis ab by auto
  have t: "bs_contents (fst w1) t = b" using 1(5-7) ab by simp
  have "cs_ok pipe_at queue [BufChunk t] w1" "cs_packed [BufChunk t]" using 1(2,3,6) by simp_all
  from cs_drain_step [OF this, of "length b" dst "int (length a)"]
  obtain w2 where 2: "?drain (length b) (int (length a)) [BufChunk t] w1 = ?drain 0 (int (length a) + int (length b)) [] w2"
    "bytes_at (fst w2) dst (length b) = b"
    using t ab n dis readable_mono [OF 1(4), of "length b"] by auto
  have "?drain ?n 0 [BufChunk s, BufChunk t] w = Some (Inr (int ?n, [], w2))"
    using 1(1,5,6) 2(1) cs_drain.simps [of _ _ 0 _ "[]" w2] by (simp add: cs_empty_def)
  then show ?thesis using 2(2) by (auto simp: cs_read_def)
qed

end

section \<open>Properties\<close>





text \<open>
  But \<^verbatim>\<open>read(char*, n)\<close> does not advance its destination: a read across two buffer chunks reports the bytes
  of both, and the bytes of the second one stand where those of the first one belong.
\<close>

theorem chunked_read_overwrites:
  assumes "posix_pipes sys pipe_at queue sent" "cs_ok pipe_at queue [BufChunk s, BufChunk t] w"
    "bs_contents (fst w) s = a" "bs_contents (fst w) t = b" "a \<noteq> []" "b \<noteq> []"
    "length a + length b < 9223372036854775808" "readable (fst w) dst (length a + length b)"
    "ptr_block dst \<inter> owns (bs_data s) = {}" "ptr_block dst \<inter> owns (bs_data t) = {}"
  shows "\<exists>w'. cs_read sys dst (length a + length b) [BufChunk s, BufChunk t] w = Some (Inr (int (length a + length b), [], w')) \<and>
    bytes_at (fst w') dst (length b) = b"
  by (rule posix_pipes.cs_read_two [OF assms])

theorem chunked_read_overwrites_witness:
  "\<exists>w'. cs_read queue_sys (Addr 2 0) 4 [BufChunk \<lparr>bs_data = mk_mbuf (Addr 0 0) 2 2, bs_readOffset = 0\<rparr>,
        BufChunk \<lparr>bs_data = mk_mbuf (Addr 1 0) 2 2, bs_readOffset = 0\<rparr>]
      (\<lparr>blocks = [0 \<mapsto> ''ab'', 1 \<mapsto> ''cd'', 2 \<mapsto> ''....''], next_block = 3, answers = (\<lambda>_ _. Fresh), junk = (\<lambda>_. NUL)\<rparr>, two_pipes [] []) =
        Some (Inr (4, [], w')) \<and> bytes_at (fst w') (Addr 2 0) 2 = ''cd''"
proof -
  let ?s = "\<lparr>bs_data = mk_mbuf (Addr 0 0) 2 2, bs_readOffset = 0\<rparr>" and ?t = "\<lparr>bs_data = mk_mbuf (Addr 1 0) 2 2, bs_readOffset = 0\<rparr>"
    and ?w = "(\<lparr>blocks = [0 \<mapsto> ''ab'', 1 \<mapsto> ''cd'', 2 \<mapsto> ''....''], next_block = 3, answers = (\<lambda>_ _. Fresh), junk = (\<lambda>_. NUL)\<rparr>, two_pipes [] [])"
  have ok: "cs_ok q_at q_queue [BufChunk ?s, BufChunk ?t] ?w"
    by (auto simp: heap_ok_def bs_ok_def buffer_ok_def block_at_def mk_mbuf_def separate_def owns_def)
  have c: "bs_contents (fst ?w) ?s = ''ab''" "bs_contents (fst ?w) ?t = ''cd''"
    by (simp_all add: bs_contents_def view_def bytes_at_def mk_mbuf_def)
  have l: "length ''ab'' = 2" "length ''cd'' = 2" "(2 :: nat) + 2 = 4" by simp_all
  show ?thesis
    using chunked_read_overwrites [OF queue_kernel.posix_pipes_axioms ok c, of "Addr 2 0", unfolded l]
    by (simp add: readable_def owns_def mk_mbuf_def)
qed

text \<open>
  \<^verbatim>\<open>read(Pipe*, n)\<close> never returns if the front chunk is a non-empty pipe: \<^verbatim>\<open>Pipe::read(Pipe*, size_t)\<close> is not
  implemented and reports no progress.
\<close>

theorem chunked_read_pipe_hangs:
  assumes "p_size p \<noteq> 0" "0 < n"
  shows "cs_read_pipe sys q n (PipeChunk p # cs) w = None"
  by (rule cs_read_pipe_stuck [OF assms])

theorem chunked_read_pipe_hangs_witness:
  "cs_read_pipe queue_sys \<lparr>p_rd = 5, p_wr = 6, p_size = 0\<rparr> 1 [PipeChunk \<lparr>p_rd = 3, p_wr = 4, p_size = 2\<rparr>]
     (one_block [], two_pipes ''ab'' []) = None"
  by (rule chunked_read_pipe_hangs) simp_all

end
