(* ===== verification/Filter_Stream.thy ===== *)
theory Filter_Stream
  imports Buffer_Stream
begin

text \<open>
  Filters, \<^verbatim>\<open>include/xio/Filter.h\<close>, and the stream that passes what it reads through a chain of them,
  \<^verbatim>\<open>lib/FilterStream.cpp\<close>. A filter is an arbitrary operation that follows the contract its header documents
  (it appends the processed input to the output): the locale \<open>filter_contract\<close>. The parent stream is an arbitrary
  operation too.
\<close>

section \<open>Definitions\<close>

text \<open>\<^verbatim>\<open>Filter::process(const BufferRef& input, Buffer& output)\<close>.\<close>

type_synonym filt = "bufref \<Rightarrow> mbuf \<Rightarrow> heap \<Rightarrow> (int \<times> mbuf \<times> heap) res"

text \<open>
  The loop over the second to last filter; it runs at least once. The values of \<^verbatim>\<open>result\<close> and \<^verbatim>\<open>tmp\<close> at its end.
\<close>

fun process_loop :: "filt list \<Rightarrow> mbuf \<Rightarrow> mbuf \<Rightarrow> heap \<Rightarrow> (mbuf \<times> mbuf \<times> heap) res" where
  "process_loop [] result tmp h = Inl OutOfBounds"
| "process_loop (f # fs) result tmp h =
     (case swap_mbuf result tmp of (result1, tmp1) \<Rightarrow>
        bnd (ref_from tmp1 0) (\<lambda>input.
        bnd (f input result1 h) (\<lambda>(_, result2, h2).
          if fs = [] then Inr (result2, tmp1, h2) else process_loop fs result2 tmp1 h2)))"

text \<open>What \<^verbatim>\<open>process\<close> does with its result: append it or move it to the output; the second value is the rest.\<close>

definition hand_out :: "mbuf \<Rightarrow> mbuf \<Rightarrow> heap \<Rightarrow> (mbuf \<times> mbuf \<times> heap) res" where
  "hand_out result out h =
     (if b_cap out \<noteq> 0
      then bnd (push_back_ref mutableEnsure result out h) (\<lambda>(out', h'). Inr (out', result, h'))
      else move_assign out result h)"

definition fs_process :: "filt list \<Rightarrow> filt" where
  "fs_process filters input out h =
     (case filters of
        [] \<Rightarrow> Inr (0, out, h)
      | [f] \<Rightarrow> f input out h
      | f # fs \<Rightarrow>
          bnd (f input empty_mbuf h) (\<lambda>(_, result, h1).
          bnd (process_loop fs result empty_mbuf h1) (\<lambda>(result1, tmp, h2).
          bnd (hand_out result1 out h2) (\<lambda>(out', result2, h3).
          bnd (Buffer_destroy tmp h3) (\<lambda>h4.
          bnd (Buffer_destroy result2 h4) (\<lambda>h5.
            Inr (to_ssize (b_size result1), out', h5)))))))"

text \<open>The positions are \<open>None\<close> after the constructor that does not initialise them.\<close>

record 's fstream =
  fs_parent :: 's
  fs_inputBuffer :: mbuf
  fs_inputPos :: "nat option"
  fs_outputBuffer :: mbuf
  fs_outputPos :: "nat option"
  fs_filters :: "filt list"

definition FilterStream_plain :: "'s \<Rightarrow> 's fstream" where
  "FilterStream_plain parent = \<lparr>fs_parent = parent, fs_inputBuffer = empty_mbuf, fs_inputPos = None,
     fs_outputBuffer = empty_mbuf, fs_outputPos = None, fs_filters = []\<rparr>"

definition FilterStream_new :: "'s \<Rightarrow> filt \<Rightarrow> 's fstream" where
  "FilterStream_new parent f = \<lparr>fs_parent = parent, fs_inputBuffer = empty_mbuf, fs_inputPos = Some 0,
     fs_outputBuffer = empty_mbuf, fs_outputPos = Some 0, fs_filters = [f]\<rparr>"

definition fs_empty :: "('s \<Rightarrow> bool) \<Rightarrow> 's fstream \<Rightarrow> bool" where
  "fs_empty pempty s = pempty (fs_parent s)"

definition fs_size :: "('s \<Rightarrow> nat) \<Rightarrow> 's fstream \<Rightarrow> nat" where
  "fs_size psize s = psize (fs_parent s)"

fun initialised :: "nat option \<Rightarrow> nat res" where
  "initialised None = Inl Uninitialised"
| "initialised (Some x) = Inr x"

text \<open>\<open>rd\<close> is \<^verbatim>\<open>read(Buffer&, size_t)\<close> of the parent.\<close>

definition fs_pull :: "(nat \<Rightarrow> mbuf \<Rightarrow> 's \<Rightarrow> heap \<Rightarrow> (int \<times> mbuf \<times> 's \<times> heap) res) \<Rightarrow> nat \<Rightarrow> 's fstream \<Rightarrow> heap \<Rightarrow>
    (int \<times> 's fstream \<times> heap) res" where
  "fs_pull rd n s h =
     bnd (initialised (fs_inputPos s)) (\<lambda>pos.
       if n \<le> sz_sub (b_size (fs_inputBuffer s)) pos then Inr (to_ssize n, s, h)
       else
         bnd (reserve mutableEnsure (sz_add (b_size (fs_inputBuffer s)) n) (fs_inputBuffer s) h) (\<lambda>(_, b1, h1).
         bnd (rd n b1 (fs_parent s) h1) (\<lambda>(rv, b2, p2, h2).
           Inr (if rv \<noteq> - 1 then to_ssize (sz_add (sz_sub (b_size b2) pos) (of_ssize rv)) else - 1,
                s\<lparr>fs_inputBuffer := b2, fs_parent := p2\<rparr>, h2))))"

text \<open>Both buffers of the stream after a call of \<^verbatim>\<open>process(inputBuffer_.ref(inputPos_), outputBuffer_)\<close>.\<close>

definition fs_filter_input :: "'s fstream \<Rightarrow> heap \<Rightarrow> ('s fstream \<times> heap) res" where
  "fs_filter_input s h =
     bnd (initialised (fs_inputPos s)) (\<lambda>pos.
     bnd (ref_from (fs_inputBuffer s) pos) (\<lambda>input.
     bnd (fs_process (fs_filters s) input (fs_outputBuffer s) h) (\<lambda>(_, out, h').
       Inr (s\<lparr>fs_outputBuffer := out\<rparr>, h'))))"

definition fs_read_buffer :: "(nat \<Rightarrow> mbuf \<Rightarrow> 's \<Rightarrow> heap \<Rightarrow> (int \<times> mbuf \<times> 's \<times> heap) res) \<Rightarrow> nat \<Rightarrow> mbuf \<Rightarrow> 's fstream \<Rightarrow> heap \<Rightarrow>
    (int \<times> mbuf \<times> 's fstream \<times> heap) res" where
  "fs_read_buffer rd n result s h =
     bnd (fs_pull rd n s h) (\<lambda>(_, s1, h1).
     bnd (fs_filter_input s1 h1) (\<lambda>(s2, h2).
     bnd (initialised (fs_outputPos s2)) (\<lambda>pos.
       let m = min n (sz_sub (b_size (fs_outputBuffer s2)) pos) in
       bnd (push_back mutableEnsure (Heap (ptr_add (b_data (fs_outputBuffer s2)) pos)) m result h2) (\<lambda>(result', h3).
         Inr (to_ssize (sz_sub (b_size result) (b_size result')), result', s2, h3)))))"

text \<open>\<^verbatim>\<open>read(char* buf, size_t)\<close> does not use \<^verbatim>\<open>buf\<close>.\<close>

definition fs_read :: "(nat \<Rightarrow> mbuf \<Rightarrow> 's \<Rightarrow> heap \<Rightarrow> (int \<times> mbuf \<times> 's \<times> heap) res) \<Rightarrow> nat \<Rightarrow> 's fstream \<Rightarrow> heap \<Rightarrow>
    (int \<times> 's fstream \<times> heap) res" where
  "fs_read rd n s h =
     bnd (fs_pull rd n s h) (\<lambda>(rv, s1, h1).
     bnd (fs_filter_input s1 h1) (\<lambda>(s2, h2). Inr (rv, s2, h2)))"

text \<open>The operations that are not implemented: \<^verbatim>\<open>read\<close> to and \<^verbatim>\<open>write\<close> from sockets, pipes and descriptors, and others.\<close>

definition fs_read_stub :: "'s fstream \<Rightarrow> int" where
  "fs_read_stub s = 0"

definition fs_write_stub :: "'s fstream \<Rightarrow> int" where
  "fs_write_stub s = 0"

section \<open>Storage that is replaced\<close>

text \<open>
  The general form of \<open>moves\<close>: storage in \<open>K\<close> was replaced by storage in \<open>L\<close>, each block of which was in \<open>K\<close> or
  is new.
\<close>

definition trades :: "nat set \<Rightarrow> nat set \<Rightarrow> heap \<Rightarrow> heap \<Rightarrow> bool" where
  "trades K L h h' \<longleftrightarrow> next_block h \<le> next_block h' \<and> answers h' = answers h \<and> (\<forall>k \<in> L. k \<in> K \<or> next_block h \<le> k) \<and>
     (\<forall>k. k \<notin> L \<longrightarrow> blocks h' k = (if k \<in> K then None else blocks h k))"

lemma trades_moves: "moves K L h h' \<Longrightarrow> frame X h h' \<Longrightarrow> trades K L h h'"
  by (auto simp: trades_def moves_def frame_def not_less [symmetric])

lemma trades_refl: "trades K K h h"
  by (simp add: trades_def)

lemma trades_trans:
  assumes "trades K L h h1" "trades L M h1 h2" "heap_ok h"
  shows "trades K M h h2"
proof -
  have "blocks h k = None" if "k \<in> L" "k \<notin> K" for k
    using that assms(1,3) by (auto simp: trades_def heap_ok_def)
  then have "blocks h2 k = (if k \<in> K then None else blocks h k)" if "k \<notin> M" for k
    using that assms(1,2) by (auto simp: trades_def)
  moreover have "k \<in> K \<or> next_block h \<le> k" if "k \<in> M" for k
    using that assms(1,2) by (force simp: trades_def)
  ultimately show ?thesis using assms(1,2) by (auto simp: trades_def)
qed

lemma trades_extra: "trades K L h h' \<Longrightarrow> X \<inter> K = {} \<Longrightarrow> \<forall>k \<in> X. k < next_block h \<Longrightarrow> trades (K \<union> X) (L \<union> X) h h'"
  by (auto simp: trades_def)

lemma trades_apart: "trades K L h h' \<Longrightarrow> X \<inter> K = {} \<Longrightarrow> \<forall>k \<in> X. k < next_block h \<Longrightarrow> X \<inter> L = {}"
  by (fastforce simp: trades_def)

lemma trades_frame: "trades K L h h' \<Longrightarrow> frame K h h'"
  by (fastforce simp: trades_def frame_def not_le [symmetric])

section \<open>The contract of filters\<close>

text \<open>
  \<^verbatim>\<open>Filter.h\<close>: the output is the \<^verbatim>\<open>output buffer to append the processed data into\<close>. \<open>F\<close> is what the filter does to the
  bytes. Memory is assumed to be available, and the output to stay below the largest request.
\<close>

locale filter_contract =
  fixes f :: filt and F :: "char list \<Rightarrow> char list"
  assumes appends: "heap_ok h \<Longrightarrow> ref_ok h r \<Longrightarrow> buffer_ok h b \<Longrightarrow> b_size r = 0 \<or> owns r \<inter> owns b = {} \<Longrightarrow>
    \<forall>i n. answers h i n \<noteq> Refuse \<Longrightarrow> b_size b + length (F (view h r)) \<le> MAX_REQ \<Longrightarrow>
    \<exists>n b' h'. f r b h = Inr (n, b', h') \<and> appended buffer_ok h b h' b' (F (view h r))"

text \<open>The filter that copies, by \<^verbatim>\<open>push_back(const BufferRef&)\<close>, keeps the contract.\<close>

definition copy_filter :: filt where
  "copy_filter r b h = bnd (push_back_ref mutableEnsure r b h) (\<lambda>(b', h'). Inr (to_ssize (b_size r), b', h'))"

lemma append_ref:
  assumes "heap_ok h" "ref_ok h r" "buffer_ok h b" "b_size r = 0 \<or> owns r \<inter> owns b = {}" "\<forall>i n. answers h i n \<noteq> Refuse"
    "b_size b + b_size r \<le> MAX_REQ"
  shows "\<exists>b' h'. push_back_ref mutableEnsure r b h = Inr (b', h') \<and> appended buffer_ok h b h' b' (view h r)"
proof -
  have f: "fetch h (Heap (b_data r)) (b_size r) = Inr (view h r)"
    using assms(2) by (simp add: ref_ok_def view_def load_readable)
  have "grants mutableEnsure (b_size b + b_size r) b h" if "b_size r \<noteq> 0"
    using that assms by (simp add: grants_mutable)
  moreover have "view h r = []" if "b_size r = 0" using that by (simp add: view_def)
  ultimately show ?thesis
    using managed.push_back_appended [OF assms(3,1) f _ assms(6)] assms(4)
    by (cases "b_size r = 0") (auto simp: push_back_ref_def owns_def split: if_splits)
qed

interpretation copying: filter_contract copy_filter id
proof
  fix h :: heap and r :: bufref and b
  assume a: "heap_ok h" "ref_ok h r" "buffer_ok h b" "b_size r = 0 \<or> owns r \<inter> owns b = {}" "\<forall>i n. answers h i n \<noteq> Refuse"
    "b_size b + length (id (view h r)) \<le> MAX_REQ"
  then have "b_size b + b_size r \<le> MAX_REQ" by (simp add: length_view)
  from append_ref [OF a(1-5) this]
  show "\<exists>n b' h'. copy_filter r b h = Inr (n, b', h') \<and> appended buffer_ok h b h' b' (id (view h r))"
    by (auto simp: copy_filter_def)
qed

section \<open>Chains of filters\<close>

text \<open>
  What the loop computes from the bytes \<open>r\<close> of \<^verbatim>\<open>result\<close> and \<open>t\<close> of \<^verbatim>\<open>tmp\<close>: each filter appends to the buffer that
  the swap left in \<^verbatim>\<open>result\<close>, which is not cleared.
\<close>

fun chain :: "(char list \<Rightarrow> char list) list \<Rightarrow> char list \<Rightarrow> char list \<Rightarrow> char list" where
  "chain [] r t = r"
| "chain (F # Fs) r t = chain Fs (t @ F r) r"

fun chain_fits :: "(char list \<Rightarrow> char list) list \<Rightarrow> char list \<Rightarrow> char list \<Rightarrow> bool" where
  "chain_fits [] r t \<longleftrightarrow> True"
| "chain_fits (F # Fs) r t \<longleftrightarrow> length (t @ F r) \<le> MAX_REQ \<and> chain_fits Fs (t @ F r) r"

lemma ref_whole:
  assumes "buffer_ok h b"
  shows "ref_from b 0 = Inr (mk_ref (b_data b) (b_size b))" "ref_ok h (mk_ref (b_data b) (b_size b))"
    "view h (mk_ref (b_data b) (b_size b)) = view h b" "owns (mk_ref (b_data b) (b_size b)) = owns b"
  using mb_ok_ref_ok [OF buffer_ok_mb_ok [OF assms]]
  by (simp_all add: ref_from_def mk_ref_def ref_ok_def view_def owns_def)

lemma swap_mbuf_eq: "swap_mbuf a b = (b, a)"
  by (simp add: swap_mbuf_def mk_mbuf_def)

lemma process_step:
  assumes f: "filter_contract f F" and ok: "heap_ok h" "buffer_ok h src" "buffer_ok h dst" "owns src \<inter> owns dst = {}"
    and mem: "\<forall>i n. answers h i n \<noteq> Refuse" and fit: "length (view h dst @ F (view h src)) \<le> MAX_REQ"
  shows "\<exists>n dst' h'. f (mk_ref (b_data src) (b_size src)) dst h = Inr (n, dst', h') \<and> heap_ok h' \<and> buffer_ok h' src \<and>
    buffer_ok h' dst' \<and> owns src \<inter> owns dst' = {} \<and> view h' src = view h src \<and> view h' dst' = view h dst @ F (view h src) \<and>
    trades (owns dst \<union> owns src) (owns dst' \<union> owns src) h h'"
proof -
  note w = ref_whole [OF ok(2)]
  have "length (view h dst) = b_size dst" using ok(3) by (intro length_view mb_ok_ref_ok buffer_ok_mb_ok)
  then have "b_size dst + length (F (view h (mk_ref (b_data src) (b_size src)))) \<le> MAX_REQ" using fit w by simp
  then obtain n dst' h' where a: "f (mk_ref (b_data src) (b_size src)) dst h = Inr (n, dst', h')"
    "appended buffer_ok h dst h' dst' (F (view h src))"
    using filter_contract.appends [OF f ok(1) w(2) ok(3) _ mem] w(3,4) ok(4) by auto
  then have t: "trades (owns dst) (owns dst') h h'" and fr: "frame (owns dst) h h'"
    by (auto simp: appended_def intro: trades_moves)
  then have "trades (owns dst \<union> owns src) (owns dst' \<union> owns src) h h'" "owns src \<inter> owns dst' = {}"
    using trades_extra [OF t ok(4) owns_live [OF ok(2,1)]] trades_apart [OF t ok(4) owns_live [OF ok(2,1)]] by auto
  moreover have "buffer_ok h' src" "view h' src = view h src"
    using buffer_ok_frame [OF ok(2,1) fr ok(4)] view_frame [OF mb_ok_ref_ok [OF buffer_ok_mb_ok [OF ok(2)]] ok(1) fr ok(4)]
    by auto
  ultimately show ?thesis using a by (auto simp: appended_def)
qed

lemma process_loop_law:
  assumes "list_all2 filter_contract fs Fs" "fs \<noteq> []" "heap_ok h" "buffer_ok h r" "buffer_ok h t" "owns r \<inter> owns t = {}"
    "\<forall>i n. answers h i n \<noteq> Refuse" "chain_fits Fs (view h r) (view h t)"
  shows "\<exists>r' t' h'. process_loop fs r t h = Inr (r', t', h') \<and> heap_ok h' \<and> buffer_ok h' r' \<and> buffer_ok h' t' \<and>
    owns r' \<inter> owns t' = {} \<and> view h' r' = chain Fs (view h r) (view h t) \<and> trades (owns r \<union> owns t) (owns r' \<union> owns t') h h'"
  using assms
proof (induction fs Fs arbitrary: r t h rule: list_all2_induct)
  case (Cons f fs F Fs)
  have fit: "length (view h t @ F (view h r)) \<le> MAX_REQ" "chain_fits Fs (view h t @ F (view h r)) (view h r)"
    using Cons.prems(7) by auto
  obtain n t1 h1 where 1: "f (mk_ref (b_data r) (b_size r)) t h = Inr (n, t1, h1)" "heap_ok h1" "buffer_ok h1 r" "buffer_ok h1 t1"
    "owns r \<inter> owns t1 = {}" "view h1 r = view h r" "view h1 t1 = view h t @ F (view h r)"
    "trades (owns t \<union> owns r) (owns t1 \<union> owns r) h h1"
    using process_step [OF Cons.hyps(1) Cons.prems(2-5) Cons.prems(6) fit(1)] by blast
  note st = swap_mbuf_eq ref_whole(1) [OF Cons.prems(3)] 1(1)
  show ?case
  proof (cases "fs = []")
    case True
    then have "Fs = []" using Cons.hyps(2) by simp
    then show ?thesis using True 1 by (simp add: st Un_commute Int_commute)
  next
    case False
    have "\<forall>i n. answers h1 i n \<noteq> Refuse" using 1(8) Cons.prems(6) by (simp add: trades_def)
    with Cons.IH [OF False 1(2,4,3)] 1(5-7) fit(2)
    obtain r' t' h' where 2: "process_loop fs t1 r h1 = Inr (r', t', h')" "heap_ok h'" "buffer_ok h' r'" "buffer_ok h' t'"
      "owns r' \<inter> owns t' = {}" "view h' r' = chain Fs (view h t @ F (view h r)) (view h r)"
      "trades (owns t1 \<union> owns r) (owns r' \<union> owns t') h1 h'" by (auto simp: Int_commute)
    then show ?thesis using False trades_trans [OF 1(8) 2(7) Cons.prems(2)] by (simp add: st Un_commute)
  qed
qed simp

lemma hand_out_law:
  assumes ok: "heap_ok h" "buffer_ok h r" "buffer_ok h out" "owns r \<inter> owns out = {}" and mem: "\<forall>i n. answers h i n \<noteq> Refuse"
    and fit: "length (view h out @ view h r) \<le> MAX_REQ"
  shows "\<exists>out' r' h'. hand_out r out h = Inr (out', r', h') \<and> heap_ok h' \<and> buffer_ok h' r' \<and> buffer_ok h' out' \<and>
    owns r' \<inter> owns out' = {} \<and> view h' out' = view h out @ view h r \<and> trades (owns out \<union> owns r) (owns out' \<union> owns r') h h'"
proof (cases "b_cap out = 0")
  case True
  obtain h' where m: "move_assign out r h = Inr (r, empty_mbuf, h')" "buffer_ok h' r" "heap_ok h'" "view h' r = view h r"
    "moves (owns out) {} h h'" using move_assign_spec [OF ok(3,2,1)] ok(4) by auto
  have "owns out = {}" "view h out = []" using ok(3) True by (auto simp: buffer_ok_def owns_def view_def)
  moreover have "h' = h" using m(1) True by (simp add: move_assign_def reserve_def mutableEnsure_def setCapacity_def)
  ultimately show ?thesis using True m by (simp add: hand_out_def trades_refl)
next
  case False
  have s: "length (view h out) = b_size out" "length (view h r) = b_size r"
    using ok(2,3) by (simp_all add: mb_ok_ref_ok buffer_ok_mb_ok)
  obtain out' h' where p: "push_back_ref mutableEnsure r out h = Inr (out', h')" "appended buffer_ok h out h' out' (view h r)"
    using append_ref [OF ok(1) mb_ok_ref_ok [OF buffer_ok_mb_ok [OF ok(2)]] ok(3) _ mem] ok(4) fit s by auto
  then have t: "trades (owns out) (owns out') h h'" and fr: "frame (owns out) h h'"
    by (auto simp: appended_def intro: trades_moves)
  have "buffer_ok h' r" using buffer_ok_frame [OF ok(2,1) fr ok(4)] .
  then show ?thesis
    using False p trades_extra [OF t ok(4) owns_live [OF ok(2,1)]] trades_apart [OF t ok(4) owns_live [OF ok(2,1)]]
    by (auto simp: hand_out_def appended_def)
qed

text \<open>Destroying a buffer, with the storage \<open>X\<close> of others around.\<close>

lemma destroy_law:
  assumes b: "heap_ok h" "buffer_ok h b" and x: "owns b \<inter> X = {}" "\<forall>k \<in> X. k < next_block h"
  shows "\<exists>h'. Buffer_destroy b h = Inr h' \<and> heap_ok h' \<and> frame (owns b) h h' \<and> trades (owns b \<union> X) X h h'"
proof -
  obtain h' where d: "Buffer_destroy b h = Inr h'" "heap_ok h'" "frame (owns b) h h'" "moves (owns b) {} h h'"
    using Buffer_destroy_spec [OF b(2,1)] by blast
  then have "trades (owns b \<union> X) ({} \<union> X) h h'"
    using trades_extra [OF trades_moves [OF d(4,3)] _ x(2)] x(1) by (simp add: Int_commute)
  then show ?thesis using d by auto
qed

lemma kept_apart:
  assumes "heap_ok h" "buffer_ok h b" "trades K L h h'" "owns b \<inter> K = {}"
  shows "buffer_ok h' b" "view h' b = view h b" "owns b \<inter> L = {}"
  using buffer_ok_frame [OF assms(2,1) trades_frame [OF assms(3)] assms(4)]
    view_frame [OF mb_ok_ref_ok [OF buffer_ok_mb_ok [OF assms(2)]] assms(1) trades_frame [OF assms(3)] assms(4)]
    trades_apart [OF assms(3,4) owns_live [OF assms(2,1)]] .

text \<open>The end of \<^verbatim>\<open>process\<close>: the result is handed out, then both local buffers go.\<close>

lemma finish_law:
  assumes ok: "heap_ok h" "buffer_ok h r" "buffer_ok h t" "buffer_ok h out" and mem: "\<forall>i n. answers h i n \<noteq> Refuse"
    and dis: "owns r \<inter> owns t = {}" "owns out \<inter> (owns r \<union> owns t) = {}" and fit: "length (view h out @ view h r) \<le> MAX_REQ"
  shows "\<exists>out' r' h1 h2 h3. hand_out r out h = Inr (out', r', h1) \<and> Buffer_destroy t h1 = Inr h2 \<and> Buffer_destroy r' h2 = Inr h3 \<and>
    heap_ok h3 \<and> buffer_ok h3 out' \<and> view h3 out' = view h out @ view h r \<and>
    trades (owns r \<union> owns t \<union> owns out) (owns out') h h3"
proof -
  have d: "owns r \<inter> owns out = {}" using dis(2) by blast
  obtain out' r' h1 where 1: "hand_out r out h = Inr (out', r', h1)" "heap_ok h1" "buffer_ok h1 r'" "buffer_ok h1 out'"
    "owns r' \<inter> owns out' = {}" "view h1 out' = view h out @ view h r" "trades (owns out \<union> owns r) (owns out' \<union> owns r') h h1"
    using hand_out_law [OF ok(1,2,4) d mem fit] by blast
  have "owns t \<inter> (owns out \<union> owns r) = {}" using dis by auto
  note k1 = kept_apart [OF ok(1,3) 1(7) this]
  have "\<forall>k \<in> owns out' \<union> owns r'. k < next_block h1" using owns_live 1(2-4) by blast
  then obtain h2 where 2: "Buffer_destroy t h1 = Inr h2" "heap_ok h2" "frame (owns t) h1 h2"
    "trades (owns t \<union> (owns out' \<union> owns r')) (owns out' \<union> owns r') h1 h2"
    using destroy_law [OF 1(2) k1(1) k1(3)] by blast
  have o2: "buffer_ok h2 r'" "buffer_ok h2 out'" "view h2 out' = view h1 out'"
    using buffer_ok_frame [OF 1(3,2) 2(3)] buffer_ok_frame [OF 1(4,2) 2(3)] k1(3)
      view_frame [OF mb_ok_ref_ok [OF buffer_ok_mb_ok [OF 1(4)]] 1(2) 2(3)] by auto
  obtain h3 where 3: "Buffer_destroy r' h2 = Inr h3" "heap_ok h3" "frame (owns r') h2 h3" "trades (owns r' \<union> owns out') (owns out') h2 h3"
    using destroy_law [OF 2(2) o2(1) 1(5) owns_live [OF o2(2) 2(2)]] by blast
  have "buffer_ok h3 out'" "view h3 out' = view h2 out'"
    using buffer_ok_frame [OF o2(2) 2(2) 3(3)] view_frame [OF mb_ok_ref_ok [OF buffer_ok_mb_ok [OF o2(2)]] 2(2) 3(3)] 1(5)
    by auto
  moreover have "trades (owns out \<union> owns r \<union> owns t) (owns out' \<union> owns r' \<union> owns t) h h1"
    using trades_extra [OF 1(7) _ owns_live [OF ok(3,1)]] dis by blast
  then have "trades (owns r \<union> owns t \<union> owns out) (owns out') h h3"
    using trades_trans [OF trades_trans [OF _ 2(4) ok(1)] 3(4) [unfolded Un_commute [of "owns r'"]] ok(1)]
    by (simp add: Un_ac)
  ultimately show ?thesis using 1 2 3 o2 by auto
qed

text \<open>
  All filters of a chain of two or more: the output is extended by what the chain computes, and apart from the
  storage of the output the heap is what it was.
\<close>

lemma fs_process_law:
  assumes fs: "filter_contract f F" "list_all2 filter_contract fs Fs" "fs \<noteq> []"
    and ok: "heap_ok h" "ref_ok h input" "buffer_ok h out" and mem: "\<forall>i n. answers h i n \<noteq> Refuse"
    and x: "x = F (view h input)" "length x \<le> MAX_REQ" "chain_fits Fs x []" "length (view h out @ chain Fs x []) \<le> MAX_REQ"
  shows "\<exists>n out' h'. fs_process (f # fs) input out h = Inr (n, out', h') \<and> heap_ok h' \<and> buffer_ok h' out' \<and>
    view h' out' = view h out @ chain Fs x [] \<and> trades (owns out) (owns out') h h'"
proof -
  obtain n r h1 where 1: "f input empty_mbuf h = Inr (n, r, h1)" "appended buffer_ok h empty_mbuf h1 r x"
    using filter_contract.appends [OF fs(1) ok(1,2) buffer_ok_empty _ mem] x(1,2) by (auto simp: owns_def empty_mbuf_def mk_mbuf_def)
  have e: "owns empty_mbuf = {}" by (simp add: owns_def empty_mbuf_def mk_mbuf_def)
  have t1: "trades {} (owns r) h h1" and r: "heap_ok h1" "buffer_ok h1 r" "view h1 r = x"
    using 1(2) e by (auto simp: appended_def intro: trades_moves)
  note o1 = kept_apart [OF ok(1,3) t1 Int_empty_right]
  have m1: "\<forall>i n. answers h1 i n \<noteq> Refuse" using mem t1 by (simp add: trades_def)
  obtain r2 t2 h2 where 2: "process_loop fs r empty_mbuf h1 = Inr (r2, t2, h2)" "heap_ok h2" "buffer_ok h2 r2" "buffer_ok h2 t2"
    "owns r2 \<inter> owns t2 = {}" "view h2 r2 = chain Fs x []" "trades (owns r \<union> owns empty_mbuf) (owns r2 \<union> owns t2) h1 h2"
    using process_loop_law [OF fs(2,3) r(1,2) buffer_ok_empty _ m1] x(3) r(3) e by auto
  note T2 = 2(7) [unfolded e Un_empty_right]
  note o2 = kept_apart [OF r(1) o1(1) T2 o1(3)]
  have m2: "\<forall>i n. answers h2 i n \<noteq> Refuse" using m1 T2 by (simp add: trades_def)
  have "trades (owns r \<union> owns out) (owns r2 \<union> owns t2 \<union> owns out) h1 h2"
    using trades_extra [OF T2 o1(3) owns_live [OF o1(1) r(1)]] .
  moreover have "trades (owns out) (owns r \<union> owns out) h h1"
    using trades_extra [OF t1 Int_empty_right owns_live [OF ok(3,1)]] by simp
  ultimately have t: "trades (owns out) (owns r2 \<union> owns t2 \<union> owns out) h h2" using trades_trans ok(1) by blast
  obtain out' r' h3 h4 h5 where 3: "hand_out r2 out h2 = Inr (out', r', h3)" "Buffer_destroy t2 h3 = Inr h4" "Buffer_destroy r' h4 = Inr h5"
    "heap_ok h5" "buffer_ok h5 out'" "view h5 out' = view h2 out @ view h2 r2" "trades (owns r2 \<union> owns t2 \<union> owns out) (owns out') h2 h5"
    using finish_law [OF 2(2-4) o2(1) m2 2(5) o2(3)] x(4) 2(6) o1(2) o2(2) by auto
  have "fs_process (f # fs) input out h = Inr (to_ssize (b_size r2), out', h5)"
    using fs(3) 1(1) 2(1) 3(1-3) by (cases fs) (simp_all add: fs_process_def)
  then show ?thesis using 3 2(6) o1(2) o2(2) trades_trans [OF t 3(7) ok(1)] by auto
qed

section \<open>Reading\<close>

text \<open>A stream with one filter, both buffers filled to at least \<open>n\<close> bytes and nothing consumed, and a caller's buffer \<open>r\<close>.\<close>

definition fs_filled :: "(char list \<Rightarrow> char list) \<Rightarrow> nat \<Rightarrow> mbuf \<Rightarrow> 's fstream \<Rightarrow> heap \<Rightarrow> bool" where
  "fs_filled F n r s h \<longleftrightarrow> heap_ok h \<and> (\<forall>i l. answers h i l \<noteq> Refuse) \<and>
     buffer_ok h (fs_inputBuffer s) \<and> buffer_ok h (fs_outputBuffer s) \<and> buffer_ok h r \<and>
     owns (fs_inputBuffer s) \<inter> owns (fs_outputBuffer s) = {} \<and> owns r \<inter> (owns (fs_inputBuffer s) \<union> owns (fs_outputBuffer s)) = {} \<and>
     fs_inputPos s = Some 0 \<and> fs_outputPos s = Some 0 \<and> (\<exists>f. fs_filters s = [f] \<and> filter_contract f F) \<and>
     0 < n \<and> n < 9223372036854775808 \<and> n \<le> b_size (fs_inputBuffer s) \<and> n \<le> b_size (fs_outputBuffer s)"

lemma fs_filter_law:
  assumes s: "fs_filled F n r s h" and fit: "b_size (fs_outputBuffer s) + length (F (view h (fs_inputBuffer s))) \<le> MAX_REQ"
  shows "\<exists>out h'. fs_filter_input s h = Inr (s\<lparr>fs_outputBuffer := out\<rparr>, h') \<and> fs_filled F n r (s\<lparr>fs_outputBuffer := out\<rparr>) h' \<and>
    view h' (fs_inputBuffer s) = view h (fs_inputBuffer s) \<and> view h' r = view h r \<and>
    view h' out = view h (fs_outputBuffer s) @ F (view h (fs_inputBuffer s)) \<and>
    b_size out = b_size (fs_outputBuffer s) + length (F (view h (fs_inputBuffer s)))"
proof -
  let ?i = "fs_inputBuffer s" and ?o = "fs_outputBuffer s"
  obtain f where f: "fs_filters s = [f]" "filter_contract f F" using s by (auto simp: fs_filled_def)
  note S = s [unfolded fs_filled_def]
  have ok: "heap_ok h" "buffer_ok h ?i" "buffer_ok h ?o" "owns ?i \<inter> owns ?o = {}" "\<forall>i l. answers h i l \<noteq> Refuse"
    "buffer_ok h r" "owns r \<inter> owns ?i = {}" "owns r \<inter> owns ?o = {}" using S by auto
  note w = ref_whole [OF ok(2)]
  obtain m out h' where a: "f (mk_ref (b_data ?i) (b_size ?i)) ?o h = Inr (m, out, h')"
    "appended buffer_ok h ?o h' out (F (view h ?i))"
    using filter_contract.appends [OF f(2) ok(1) w(2) ok(3) _ ok(5)] w(3,4) ok(4) fit by auto
  then have t: "trades (owns ?o) (owns out) h h'" by (auto simp: appended_def intro: trades_moves)
  note ki = kept_apart [OF ok(1,2) t ok(4)] and kr = kept_apart [OF ok(1,6) t ok(8)]
  have "fs_filter_input s h = Inr (s\<lparr>fs_outputBuffer := out\<rparr>, h')"
    using S f a(1) w(1) by (simp add: fs_filter_input_def fs_process_def)
  moreover have "\<forall>i l. answers h' i l \<noteq> Refuse" using t ok(5) by (simp add: trades_def)
  moreover from this have "fs_filled F n r (s\<lparr>fs_outputBuffer := out\<rparr>) h'"
    using S a(2) ki(1,3) kr(1,3) f ok(7) unfolding fs_filled_def appended_def by (simp add: Int_Un_distrib)
  ultimately show ?thesis using a(2) ki(2) kr(2)
    by (intro exI [of _ out] exI [of _ h']) (simp add: appended_def)
qed

lemma fs_read_law:
  assumes s: "fs_filled F n r s h" and fit: "b_size (fs_outputBuffer s) + length (F (view h (fs_inputBuffer s))) \<le> MAX_REQ"
    "b_size r + n < 9223372036854775808"
  shows "\<exists>r' s' h'. fs_read_buffer rd n r s h = Inr (- int n, r', s', h') \<and> fs_filled F n r' s' h' \<and> b_size r' = b_size r + n \<and>
    view h' r' = view h r @ take n (view h (fs_outputBuffer s)) \<and> view h' (fs_inputBuffer s') = view h (fs_inputBuffer s) \<and>
    view h' (fs_outputBuffer s') = view h (fs_outputBuffer s) @ F (view h (fs_inputBuffer s)) \<and>
    b_size (fs_outputBuffer s') = b_size (fs_outputBuffer s) + length (F (view h (fs_inputBuffer s)))"
proof -
  let ?i = "fs_inputBuffer s" and ?o = "fs_outputBuffer s"
  obtain out h1 where 1: "fs_filter_input s h = Inr (s\<lparr>fs_outputBuffer := out\<rparr>, h1)" "fs_filled F n r (s\<lparr>fs_outputBuffer := out\<rparr>) h1"
    "view h1 ?i = view h ?i" "view h1 r = view h r" "view h1 out = view h ?o @ F (view h ?i)"
    "b_size out = b_size ?o + length (F (view h ?i))"
    using fs_filter_law [OF s fit(1)] by blast
  have ok: "heap_ok h1" "buffer_ok h1 ?i" "buffer_ok h1 out" "buffer_ok h1 r" "owns r \<inter> owns ?i = {}" "owns r \<inter> owns out = {}"
    "\<forall>i l. answers h1 i l \<noteq> Refuse" and n: "0 < n" "n \<le> b_size out"
    using 1(2) by (auto simp: fs_filled_def)
  have n2: "n \<le> b_size ?i" "n \<le> b_size ?o" "fs_inputPos s = Some 0" "fs_outputPos s = Some 0" "b_size ?i < SIZE_MOD"
    "b_size out < SIZE_MOD" "length (view h ?o) = b_size ?o"
    using s ok by (auto simp: fs_filled_def buffer_ok_def mb_ok_ref_ok buffer_ok_mb_ok)
  have full: "readable h1 (b_data out) (b_size out)"
    using mb_ok_ref_ok [OF buffer_ok_mb_ok [OF ok(3)]] by (simp add: ref_ok_def)
  then have rd: "ref_ok h1 (mk_ref (b_data out) n)" "view h1 (mk_ref (b_data out) n) = take n (view h1 out)"
    using readable_mono [OF full n(2)] bytes_at_take [OF full n(2)] n(2) n2(6) by (simp_all add: ref_ok_def view_def mk_ref_def)
  obtain r' h2 where 2: "push_back_ref mutableEnsure (mk_ref (b_data out) n) r h1 = Inr (r', h2)"
    "appended buffer_ok h1 r h2 r' (take n (view h1 out))"
    using append_ref [OF ok(1) rd(1) ok(4) _ ok(7)] ok(6) fit(2) unfolding rd(2)
    by (simp add: owns_def mk_ref_def MAX_REQ_def Int_commute) blast
  have t: "trades (owns r) (owns r') h1 h2" using 2(2) by (auto simp: appended_def intro: trades_moves)
  note ki = kept_apart [OF ok(1,2) t ok(5) [unfolded Int_commute [of "owns r"]]]
    and ko = kept_apart [OF ok(1,3) t ok(6) [unfolded Int_commute [of "owns r"]]]
  have sz: "b_size r' = b_size r + n" using 2(2) n n2 ok(3) by (simp add: appended_def mb_ok_ref_ok buffer_ok_mb_ok)
  have "to_ssize (sz_sub (b_size r) (b_size r')) = - int n" using sz fit(2) n(1) by (simp add: sz_sub_wrap to_ssize_def)
  then have "fs_read_buffer rd n r s h = Inr (- int n, r', s\<lparr>fs_outputBuffer := out\<rparr>, h2)"
    using 1(1) 2(1) n n2 by (simp add: fs_read_buffer_def fs_pull_def push_back_ref_def mk_ref_def)
  moreover have "fs_filled F n r' (s\<lparr>fs_outputBuffer := out\<rparr>) h2"
    using 1(2) 2(2) ki(1,3) ko(1,3) t unfolding fs_filled_def appended_def trades_def by (simp add: Int_Un_distrib Int_commute)
  ultimately show ?thesis using 1(3-6) 2(2) ki(2) ko(2) n2(2,7) sz
    by (intro exI [of _ r'] exI [of _ "s\<lparr>fs_outputBuffer := out\<rparr>"] exI [of _ h2]) (simp add: appended_def)
qed

section \<open>Properties\<close>

text \<open>
  C16. Two filters in a row are applied one after the other: the output is extended by the second filter's image of
  the first one's, and no memory but that of the output changes hands. With a third filter this fails: the swapped
  buffer is not cleared, and what the first filter produced stands before the proper output.
\<close>

theorem filter_chain:
  assumes "filter_contract f F" "filter_contract g G" "filter_contract k K"
    and "heap_ok h" "ref_ok h input" "buffer_ok h out" "\<forall>i n. answers h i n \<noteq> Refuse"
    and x: "x = F (view h input)" "length x \<le> MAX_REQ" "length (view h out @ G x) \<le> MAX_REQ" "length (view h out @ x @ K (G x)) \<le> MAX_REQ"
  shows "(\<exists>n out' h'. fs_process [f, g] input out h = Inr (n, out', h') \<and> buffer_ok h' out' \<and>
      view h' out' = view h out @ G x \<and> trades (owns out) (owns out') h h') \<and>
    (\<exists>n out' h'. fs_process [f, g, k] input out h = Inr (n, out', h') \<and> buffer_ok h' out' \<and>
      view h' out' = view h out @ x @ K (G x) \<and> trades (owns out) (owns out') h h')"
  using fs_process_law [OF assms(1) _ _ assms(4-7) x(1,2), of "[g]" "[G]"]
    fs_process_law [OF assms(1) _ _ assms(4-7) x(1,2), of "[g, k]" "[G, K]"] assms(2,3) x(3,4) by (simp, blast)

theorem filter_chain_witness:
  "\<exists>n out' h'. fs_process [copy_filter, copy_filter, copy_filter] (mk_ref (Addr 0 0) 3) empty_mbuf (one_block ''abc'') = Inr (n, out', h') \<and>
     view h' out' = ''abcabc''"
proof -
  let ?h = "one_block ''abc''" and ?i = "mk_ref (Addr 0 0) 3"
  have v: "heap_ok ?h" "ref_ok ?h ?i" "\<forall>i n. answers ?h i n \<noteq> Refuse" "view ?h ?i = ''abc''"
    by (simp_all add: one_block_def heap_ok_def ref_ok_def mk_ref_def readable_def view_def bytes_at_def)
  note c = copying.filter_contract_axioms
  from filter_chain [OF c c c v(1,2) buffer_ok_empty v(3), of "''abc''"] show ?thesis using v(4) by (simp add: MAX_REQ_def) blast
qed

text \<open>
  \<^verbatim>\<open>read(Buffer&, n)\<close> of a filter stream reports the negative of the number of bytes it delivered, and since it
  does not advance its positions, it delivers the same bytes again on the next call.
\<close>

theorem filter_read_repeats:
  assumes s: "fs_filled F n r s h" and fit: "b_size (fs_outputBuffer s) + 2 * length (F (view h (fs_inputBuffer s))) \<le> MAX_REQ"
    "b_size r + 2 * n < 9223372036854775808"
  shows "\<exists>r1 s1 h1 r2 s2 h2. fs_read_buffer rd n r s h = Inr (- int n, r1, s1, h1) \<and>
    fs_read_buffer rd n r1 s1 h1 = Inr (- int n, r2, s2, h2) \<and>
    view h2 r2 = view h r @ take n (view h (fs_outputBuffer s)) @ take n (view h (fs_outputBuffer s))"
proof -
  have fits: "b_size (fs_outputBuffer s) + length (F (view h (fs_inputBuffer s))) \<le> MAX_REQ" "b_size r + n < 9223372036854775808"
    using fit by auto
  obtain r1 s1 h1 where 1: "fs_read_buffer rd n r s h = Inr (- int n, r1, s1, h1)" "fs_filled F n r1 s1 h1" "b_size r1 = b_size r + n"
    "view h1 r1 = view h r @ take n (view h (fs_outputBuffer s))" "view h1 (fs_inputBuffer s1) = view h (fs_inputBuffer s)"
    "view h1 (fs_outputBuffer s1) = view h (fs_outputBuffer s) @ F (view h (fs_inputBuffer s))"
    "b_size (fs_outputBuffer s1) = b_size (fs_outputBuffer s) + length (F (view h (fs_inputBuffer s)))"
    using fs_read_law [OF s fits, of rd] by blast
  have "b_size (fs_outputBuffer s1) + length (F (view h1 (fs_inputBuffer s1))) \<le> MAX_REQ" "b_size r1 + n < 9223372036854775808"
    using 1(3,5,7) fit by auto
  from fs_read_law [OF 1(2) this, of rd] obtain r2 s2 h2 where 2: "fs_read_buffer rd n r1 s1 h1 = Inr (- int n, r2, s2, h2)"
    "view h2 r2 = view h1 r1 @ take n (view h1 (fs_outputBuffer s1))" by blast
  have "n \<le> length (view h (fs_outputBuffer s))" using s by (simp add: fs_filled_def mb_ok_ref_ok buffer_ok_mb_ok)
  then show ?thesis using 1 2 by simp
qed

definition filled_stream :: "unit fstream" where
  "filled_stream = \<lparr>fs_parent = (), fs_inputBuffer = mk_mbuf (Addr 0 0) 2 2, fs_inputPos = Some 0,
     fs_outputBuffer = mk_mbuf (Addr 1 0) 2 2, fs_outputPos = Some 0, fs_filters = [copy_filter]\<rparr>"

definition filled_heap :: heap where
  "filled_heap = \<lparr>blocks = [0 \<mapsto> ''ab'', 1 \<mapsto> ''xy''], next_block = 2, answers = (\<lambda>_ _. Fresh), junk = (\<lambda>_. NUL)\<rparr>"

theorem filter_read_repeats_witness:
  "\<exists>r1 s1 h1 r2 s2 h2. fs_read_buffer (\<lambda>n r s h. Inr (0, r, s, h)) 1 empty_mbuf filled_stream filled_heap = Inr (- 1, r1, s1, h1) \<and>
     fs_read_buffer (\<lambda>n r s h. Inr (0, r, s, h)) 1 r1 s1 h1 = Inr (- 1, r2, s2, h2) \<and> view h2 r2 = ''xx''"
proof -
  have f: "fs_filled id 1 empty_mbuf filled_stream filled_heap"
    using copying.filter_contract_axioms
    by (auto simp: fs_filled_def filled_stream_def filled_heap_def heap_ok_def buffer_ok_def block_at_def mk_mbuf_def owns_def empty_mbuf_def)
  have v: "view filled_heap (fs_outputBuffer filled_stream) = ''xy''" "view filled_heap (fs_inputBuffer filled_stream) = ''ab''"
    "b_size (fs_outputBuffer filled_stream) = 2"
    by (simp_all add: filled_stream_def filled_heap_def view_def bytes_at_def mk_mbuf_def)
  show ?thesis using filter_read_repeats [OF f, of "\<lambda>n r s h. Inr (0, r, s, h)"] v by (simp add: MAX_REQ_def)
qed

end
