(* ===== verification/Stream_Dispatch.thy ===== *)
theory Stream_Dispatch
  imports Chunked_Stream Filter_Stream File_Stream Client_Socket
begin

text \<open>
  Calls through a pointer to \<^verbatim>\<open>Stream\<close>: the visitor (\<^verbatim>\<open>include/xio/StreamVisitor.h\<close>) with the \<^verbatim>\<open>accept\<close> of every class, and the rest of
  \<^verbatim>\<open>StreamReader\<close> (\<^verbatim>\<open>include/xio/StreamReader.h\<close>), which a \<^verbatim>\<open>ChunkedStream\<close> hands out for its first chunk.
\<close>

section \<open>Visitors\<close>

text \<open>A visitor is the five functions that its class overrides, on a state of its own.\<close>

record ('i, 't, 's) visitor =
  visit_pipe :: "pipe \<Rightarrow> 's \<Rightarrow> 's"
  visit_buffer :: "bstream \<Rightarrow> 's \<Rightarrow> 's"
  visit_chunked :: "chunk list \<Rightarrow> 's \<Rightarrow> 's"
  visit_file :: "filestream \<Rightarrow> 's \<Rightarrow> 's"
  visit_socket :: "('i, 't) socket \<Rightarrow> 's \<Rightarrow> 's"

definition Pipe_accept :: "('i, 't, 's) visitor \<Rightarrow> pipe \<Rightarrow> 's \<Rightarrow> 's" where
  "Pipe_accept v p x = visit_pipe v p x"

definition bs_accept :: "('i, 't, 's) visitor \<Rightarrow> bstream \<Rightarrow> 's \<Rightarrow> 's" where
  "bs_accept v s x = visit_buffer v s x"

definition cs_accept :: "('i, 't, 's) visitor \<Rightarrow> chunk list \<Rightarrow> 's \<Rightarrow> 's" where
  "cs_accept v cs x = visit_chunked v cs x"

definition fl_accept :: "('i, 't, 's) visitor \<Rightarrow> filestream \<Rightarrow> 's \<Rightarrow> 's" where
  "fl_accept v s x = visit_file v s x"

definition Socket_accept :: "('i, 't, 's) visitor \<Rightarrow> ('i, 't) socket \<Rightarrow> 's \<Rightarrow> 's" where
  "Socket_accept v s x = visit_socket v s x"

text \<open>A \<^verbatim>\<open>FilterStream\<close> has no function to be visited by: its \<^verbatim>\<open>accept\<close> is empty.\<close>

definition fs_accept :: "('i, 't, 's) visitor \<Rightarrow> 'p fstream \<Rightarrow> 's \<Rightarrow> 's" where
  "fs_accept v s x = x"

section \<open>Readers\<close>

fun chunk_read_socket :: "nat \<Rightarrow> chunk \<Rightarrow> heap \<times> 'k \<Rightarrow> int \<times> chunk \<times> heap \<times> 'k" where
  "chunk_read_socket n (BufChunk s) w = (case bs_read_socket n s of (rv, s') \<Rightarrow> (rv, BufChunk s', w))"
| "chunk_read_socket n (PipeChunk p) w = (case Pipe_read_socket p (snd w) of (rv, p', k') \<Rightarrow> (rv, PipeChunk p', fst w, k'))"

text \<open>\<open>None\<close> is a reader of no stream.\<close>

definition StreamReader_new :: "chunk option \<Rightarrow> chunk option" where
  "StreamReader_new stream = stream"

definition reader_read_socket :: "nat \<Rightarrow> chunk option \<Rightarrow> heap \<times> 'k \<Rightarrow> (int \<times> chunk \<times> heap \<times> 'k) res" where
  "reader_read_socket n r w = (case r of None \<Rightarrow> Inl NullDeref | Some c \<Rightarrow> Inr (chunk_read_socket n c w))"

definition reader_read_pipe :: "'k sysops \<Rightarrow> nat \<Rightarrow> chunk option \<Rightarrow> pipe \<times> heap \<times> 'k \<Rightarrow> (int \<times> chunk \<times> pipe \<times> heap \<times> 'k) res" where
  "reader_read_pipe sys n r w = (case r of None \<Rightarrow> Inl NullDeref | Some c \<Rightarrow> chunk_read_pipe sys n c w)"

definition reader_read_fd :: "'k sysops \<Rightarrow> int \<Rightarrow> nat \<Rightarrow> chunk option \<Rightarrow> heap \<times> 'k \<Rightarrow> (int \<times> chunk \<times> heap \<times> 'k) res" where
  "reader_read_fd sys fd n r w = (case r of None \<Rightarrow> Inl NullDeref | Some c \<Rightarrow> chunk_read_fd sys fd n c w)"

section \<open>Properties\<close>

text \<open>
  C37. A reader from \<^verbatim>\<open>front()\<close> reads the oldest byte of the stream, and keeps the order of the others. But it does not remove the chunk
  it empties: then \<^verbatim>\<open>empty()\<close> is true and \<^verbatim>\<open>read\<close> finds nothing, whatever the other chunks hold, until the user calls
  \<^verbatim>\<open>pop_front()\<close>, after which the stream has the remaining bytes.
\<close>

theorem front_reader_hides:
  assumes px: "posix_pipes sys pipe_at queue sent" and ok: "cs_ok pipe_at queue (c # cs) w" and b: "chunk_contents queue c w = b # bs"
  shows "\<exists>c' w'. reader_read_char sys (cs_front (c # cs)) w = Inr (schar b, c', w') \<and>
    cs_contents queue (c' # cs) w' = tl (cs_contents queue (c # cs) w) \<and>
    (bs = [] \<longrightarrow> cs_empty (c' # cs) \<and> (\<forall>dst n. cs_read sys dst n (c' # cs) w' = Some (Inr (0, c' # cs, w'))) \<and>
       (\<exists>w''. cs_pop_front sys (c' # cs) w' = Inr (cs, w'') \<and> cs_ok pipe_at queue cs w'' \<and>
          cs_contents queue cs w'' = tl (cs_contents queue (c # cs) w)))"
proof -
  have c: "chunk_ok pipe_at queue c w" "heap_ok (fst w)" "cs_ok pipe_at queue cs w" "\<forall>d \<in> set cs. separate c d"
    using ok by (auto simp: cs_ok_def)
  obtain c' w' where r: "chunk_read_char sys c w = Inr (schar b, c', w')" "chunk_contents queue c' w' = bs" "chunk_ok pipe_at queue c' w'"
    "spares pipe_at queue {} (chunk_pipe c) w w'" "fst w' = fst w" "chunk_foot c' = chunk_foot c" "chunk_pipe c' = chunk_pipe c"
    using posix_pipes.chunk_read_char_law [OF px c(1) b] by blast
  have h: "heap_ok (fst w')" using c(2) r(5) by simp
  have T: "cs_ok pipe_at queue cs w'" "cs_contents queue cs w' = cs_contents queue cs w"
    using cs_spared [OF c(3) r(4) h] c(4) by (auto simp: separate_def)
  have tl: "tl (cs_contents queue (c # cs) w) = bs @ cs_contents queue cs w" using b by (simp add: cs_contents_def)
  have e: "cs_empty (c' # cs) \<and> (\<forall>dst n. cs_read sys dst n (c' # cs) w' = Some (Inr (0, c' # cs, w')))" if "bs = []"
  proof -
    have "cs_empty (c' # cs)" using chunk_size_contents [OF r(3)] r(2) that by (simp add: cs_empty_def)
    then show ?thesis by (simp add: cs_read_def cs_drain.simps)
  qed
  have p: "\<exists>w''. cs_pop_front sys (c' # cs) w' = Inr (cs, w'') \<and> cs_ok pipe_at queue cs w'' \<and> cs_contents queue cs w'' = tl (cs_contents queue (c # cs) w)"
    if "bs = []"
  proof -
    obtain w2 where 2: "chunk_delete sys c' w' = Inr w2" "heap_ok (fst w2)" "spares pipe_at queue (chunk_foot c') (chunk_pipe c') w' w2"
      using posix_pipes.chunk_delete_law [OF px r(3) h] by blast
    then show ?thesis using cs_spared [OF T(1) 2(3,2)] c(4) r(6,7) T(2) tl that by (auto simp: cs_pop_front_def separate_def)
  qed
  show ?thesis using r e p T tl by (auto simp: reader_read_char_def cs_front_def cs_contents_def)
qed

theorem front_reader_hides_witness:
  "\<exists>c' w'. reader_read_char queue_sys (cs_front [PipeChunk \<lparr>p_rd = 3, p_wr = 4, p_size = 1\<rparr>, PipeChunk \<lparr>p_rd = 5, p_wr = 6, p_size = 2\<rparr>])
      (one_block [], two_pipes ''a'' ''bc'') = Inr (97, c', w') \<and>
    cs_empty [c', PipeChunk \<lparr>p_rd = 5, p_wr = 6, p_size = 2\<rparr>] \<and>
    cs_contents q_queue [c', PipeChunk \<lparr>p_rd = 5, p_wr = 6, p_size = 2\<rparr>] w' = ''bc''"
proof -
  let ?c = "PipeChunk \<lparr>p_rd = 3, p_wr = 4, p_size = 1\<rparr>" and ?d = "PipeChunk \<lparr>p_rd = 5, p_wr = 6, p_size = 2\<rparr>"
    and ?w = "(one_block [], two_pipes ''a'' ''bc'')"
  have ok: "cs_ok q_at q_queue [?c, ?d] ?w" "chunk_contents q_queue ?c ?w = CHR ''a'' # []"
    by (simp_all add: cs_ok_def separate_def pipe_ok_def one_block_def heap_ok_def)
  have "cs_contents q_queue [?c, ?d] ?w = ''abc''" "schar CHR ''a'' = 97" by (simp_all add: cs_contents_def schar_def)
  then show ?thesis using front_reader_hides [OF queue_kernel.posix_pipes_axioms ok] by auto
qed

end
