(* ===== verification/Echo_Server.thy ===== *)
theory Echo_Server
  imports Buffer_Stream Client_Socket
begin

text \<open>
  The example \<^verbatim>\<open>examples/echo-server.cpp\<close>: the handler of a client connection, which puts together \<^verbatim>\<open>Socket\<close> and
  \<^verbatim>\<open>BufferStream\<close>. The locale \<open>stream_socket\<close> says what reading from and writing to a connected socket does.
\<close>

section \<open>Definitions\<close>

record ('i, 't) client =
  cl_socket :: "('i, 't) socket"
  cl_writeBuffer :: bstream
  cl_close :: bool

text \<open>\<^verbatim>\<open>strncmp(a, b, n) == 0\<close> for arrays with a terminator.\<close>

definition strncmp_eq :: "nat \<Rightarrow> string \<Rightarrow> string \<Rightarrow> bool" where
  "strncmp_eq n a b \<longleftrightarrow> take n (takeWhile (\<lambda>c. c \<noteq> NUL) a @ [NUL]) = take n (takeWhile (\<lambda>c. c \<noteq> NUL) b @ [NUL])"

text \<open>\<^verbatim>\<open>delete this\<close>: the socket is closed, and the buffer freed.\<close>

definition echo_delete :: "'k netops \<Rightarrow> ('i, 't) client \<Rightarrow> heap \<times> 'k \<Rightarrow> (heap \<times> 'k) res" where
  "echo_delete sys c w =
     (case Socket_close sys (cl_socket c) (snd w) of (_, k') \<Rightarrow>
        bnd (Buffer_destroy (bs_data (cl_writeBuffer c)) (fst w)) (\<lambda>h'. Inr (h', k')))"

text \<open>
  The part of the handler for \<^verbatim>\<open>READ\<close>: the client, unless it was deleted, and whether the server is stopped. The array is
  a local variable of 1024 bytes: \<^verbatim>\<open>Socket::read(char*, size_t)\<close> is the system call, and the bytes it delivers are a local
  source. The terminator is written behind them.
\<close>

definition echo_read :: "'k sysops \<Rightarrow> 'k netops \<Rightarrow> ('i, 't) evops \<Rightarrow> ('i, 't) client \<Rightarrow> heap \<times> 'k \<Rightarrow>
    (('i, 't) client option \<times> bool \<times> heap \<times> 'k) res" where
  "echo_read io sys ev c w =
     (case sys_read io (so_fd (cl_socket c)) 1024 (snd w) of
        (Inl e, k1) \<Rightarrow> bnd (echo_delete sys c (fst w, k1)) (\<lambda>w'. Inr (None, False, w'))
      | (Inr buf, k1) \<Rightarrow>
          if buf = [] then bnd (echo_delete sys c (fst w, k1)) (\<lambda>w'. Inr (None, False, w'))
          else if 1024 \<le> length buf then Inl OutOfBounds
          else
            bnd (bs_write (Local buf) (length buf) (cl_writeBuffer c) (fst w)) (\<lambda>(_, wb, h1).
              let c1 = c\<lparr>cl_writeBuffer := wb, cl_socket := Socket_watch ev (EV_READ OR EV_WRITE) (cl_socket c)\<rparr>;
                  n = of_ssize (int (length buf) - 2) in
              if strncmp_eq n buf ''..'' then Inr (Some (c1\<lparr>cl_close := True\<rparr>), True, h1, k1)
              else if strncmp_eq n buf ''.'' then Inr (Some (c1\<lparr>cl_close := True\<rparr>), False, h1, k1)
              else Inr (Some c1, False, h1, k1)))"

text \<open>The part for \<^verbatim>\<open>WRITE\<close>.\<close>

definition echo_write :: "'k sysops \<Rightarrow> 'k netops \<Rightarrow> ('i, 't) evops \<Rightarrow> ('i, 't) client \<Rightarrow> heap \<times> 'k \<Rightarrow>
    (('i, 't) client option \<times> heap \<times> 'k) res" where
  "echo_write io sys ev c w =
     (let wb = cl_writeBuffer c in
      bnd (Socket_write io (Heap (ptr_add (b_data (bs_data wb)) (bs_readOffset wb))) (bs_size wb) (cl_socket c) w) (\<lambda>(n, w1).
        if n < 0 then bnd (echo_delete sys c w1) (\<lambda>w2. Inr (None, w2))
        else
          let wb1 = (if 0 < n then bs_shift (nat n) wb else wb); c1 = c\<lparr>cl_writeBuffer := wb1\<rparr> in
          if bs_size wb1 = 0
          then if cl_close c then bnd (echo_delete sys c1 w1) (\<lambda>w2. Inr (None, w2))
               else Inr (Some (c1\<lparr>cl_socket := Socket_watch ev EV_READ (cl_socket c)\<rparr>), w1)
          else Inr (Some c1, w1)))"

definition echo_handler :: "'k sysops \<Rightarrow> 'k netops \<Rightarrow> ('i, 't) evops \<Rightarrow> 32 word \<Rightarrow> ('i, 't) client \<Rightarrow> heap \<times> 'k \<Rightarrow>
    (('i, 't) client option \<times> bool \<times> heap \<times> 'k) res" where
  "echo_handler io sys ev re c w =
     (if re AND TIMEOUT \<noteq> 0 then bnd (echo_delete sys c w) (\<lambda>w'. Inr (None, False, w'))
      else
        bnd (if re AND EV_READ \<noteq> 0 then echo_read io sys ev c w else Inr (Some c, False, w)) (\<lambda>(oc, stop, w1).
          case oc of
            None \<Rightarrow> Inr (None, stop, w1)
          | Some c1 \<Rightarrow>
              if re AND EV_WRITE \<noteq> 0 then bnd (echo_write io sys ev c1 w1) (\<lambda>(oc2, w2). Inr (oc2, stop, w2))
              else Inr (Some c1, stop, w1)))"

text \<open>\<^verbatim>\<open>new Client(server, socket)\<close> for handler number \<open>cb\<close>; the time-out is ten seconds.\<close>

definition Client_new :: "('i, 't) evops \<Rightarrow> nat \<Rightarrow> ('i, 't) socket \<Rightarrow> ('i, 't) client res" where
  "Client_new ev cb s =
     bnd (Socket_on ev EV_READ (ts_fromSeconds 10) cb s) (\<lambda>s'.
       Inr \<lparr>cl_socket = s', cl_writeBuffer = \<lparr>bs_data = empty_mbuf, bs_readOffset = 0\<rparr>, cl_close = False\<rparr>)"

section \<open>Connected sockets\<close>

text \<open>\<open>received\<close> and \<open>sent\<close>: all bytes that were read from, and accepted for, a descriptor.\<close>

locale stream_socket =
  fixes io :: "'k sysops" and sys :: "'k netops" and received sent :: "'k \<Rightarrow> int \<Rightarrow> char list"
  assumes read_gets: "sys_read io fd n k = (Inr bs, k') \<Longrightarrow>
      length bs \<le> n \<and> received k' = (received k)(fd := received k fd @ bs) \<and> sent k' = sent k"
    and read_fails: "sys_read io fd n k = (Inl e, k') \<Longrightarrow> received k' = received k \<and> sent k' = sent k"
    and write_takes: "sys_write io fd bs k = (Inr m, k') \<Longrightarrow>
      m \<le> length bs \<and> sent k' = (sent k)(fd := sent k fd @ take m bs) \<and> received k' = received k"
    and write_fails: "sys_write io fd bs k = (Inl e, k') \<Longrightarrow> received k' = received k \<and> sent k' = sent k"
    and close_keeps: "received (sc_close sys fd k) = received k \<and> sent (sc_close sys fd k) = sent k"

text \<open>
  The client is sound, its buffer has at most \<open>N\<close> bytes, and what it received is what it sent followed by what it
  still holds.
\<close>

definition echo_ok :: "('k \<Rightarrow> int \<Rightarrow> char list) \<Rightarrow> ('k \<Rightarrow> int \<Rightarrow> char list) \<Rightarrow> nat \<Rightarrow> ('i, 't) client \<Rightarrow> heap \<times> 'k \<Rightarrow> bool" where
  "echo_ok received sent N c w \<longleftrightarrow> heap_ok (fst w) \<and> (\<forall>i n. answers (fst w) i n \<noteq> Refuse) \<and>
     bs_ok (fst w) (cl_writeBuffer c) \<and> b_size (bs_data (cl_writeBuffer c)) \<le> N \<and>
     received (snd w) (so_fd (cl_socket c)) =
       sent (snd w) (so_fd (cl_socket c)) @ bs_contents (fst w) (cl_writeBuffer c)"

text \<open>A read from the descriptor can fill the array.\<close>

definition fills :: "'k sysops \<Rightarrow> int \<Rightarrow> bool" where
  "fills io fd \<longleftrightarrow> (\<exists>k bs k'. sys_read io fd 1024 k = (Inr bs, k') \<and> length bs = 1024)"

text \<open>
  The same after a call of the handler, which may have deleted the client (\<open>None\<close>). Only the storage of its
  buffer and the streams of its descriptor were touched; a deleted client leaves no storage behind.
\<close>

abbreviation storage :: "('i, 't) client \<Rightarrow> nat set" where
  "storage c \<equiv> owns (bs_data (cl_writeBuffer c))"

fun echo_result :: "('k \<Rightarrow> int \<Rightarrow> char list) \<Rightarrow> ('k \<Rightarrow> int \<Rightarrow> char list) \<Rightarrow> nat \<Rightarrow> ('i, 't) client \<Rightarrow> heap \<times> 'k \<Rightarrow>
    ('i, 't) client option \<Rightarrow> heap \<times> 'k \<Rightarrow> bool" where
  "echo_result received sent N c (h, k) oc (h', k') \<longleftrightarrow> heap_ok h' \<and> frame (storage c) h h' \<and>
     moves (storage c) (case oc of None \<Rightarrow> {} | Some c' \<Rightarrow> storage c') h h' \<and>
     (\<forall>x. x \<noteq> so_fd (cl_socket c) \<longrightarrow> received k' x = received k x \<and> sent k' x = sent k x) \<and>
     (case oc of
        Some c' \<Rightarrow> so_fd (cl_socket c') = so_fd (cl_socket c) \<and> so_state (cl_socket c') = so_state (cl_socket c) \<and>
          so_handler (cl_socket c') = so_handler (cl_socket c) \<and> echo_ok received sent N c' (h', k')
      | None \<Rightarrow> \<exists>rest. received k' (so_fd (cl_socket c)) = sent k' (so_fd (cl_socket c)) @ rest)"

lemma echo_result_trans:
  assumes ok: "heap_ok h" and 1: "echo_result received sent N c (h, k) (Some c1) (h1, k1)"
    and 2: "echo_result received sent N c1 (h1, k1) oc (h2, k2)"
  shows "echo_result received sent N c (h, k) oc (h2, k2)"
proof -
  have m1: "moves (storage c) (storage c1) h h1" "frame (storage c) h h1" using 1 by simp_all
  have m2: "moves (storage c1) (case oc of None \<Rightarrow> {} | Some c' \<Rightarrow> storage c') h1 h2" "frame (storage c1) h1 h2" using 2 by simp_all
  have "frame (storage c) h h2" using frame_trans_fresh [OF m1(2) m2(2)] moves_fresh [OF m1(1)] by blast
  moreover have "moves (storage c) (case oc of None \<Rightarrow> {} | Some c' \<Rightarrow> storage c') h h2"
    using moves_trans [OF m1(1) m2(1) ok] m1(2) by (simp add: frame_def)
  ultimately show ?thesis using 1 2 by (cases oc) simp_all
qed

lemma echo_ok_mono: "echo_ok received sent N c w \<Longrightarrow> N \<le> M \<Longrightarrow> echo_ok received sent M c w"
  by (auto simp: echo_ok_def)

lemma echo_write_buffer:
  assumes ok: "echo_ok received sent N c (h, k)" and room: "N + length buf < 9223372036854775808"
  shows "\<exists>b' h'. bs_write (Local buf) (length buf) (cl_writeBuffer c) h = Inr (int (length buf), (cl_writeBuffer c)\<lparr>bs_data := b'\<rparr>, h') \<and>
    appended buffer_ok h (bs_data (cl_writeBuffer c)) h' b' buf"
proof -
  let ?s = "cl_writeBuffer c"
  have b: "bs_ok h ?s" "heap_ok h" "\<forall>i n. answers h i n \<noteq> Refuse" "b_size (bs_data ?s) \<le> N" using ok by (simp_all add: echo_ok_def)
  have r: "b_size (bs_data ?s) + length buf < 9223372036854775808" using b(4) room by simp
  obtain m b' h' where 1: "bs_write (Local buf) (length buf) ?s h = Inr (int m, ?s\<lparr>bs_data := b'\<rparr>, h')"
    "appended buffer_ok h (bs_data ?s) h' b' (take m buf)" "m \<le> length buf"
    "m = length buf \<or> \<not> grants mutableEnsure (b_size (bs_data ?s) + length buf) (bs_data ?s) h"
    using bs_write_law [OF b(1,2), of "Local buf" "length buf" buf] r by auto
  have "m = length buf"
  proof (cases "buf = []")
    case False
    then have "grants mutableEnsure (b_size (bs_data ?s) + length buf) (bs_data ?s) h"
      using always_grants_mutable [OF b(3)] b(1,2) r by (simp add: always_grants_def bs_ok_def MAX_REQ_def)
    then show ?thesis using 1(4) by simp
  qed (use 1(3) in simp)
  then show ?thesis using 1 by auto
qed

context stream_socket
begin

lemma echo_delete_law:
  assumes b: "heap_ok h" "bs_ok h (cl_writeBuffer c)" and r: "received k1 (so_fd (cl_socket c)) = sent k1 (so_fd (cl_socket c)) @ rest"
    and o: "\<forall>x. x \<noteq> so_fd (cl_socket c) \<longrightarrow> received k1 x = received k x \<and> sent k1 x = sent k x"
    and d: "storage c = storage d" "so_fd (cl_socket d) = so_fd (cl_socket c)"
  shows "\<exists>h' k'. echo_delete sys c (h, k1) = Inr (h', k') \<and> echo_result received sent N d (h, k) None (h', k')"
proof -
  obtain s' k' where s: "Socket_close sys (cl_socket c) k1 = (s', k')" by (rule prod.exhaust)
  then have k: "received k' = received k1" "sent k' = sent k1"
    using close_keeps by (auto simp: Socket_close_def split: if_splits)
  have "buffer_ok h (bs_data (cl_writeBuffer c))" using b(2) by (simp add: bs_ok_def)
  from Buffer_destroy_spec [OF this b(1)] obtain h' where h': "Buffer_destroy (bs_data (cl_writeBuffer c)) h = Inr h'"
    "heap_ok h'" "frame (storage c) h h'" "moves (storage c) {} h h'" by blast
  then have "echo_delete sys c (h, k1) = Inr (h', k')" using s by (simp add: echo_delete_def)
  moreover have "echo_result received sent N d (h, k) None (h', k')" using h' k r o d by simp
  ultimately show ?thesis by blast
qed

lemma echo_read_law:
  assumes ok: "echo_ok received sent N c (h, k)" and room: "N + 1024 < 9223372036854775808"
  shows "echo_read io sys ev c (h, k) = Inl OutOfBounds \<and> fills io (so_fd (cl_socket c)) \<or>
    (\<exists>oc stop h' k'. echo_read io sys ev c (h, k) = Inr (oc, stop, h', k') \<and> echo_result received sent (N + 1024) c (h, k) oc (h', k'))"
proof -
  let ?fd = "so_fd (cl_socket c)"
  have b: "heap_ok h" "bs_ok h (cl_writeBuffer c)" "received k ?fd = sent k ?fd @ bs_contents h (cl_writeBuffer c)"
    "\<forall>i n. answers h i n \<noteq> Refuse" "b_size (bs_data (cl_writeBuffer c)) \<le> N"
    using ok by (simp_all add: echo_ok_def)
  obtain r k1 where r: "sys_read io ?fd 1024 k = (r, k1)" by (rule prod.exhaust)
  have gone: ?thesis if "received k1 ?fd = sent k1 ?fd @ rest" "\<forall>x. x \<noteq> ?fd \<longrightarrow> received k1 x = received k x \<and> sent k1 x = sent k x"
      "echo_read io sys ev c (h, k) = bnd (echo_delete sys c (h, k1)) (\<lambda>w'. Inr (None, False, w'))" for rest
    using echo_delete_law [OF b(1,2) that(1,2) refl refl, of "N + 1024"] that(3) by auto
  show ?thesis
  proof (cases r)
    case (Inl e)
    then show ?thesis using read_fails [of ?fd 1024 k e k1] r b(3) by (intro gone) (simp_all add: echo_read_def)
  next
    case (Inr buf)
    then have k1: "length buf \<le> 1024" "received k1 ?fd = sent k1 ?fd @ bs_contents h (cl_writeBuffer c) @ buf"
      "\<forall>x. x \<noteq> ?fd \<longrightarrow> received k1 x = received k x \<and> sent k1 x = sent k x"
      using read_gets [of ?fd 1024 k buf k1] r b(3) by auto
    consider "buf = []" | "buf \<noteq> []" "1024 \<le> length buf" | "buf \<noteq> []" "length buf < 1024" by linarith
    then show ?thesis
    proof cases
      case 1
      then show ?thesis using k1 r Inr by (intro gone) (simp_all add: echo_read_def)
    next
      case 2
      moreover from this r Inr k1(1) have "fills io ?fd" unfolding fills_def by (intro exI conjI) auto
      ultimately show ?thesis using r Inr by (simp add: echo_read_def)
    next
      case 3
      have "N + length buf < 9223372036854775808" using k1(1) room by simp
      from echo_write_buffer [OF ok this] obtain b' h' where
        w: "bs_write (Local buf) (length buf) (cl_writeBuffer c) h = Inr (int (length buf), (cl_writeBuffer c)\<lparr>bs_data := b'\<rparr>, h')"
        "appended buffer_ok h (bs_data (cl_writeBuffer c)) h' b' buf" by blast
      have a: "heap_ok h'" "answers h' = answers h" "b_size b' \<le> N + 1024" "frame (storage c) h h'" "moves (storage c) (owns b') h h'"
        using w(2) b(5) k1(1) by (simp_all add: appended_def frame_def)
      define c1 where "c1 = c\<lparr>cl_writeBuffer := (cl_writeBuffer c)\<lparr>bs_data := b'\<rparr>, cl_socket := Socket_watch ev (EV_READ OR EV_WRITE) (cl_socket c)\<rparr>"
      have "echo_result received sent (N + 1024) c (h, k) (Some (c1\<lparr>cl_close := q\<rparr>)) (h', k1)" for q
        using a b(4) bs_appended [OF b(2) w(2)] k1 by (simp add: echo_ok_def c1_def)
      moreover have "echo_result received sent (N + 1024) c (h, k) (Some c1) (h', k1)"
        using a b(4) bs_appended [OF b(2) w(2)] k1 by (simp add: echo_ok_def c1_def)
      moreover have "\<exists>stop q. echo_read io sys ev c (h, k) = Inr (Some (c1\<lparr>cl_close := q\<rparr>), stop, h', k1) \<or>
          echo_read io sys ev c (h, k) = Inr (Some c1, stop, h', k1)"
        using r Inr 3 w(1) by (auto simp: echo_read_def Let_def c1_def)
      ultimately show ?thesis by blast
    qed
  qed
qed

lemma echo_write_law:
  assumes ok: "echo_ok received sent N c (h, k)"
  shows "\<exists>oc h' k'. echo_write io sys ev c (h, k) = Inr (oc, h', k') \<and> echo_result received sent N c (h, k) oc (h', k')"
proof -
  let ?fd = "so_fd (cl_socket c)" and ?s = "cl_writeBuffer c"
  have b: "heap_ok h" "bs_ok h ?s" "received k ?fd = sent k ?fd @ bs_contents h ?s"
    "\<forall>i n. answers h i n \<noteq> Refuse" "b_size (bs_data ?s) \<le> N"
    using ok by (simp_all add: echo_ok_def)
  have ld: "load h (ptr_add (b_data (bs_data ?s)) (bs_readOffset ?s)) (bs_size ?s) = Inr (bs_contents h ?s)"
    using bs_front [OF b(2), of "bs_size ?s"] bs_size_contents [OF b(2)] by simp
  obtain r k1 where r: "sys_write io ?fd (bs_contents h ?s) k = (r, k1)" by (rule prod.exhaust)
  have w: "Socket_write io (Heap (ptr_add (b_data (bs_data ?s)) (bs_readOffset ?s))) (bs_size ?s) (cl_socket c) (h, k) = Inr (rv_of r, h, k1)"
    using ld r by (simp add: Socket_write_def write_from_def)
  show ?thesis
  proof (cases r)
    case (Inl e)
    then have k1: "received k1 ?fd = sent k1 ?fd @ bs_contents h ?s" "\<forall>x. x \<noteq> ?fd \<longrightarrow> received k1 x = received k x \<and> sent k1 x = sent k x"
      using write_fails [of ?fd _ k e k1] r b(3) by simp_all
    from echo_delete_law [OF b(1,2) k1 refl refl] show ?thesis using w Inl by (auto simp: echo_write_def)
  next
    case (Inr m)
    then have m: "m \<le> bs_size ?s" "received k1 ?fd = sent k1 ?fd @ drop m (bs_contents h ?s)"
      "\<forall>x. x \<noteq> ?fd \<longrightarrow> received k1 x = received k x \<and> sent k1 x = sent k x"
      using write_takes [of ?fd _ k m k1] r b(3) bs_size_contents [OF b(2)] by auto
    define s1 where "s1 = (if 0 < int m then bs_shift m ?s else ?s)"
    have s1: "bs_ok h s1" "received k1 ?fd = sent k1 ?fd @ bs_contents h s1" "b_size (bs_data s1) \<le> N" "owns (bs_data s1) = storage c"
      using bs_shift_ok [OF b(2) m(1)] b m(2) by (auto simp: s1_def)
    have 1: "echo_result received sent N c (h, k) (Some (c\<lparr>cl_writeBuffer := s1\<rparr>)) (h, k1)"
      "echo_result received sent N c (h, k) (Some (c\<lparr>cl_writeBuffer := s1, cl_socket := Socket_watch ev EV_READ (cl_socket c)\<rparr>)) (h, k1)"
      using s1 b(1,4) m(3) by (simp_all add: echo_ok_def)
    have 2: "\<exists>h' k'. echo_delete sys (c\<lparr>cl_writeBuffer := s1\<rparr>) (h, k1) = Inr (h', k') \<and> echo_result received sent N c (h, k) None (h', k')"
      using s1 m(3) b(1) by (intro echo_delete_law) simp_all
    have "echo_write io sys ev c (h, k) =
        (if bs_size s1 = 0
         then if cl_close c then bnd (echo_delete sys (c\<lparr>cl_writeBuffer := s1\<rparr>) (h, k1)) (\<lambda>w2. Inr (None, w2))
              else Inr (Some (c\<lparr>cl_writeBuffer := s1, cl_socket := Socket_watch ev EV_READ (cl_socket c)\<rparr>), h, k1)
         else Inr (Some (c\<lparr>cl_writeBuffer := s1\<rparr>), h, k1))"
      using w Inr by (simp add: echo_write_def Let_def s1_def)
    then show ?thesis using 1 2 by (cases "bs_size s1 = 0"; cases "cl_close c") auto
  qed
qed

lemma echo_handler_law:
  assumes ok: "echo_ok received sent N c (h, k)" and room: "N + 1024 < 9223372036854775808"
  shows "echo_handler io sys ev re c (h, k) = Inl OutOfBounds \<and> fills io (so_fd (cl_socket c)) \<or>
    (\<exists>oc stop h' k'. echo_handler io sys ev re c (h, k) = Inr (oc, stop, h', k') \<and>
       echo_result received sent (N + 1024) c (h, k) oc (h', k'))"
proof -
  have hok: "heap_ok h" using ok by (simp add: echo_ok_def)
  have wr: "\<exists>oc stop h' k'. (if re AND EV_WRITE \<noteq> 0 then bnd (echo_write io sys ev d (h1, k1)) (\<lambda>(oc, w2). Inr (oc, q, w2)) else Inr (Some d, q, h1, k1)) =
      Inr (oc, stop, h', k') \<and> echo_result received sent (N + 1024) c (h, k) oc (h', k')"
    if d: "echo_result received sent (N + 1024) c (h, k) (Some d) (h1, k1)" for d h1 k1 q
  proof (cases "re AND EV_WRITE = 0")
    case False
    have "echo_ok received sent (N + 1024) d (h1, k1)" using d by simp
    from echo_write_law [OF this, of ev] obtain oc h' k' where
      x: "echo_write io sys ev d (h1, k1) = Inr (oc, h', k')" "echo_result received sent (N + 1024) d (h1, k1) oc (h', k')" by blast
    show ?thesis using x(1) echo_result_trans [OF hok d x(2)] False by (simp del: echo_result.simps)
  next
    case True
    show ?thesis using d True by (simp del: echo_result.simps)
  qed
  consider "re AND TIMEOUT \<noteq> 0" | "re AND TIMEOUT = 0" "re AND EV_READ \<noteq> 0" | "re AND TIMEOUT = 0" "re AND EV_READ = 0" by blast
  then show ?thesis
  proof cases
    case 1
    have "\<exists>h' k'. echo_delete sys c (h, k) = Inr (h', k') \<and> echo_result received sent (N + 1024) c (h, k) None (h', k')"
      using ok by (intro echo_delete_law) (simp_all add: echo_ok_def)
    then show ?thesis using 1 by (auto simp: echo_handler_def)
  next
    case 2
    from echo_read_law [OF ok room, of ev] show ?thesis
    proof (elim disjE exE conjE)
      fix oc stop h1 k1 assume r: "echo_read io sys ev c (h, k) = Inr (oc, stop, h1, k1)"
        "echo_result received sent (N + 1024) c (h, k) oc (h1, k1)"
      show ?thesis
      proof (cases oc)
        case (Some d)
        from wr [OF r(2) [unfolded Some], of stop] show ?thesis using 2 r(1) Some by (simp add: echo_handler_def del: echo_result.simps)
      next
        case None
        show ?thesis using 2 r None by (simp add: echo_handler_def del: echo_result.simps)
      qed
    qed (use 2 in \<open>simp add: echo_handler_def\<close>)
  next
    case 3
    have "echo_result received sent (N + 1024) c (h, k) (Some c) (h, k)" using echo_ok_mono [OF ok, of "N + 1024"] hok by simp
    from wr [OF this, of False] show ?thesis using 3 by (simp add: echo_handler_def del: echo_result.simps)
  qed
qed

end

text \<open>What is known of the client after a sequence of calls.\<close>

definition echo_progress :: "('k \<Rightarrow> int \<Rightarrow> char list) \<Rightarrow> ('k \<Rightarrow> int \<Rightarrow> char list) \<Rightarrow> nat \<Rightarrow> int \<Rightarrow> ('i, 't) client option \<Rightarrow> heap \<times> 'k \<Rightarrow> bool" where
  "echo_progress received sent N fd oc w \<longleftrightarrow>
     (case oc of Some c \<Rightarrow> so_fd (cl_socket c) = fd \<and> echo_ok received sent N c w
      | None \<Rightarrow> \<exists>rest. received (snd w) fd = sent (snd w) fd @ rest)"

lemma echo_result_progress:
  "echo_result received sent N c (h, k) oc (h', k') \<Longrightarrow> echo_progress received sent N (so_fd (cl_socket c)) oc (h', k')"
  by (cases oc) (simp_all add: echo_progress_def)

text \<open>A sequence of calls of the handler, until the client is deleted.\<close>

primrec echo_run :: "'k sysops \<Rightarrow> 'k netops \<Rightarrow> ('i, 't) evops \<Rightarrow> 32 word list \<Rightarrow> ('i, 't) client \<Rightarrow> heap \<times> 'k \<Rightarrow>
    (('i, 't) client option \<times> heap \<times> 'k) res" where
  "echo_run io sys ev [] c w = Inr (Some c, w)"
| "echo_run io sys ev (re # res) c w =
     bnd (echo_handler io sys ev re c w) (\<lambda>(oc, _, w').
       case oc of None \<Rightarrow> Inr (None, w') | Some c' \<Rightarrow> echo_run io sys ev res c' w')"

context stream_socket
begin

lemma echo_run_law:
  assumes "echo_ok received sent N c w" "N + 1024 * length res < 9223372036854775808"
  shows "echo_run io sys ev res c w = Inl OutOfBounds \<and> fills io (so_fd (cl_socket c)) \<or>
    (\<exists>oc w'. echo_run io sys ev res c w = Inr (oc, w') \<and>
       echo_progress received sent (N + 1024 * length res) (so_fd (cl_socket c)) oc w')"
  using assms
proof (induction res arbitrary: N c w)
  case (Cons re res)
  obtain h k where w: "w = (h, k)" by (rule prod.exhaust)
  have "N + 1024 < 9223372036854775808" using Cons.prems(2) by simp
  from echo_handler_law [OF Cons.prems(1) [unfolded w] this, of ev re] show ?case
  proof (elim disjE exE conjE)
    fix oc stop h' k' assume 2: "echo_handler io sys ev re c (h, k) = Inr (oc, stop, h', k')"
      "echo_result received sent (N + 1024) c (h, k) oc (h', k')"
    show ?thesis
    proof (cases oc)
      case None
      then show ?thesis using 2 w by (simp add: echo_progress_def)
    next
      case (Some c')
      then have "echo_ok received sent (N + 1024) c' (h', k')" "so_fd (cl_socket c') = so_fd (cl_socket c)" using 2(2) by simp_all
      then show ?thesis using Cons.IH [of "N + 1024" c' "(h', k')"] Cons.prems(2) 2(1) Some w by (simp add: algebra_simps)
    qed
  qed (use w in simp)
qed (simp add: echo_progress_def)

end

section \<open>A reference connection\<close>

text \<open>
  The small process of \<open>demo_net\<close> beside one line per descriptor: a line delivers its input in pieces of at most
  16 bytes, and accepts at most three bytes at a time.
\<close>

record line =
  ln_in :: "int \<Rightarrow> char list"
  ln_got :: "int \<Rightarrow> char list"
  ln_put :: "int \<Rightarrow> char list"

definition beside :: "('k \<Rightarrow> 'r \<times> 'k) \<Rightarrow> 'k \<times> 'l \<Rightarrow> 'r \<times> 'k \<times> 'l" where
  "beside f x = (case f (fst x) of (r, k) \<Rightarrow> (r, k, snd x))"

definition net_beside :: "'k netops \<Rightarrow> ('k \<times> 'l) netops" where
  "net_beside sys = \<lparr>
     sc_getenv = (\<lambda>x k. sc_getenv sys x (fst k)), sc_unsetenv = (\<lambda>x. apfst (sc_unsetenv sys x)),
     sc_getpid = (\<lambda>k. sc_getpid sys (fst k)), sc_getfd = (\<lambda>fd k. sc_getfd sys fd (fst k)),
     sc_setfd = (\<lambda>fd f. beside (sc_setfd sys fd f)), sc_getfl = (\<lambda>fd k. sc_getfl sys fd (fst k)),
     sc_setfl = (\<lambda>fd f. beside (sc_setfl sys fd f)), sc_fstat = (\<lambda>fd k. sc_fstat sys fd (fst k)),
     sc_stat = (\<lambda>p k. sc_stat sys p (fst k)), sc_lstat = (\<lambda>p k. sc_lstat sys p (fst k)),
     sc_getsockopt = (\<lambda>fd l q k. sc_getsockopt sys fd l q (fst k)),
     sc_setsockopt = (\<lambda>fd l q v. beside (sc_setsockopt sys fd l q v)),
     sc_getsockname = (\<lambda>fd k. sc_getsockname sys fd (fst k)), sc_mq_getattr = (\<lambda>fd k. sc_mq_getattr sys fd (fst k)),
     sc_socket = (\<lambda>d t p. beside (sc_socket sys d t p)), sc_bind = (\<lambda>fd a. beside (sc_bind sys fd a)),
     sc_listen = (\<lambda>fd n. beside (sc_listen sys fd n)), sc_accept4 = (\<lambda>fd f. beside (sc_accept4 sys fd f)),
     sc_accept = (\<lambda>fd. beside (sc_accept sys fd)), sc_connect = (\<lambda>fd a. beside (sc_connect sys fd a)),
     sc_sendmsg = (\<lambda>fd a m. beside (sc_sendmsg sys fd a m)), sc_close = (\<lambda>fd. apfst (sc_close sys fd)),
     sc_unlink = (\<lambda>p. apfst (sc_unlink sys p)), sc_chmod = (\<lambda>p m. beside (sc_chmod sys p m))\<rparr>"

lemma beside_eq: "beside f x = (r, y) \<longleftrightarrow> (\<exists>k. f (fst x) = (r, k) \<and> y = (k, snd x))"
  by (auto simp: beside_def split: prod.splits)

lemma beside_snd [simp]: "snd (beside f x) = (snd (f (fst x)), snd x)"
  by (simp add: beside_def split: prod.splits)

lemma fds_beside: "fd_table sys fds \<Longrightarrow> fd_table (net_beside sys) (\<lambda>x. fds (fst x))"
  by (auto simp: fd_table_def net_beside_def beside_eq)

definition line_io :: "(dstate \<times> line) sysops" where
  "line_io = \<lparr>
     sys_pipe2 = (\<lambda>_ k. (Inl 24, k)),
     sys_read = (\<lambda>fd n (k, l).
       let bs = take (min n 16) (ln_in l fd) in
       (Inr bs, k, l\<lparr>ln_in := (ln_in l)(fd := drop (length bs) (ln_in l fd)), ln_got := (ln_got l)(fd := ln_got l fd @ bs)\<rparr>)),
     sys_write = (\<lambda>fd bs (k, l). (Inr (min 3 (length bs)), k, l\<lparr>ln_put := (ln_put l)(fd := ln_put l fd @ take 3 bs)\<rparr>)),
     sys_splice = (\<lambda>_ _ _ k. (Inl 22, k)),
     sys_tee = (\<lambda>_ _ _ k. (Inl 22, k)),
     sys_sendfile = (\<lambda>_ _ _ k. (Inl 22, k)),
     sys_close = (\<lambda>_ k. k)\<rparr>"

interpretation lines: stream_socket line_io "net_beside demo_net" "\<lambda>k. ln_got (snd k)" "\<lambda>k. ln_put (snd k)"
  by unfold_locales (auto simp: line_io_def net_beside_def Let_def min_def)

definition hello :: "dstate \<times> line" where
  "hello = (blank_process, \<lparr>ln_in = (\<lambda>_. ''hello''), ln_got = (\<lambda>_. []), ln_put = (\<lambda>_. [])\<rparr>)"

section \<open>Properties\<close>

text \<open>
  C9. The echo server's client, from its construction on and for any sequence of events: on every connection whose
  reads never fill the 1024 bytes of the array, each call of the handler is memory safe, the bytes received are
  at any time the bytes sent back followed by the bytes still in the write buffer, and after the client is deleted the
  bytes sent are still a prefix of those received. The only fault is the write behind the array.
\<close>

theorem echo_faithful:
  assumes "stream_socket io sys received sent" and c: "Client_new ev cb s = Inr c"
    and w: "heap_ok h" "\<forall>i n. answers h i n \<noteq> Refuse" "received k (so_fd s) = []" "sent k (so_fd s) = []"
    and n: "1024 * length res < 9223372036854775808"
  shows "case echo_run io sys ev res c (h, k) of
      Inl e \<Rightarrow> e = OutOfBounds \<and> fills io (so_fd s)
    | Inr (None, _, k') \<Rightarrow> (\<exists>rest. received k' (so_fd s) = sent k' (so_fd s) @ rest)
    | Inr (Some c', h', k') \<Rightarrow> bs_ok h' (cl_writeBuffer c') \<and>
        received k' (so_fd s) = sent k' (so_fd s) @ bs_contents h' (cl_writeBuffer c')"
proof -
  have fd: "so_fd (cl_socket c) = so_fd s" "cl_writeBuffer c = \<lparr>bs_data = empty_mbuf, bs_readOffset = 0\<rparr>"
    using c by (auto simp: Client_new_def bnd_eq_Inr dest: on_keeps)
  then have "echo_ok received sent 0 c (h, k)"
    using w by (simp add: echo_ok_def bs_ok_def bs_contents_def)
  from stream_socket.echo_run_law [OF assms(1) this, of res ev] n fd show ?thesis
    by (auto simp: echo_ok_def echo_progress_def split: option.splits)
qed

theorem echo_faithful_witness:
  "case Client_new demo_ev 0 (Socket_fd idle idle 5 Operational) of Inl _ \<Rightarrow> False
   | Inr c \<Rightarrow> (case echo_run line_io (net_beside demo_net) demo_ev [1, 2, 2] c (one_block [], hello) of
      Inl e \<Rightarrow> e = OutOfBounds \<and> fills line_io 5
    | Inr (None, _, k') \<Rightarrow> (\<exists>rest. ln_got (snd k') 5 = ln_put (snd k') 5 @ rest)
    | Inr (Some c', h', k') \<Rightarrow> bs_ok h' (cl_writeBuffer c') \<and>
        ln_got (snd k') 5 = ln_put (snd k') 5 @ bs_contents h' (cl_writeBuffer c'))"
proof -
  obtain c where c: "Client_new demo_ev 0 (Socket_fd idle idle 5 Operational) = Inr c"
    by (simp add: Client_new_def Socket_on_def EV_READ_def TIMEOUT_def assertC_def)
  have h: "heap_ok (one_block [])" "\<forall>i n. answers (one_block []) i n \<noteq> Refuse" by (simp_all add: one_block_def heap_ok_def)
  have fd: "so_fd (Socket_fd idle idle 5 Operational) = 5" by (simp add: Socket_fd_def)
  have l: "ln_got (snd hello) 5 = []" "ln_put (snd hello) 5 = []" "1024 * length [1, 2, 2 :: 32 word] < 9223372036854775808"
    by (simp_all add: hello_def)
  from echo_faithful [OF lines.stream_socket_axioms c h, unfolded fd, OF l] show ?thesis unfolding c by (simp only: sum.case)
qed

text \<open>
  A chunk of exactly two bytes, such as the empty line of a telnet client, and a chunk of three bytes that begins with a
  dot, such as the line \<^verbatim>\<open>.\<close> that is meant to end one connection, stop the whole server; and a chunk that fills the
  array makes the handler write behind it.
\<close>

theorem echo_short_line_stops:
  assumes rd: "sys_read io (so_fd (cl_socket c)) 1024 (snd w) = (Inr buf, k')"
    and ok: "heap_ok (fst w)" "bs_ok (fst w) (cl_writeBuffer c)" "b_size (bs_data (cl_writeBuffer c)) + 3 < 9223372036854775808"
  shows "((\<exists>a b. buf = [a, b]) \<or> (\<exists>a b. buf = [CHR ''.'', a, b]) \<longrightarrow>
      (\<exists>c' h'. echo_read io sys ev c w = Inr (Some c', True, h', k') \<and> cl_close c')) \<and>
    (length buf = 1024 \<longrightarrow> echo_read io sys ev c w = Inl OutOfBounds)"
proof (intro conjI impI)
  assume "(\<exists>a b. buf = [a, b]) \<or> (\<exists>a b. buf = [CHR ''.'', a, b])"
  then have l: "b_size (bs_data (cl_writeBuffer c)) + length buf < 9223372036854775808" "buf \<noteq> []" "length buf < 1024"
      "strncmp_eq (of_ssize (int (length buf) - 2)) buf ''..''"
    using ok(3) by (auto simp: strncmp_eq_def of_ssize_def)
  obtain m b' h' where "bs_write (Local buf) (length buf) (cl_writeBuffer c) (fst w) = Inr (int m, (cl_writeBuffer c)\<lparr>bs_data := b'\<rparr>, h')"
    using bs_write_law [OF ok(2,1), of "Local buf" "length buf" buf] l(1) by auto
  then show "\<exists>c' h'. echo_read io sys ev c w = Inr (Some c', True, h', k') \<and> cl_close c'"
    using rd l(2-4) by (simp add: echo_read_def Let_def)
next
  assume "length buf = 1024"
  then show "echo_read io sys ev c w = Inl OutOfBounds" using rd by (cases buf) (simp_all add: echo_read_def)
qed

theorem echo_short_line_stops_witness:
  "\<exists>c' h' k'. echo_read line_io (net_beside demo_net) demo_ev
      \<lparr>cl_socket = Socket_fd idle idle 5 Operational, cl_writeBuffer = \<lparr>bs_data = empty_mbuf, bs_readOffset = 0\<rparr>, cl_close = False\<rparr>
      (one_block [], blank_process, \<lparr>ln_in = (\<lambda>_. [CHR 0x0D, CHR 0x0A]), ln_got = (\<lambda>_. []), ln_put = (\<lambda>_. [])\<rparr>) =
    Inr (Some c', True, h', k') \<and> cl_close c'"
proof -
  let ?c = "\<lparr>cl_socket = Socket_fd idle idle 5 Operational, cl_writeBuffer = \<lparr>bs_data = empty_mbuf, bs_readOffset = 0\<rparr>, cl_close = False\<rparr>"
    and ?k = "(blank_process, \<lparr>ln_in = (\<lambda>_. [CHR 0x0D, CHR 0x0A]), ln_got = (\<lambda>_. []), ln_put = (\<lambda>_. [])\<rparr>)"
  obtain k' where r: "sys_read line_io (so_fd (cl_socket ?c)) 1024 (snd (one_block [], ?k)) = (Inr [CHR 0x0D, CHR 0x0A], k')"
    by (simp add: line_io_def Let_def)
  have o: "heap_ok (fst (one_block [], ?k))" "bs_ok (fst (one_block [], ?k)) (cl_writeBuffer ?c)"
      "b_size (bs_data (cl_writeBuffer ?c)) + 3 < 9223372036854775808"
    by (simp_all add: one_block_def heap_ok_def bs_ok_def)
  from echo_short_line_stops [OF r o, of "net_beside demo_net" demo_ev] show ?thesis by blast
qed

end
