(* ===== verification/Echo_System.thy ===== *)
theory Echo_System
  imports Echo_Server Inet_Server
begin

text \<open>
  The whole echo server of \<^verbatim>\<open>examples/echo-server.cpp\<close>: a listener, and the clients it accepted, under any order of events
  of the event loop. It puts together \<^verbatim>\<open>InetServer\<close>, \<^verbatim>\<open>ServerSocket::accept\<close>, \<^verbatim>\<open>Socket::io\<close>, \<^verbatim>\<open>Socket::timeout\<close> and the handler
  of \<open>Echo_Server\<close>. The clients share the memory and the kernel.
\<close>

section \<open>Definitions\<close>

text \<open>The objects of class \<^verbatim>\<open>Client\<close>, by the descriptor of their socket.\<close>

type_synonym ('i, 't) clients = "int \<Rightarrow> ('i, 't) client option"

record ('i, 't) echo_server =
  ec_listener :: "'i inet_server"
  ec_clients :: "('i, 't) clients"

text \<open>\<^verbatim>\<open>Server::setup\<close>. A listener that could not be opened is destroyed with its last reference.\<close>

definition Server_setup :: "'k netops \<Rightarrow> ('i, 't) evops \<Rightarrow> pton \<Rightarrow> ntop \<Rightarrow> char list \<Rightarrow> string \<Rightarrow> 'i \<Rightarrow> nat \<Rightarrow> 'k \<Rightarrow>
    ('i inet_server option \<times> 'k) res" where
  "Server_setup sys ev pton ntop garbage msg i drv k =
     bnd (inet_open sys ev ntop msg (ip_text pton garbage ''0.0.0.0'' 0) 3000 (O_NONBLOCK OR O_CLOEXEC) (InetServer_new i drv) k)
       (\<lambda>(ok, s, k'). if ok then Inr (Some s, k') else (case server_destroy sys ev s k' of (_, _, k'') \<Rightarrow> Inr (None, k'')))"

text \<open>\<^verbatim>\<open>Server::stop\<close>, which \<^verbatim>\<open>Server::sig\<close> calls too.\<close>

definition Server_stop :: "('i, 't) evops \<Rightarrow> ('i, 't) echo_server \<Rightarrow> ('i, 't) echo_server" where
  "Server_stop ev es = es\<lparr>ec_listener := server_stop ev (ec_listener es)\<rparr>"

text \<open>
  \<^verbatim>\<open>Server::accept\<close> makes a client of the socket without a test; for a null socket, the constructor calls \<^verbatim>\<open>on\<close> through
  the null pointer.
\<close>

definition Server_accept :: "('i, 't) evops \<Rightarrow> nat \<Rightarrow> ('i, 't) socket option \<Rightarrow> ('i, 't) clients \<Rightarrow> ('i, 't) clients res" where
  "Server_accept ev cb os cl =
     (case os of
        None \<Rightarrow> Inl NullDeref
      | Some s \<Rightarrow> bnd (Client_new ev cb s) (\<lambda>c. Inr (cl(so_fd s \<mapsto> c))))"

text \<open>
  The callback of the listener. The clients are threaded through \<^verbatim>\<open>ServerSocket::accept\<close> beside the kernel; a fault of
  the callback ends the program.
\<close>

definition accept_callback :: "('i, 't) evops \<Rightarrow> nat \<Rightarrow> ('i, 't) socket option \<Rightarrow> 'i inet_server \<Rightarrow> 'k \<times> ('i, 't) clients res \<Rightarrow>
    'i inet_server \<times> 'k \<times> ('i, 't) clients res" where
  "accept_callback ev cb os s x = (s, fst x, bnd (snd x) (Server_accept ev cb os))"

definition srv_accept :: "'k netops \<Rightarrow> ('i, 't) evops \<Rightarrow> bool \<Rightarrow> bool \<Rightarrow> 'i \<Rightarrow> 't \<Rightarrow> nat \<Rightarrow> ('i, 't) echo_server \<Rightarrow> heap \<times> 'k \<Rightarrow>
    (('i, 't) echo_server \<times> heap \<times> 'k) res" where
  "srv_accept sys ev multi accept4 i t cb es w =
     (case server_accept (net_beside sys) multi accept4 i t (accept_callback ev cb) (ec_listener es) (snd w, Inr (ec_clients es)) of
        (s, k', r) \<Rightarrow> bnd r (\<lambda>cl. Inr (es\<lparr>ec_listener := s, ec_clients := cl\<rparr>, fst w, k')))"

text \<open>The handler of the client \<open>c\<close>, whose socket has the descriptor \<open>fd\<close>, is called with \<open>re\<close>.\<close>

definition srv_handler :: "'k sysops \<Rightarrow> 'k netops \<Rightarrow> ('i, 't) evops \<Rightarrow> 32 word \<Rightarrow> int \<Rightarrow> ('i, 't) client \<Rightarrow>
    ('i, 't) echo_server \<Rightarrow> heap \<times> 'k \<Rightarrow> (('i, 't) echo_server \<times> heap \<times> 'k) res" where
  "srv_handler io sys ev re fd c es w =
     bnd (echo_handler io sys ev re c w) (\<lambda>(oc, stop, w').
       let es' = es\<lparr>ec_clients := (ec_clients es)(fd := oc)\<rparr> in Inr (if stop then Server_stop ev es' else es', w'))"

text \<open>Events of the loop. Those for a watcher that is not active do not happen.\<close>

datatype srv_event = EvAccept | EvSignal | EvIo int "32 word" | EvTimer int

fun srv_step :: "'k sysops \<Rightarrow> 'k netops \<Rightarrow> ('i, 't) evops \<Rightarrow> bool \<Rightarrow> bool \<Rightarrow> 'i \<Rightarrow> 't \<Rightarrow> nat \<Rightarrow> srv_event \<Rightarrow>
    ('i, 't) echo_server \<times> heap \<times> 'k \<Rightarrow> (('i, 't) echo_server \<times> heap \<times> 'k) res" where
  "srv_step io sys ev multi accept4 i t cb EvAccept (es, w) =
     (if isActive ev (ec_listener es) then srv_accept sys ev multi accept4 i t cb es w else Inr (es, w))"
| "srv_step io sys ev multi accept4 i t cb EvSignal (es, w) = Inr (Server_stop ev es, w)"
| "srv_step io sys ev multi accept4 i t cb (EvIo fd re) (es, h, k) =
     (case ec_clients es fd of
        None \<Rightarrow> Inr (es, h, k)
      | Some c \<Rightarrow>
          if \<not> io_active ev (so_io (cl_socket c)) then Inr (es, h, k)
          else bnd (Socket_io sys ev re (cl_socket c) k) (\<lambda>(call, s, k1).
            case call of
              None \<Rightarrow> Inr (es\<lparr>ec_clients := (ec_clients es)(fd \<mapsto> c\<lparr>cl_socket := s\<rparr>)\<rparr>, h, k1)
            | Some (_, mode) \<Rightarrow> srv_handler io sys ev mode fd (c\<lparr>cl_socket := s\<rparr>) es (h, k1)))"
| "srv_step io sys ev multi accept4 i t cb (EvTimer fd) (es, h, k) =
     (case ec_clients es fd of
        None \<Rightarrow> Inr (es, h, k)
      | Some c \<Rightarrow>
          if \<not> timer_active ev (so_timer (cl_socket c)) then Inr (es, h, k)
          else bnd (Socket_timeout ev (cl_socket c)) (\<lambda>(call, s).
            case call of
              None \<Rightarrow> Inr (es\<lparr>ec_clients := (ec_clients es)(fd \<mapsto> c\<lparr>cl_socket := s\<rparr>)\<rparr>, h, k)
            | Some (_, mode) \<Rightarrow> srv_handler io sys ev mode fd (c\<lparr>cl_socket := s\<rparr>) es (h, k)))"

primrec srv_run :: "'k sysops \<Rightarrow> 'k netops \<Rightarrow> ('i, 't) evops \<Rightarrow> bool \<Rightarrow> bool \<Rightarrow> 'i \<Rightarrow> 't \<Rightarrow> nat \<Rightarrow> srv_event list \<Rightarrow>
    ('i, 't) echo_server \<times> heap \<times> 'k \<Rightarrow> (('i, 't) echo_server \<times> heap \<times> 'k) res" where
  "srv_run io sys ev multi accept4 i t cb [] x = Inr x"
| "srv_run io sys ev multi accept4 i t cb (e # es) x =
     bnd (srv_step io sys ev multi accept4 i t cb e x) (srv_run io sys ev multi accept4 i t cb es)"

section \<open>The shared kernel\<close>

text \<open>A new connection has carried no bytes; the other calls keep the streams, or the table of descriptors.\<close>

locale connections = net_env sys fds ev + stream_socket io sys received sent
  for sys :: "'k netops" and fds and ev :: "('i, 't) evops" and io and received and sent +
  assumes accept4_stream: "sc_accept4 sys s f k = (Inr fd, k') \<Longrightarrow> received k' = (received k)(fd := []) \<and> sent k' = (sent k)(fd := [])"
    and accept_stream: "sc_accept sys s k = (Inr fd, k') \<Longrightarrow> received k' = (received k)(fd := []) \<and> sent k' = (sent k)(fd := [])"
    and accept4_none: "sc_accept4 sys s f k = (Inl e, k') \<Longrightarrow> received k' = received k \<and> sent k' = sent k"
    and accept_none: "sc_accept sys s k = (Inl e, k') \<Longrightarrow> received k' = received k \<and> sent k' = sent k"
    and setfl_stream: "received (snd (sc_setfl sys fd f k)) = received k \<and> sent (snd (sc_setfl sys fd f k)) = sent k"
    and read_fds: "fds (snd (sys_read io fd n k)) = fds k"
    and write_fds: "fds (snd (sys_write io fd bs k)) = fds k"

section \<open>Invariant\<close>

text \<open>
  \<open>B\<close> are the blocks of memory, and \<open>F\<close> the descriptors, that the process had without the clients. Every client is sound;
  no two share storage; memory and descriptors are those of the start and of the clients.
\<close>

definition client_ok :: "('k \<Rightarrow> int \<Rightarrow> char list) \<Rightarrow> ('k \<Rightarrow> int \<Rightarrow> char list) \<Rightarrow> nat \<Rightarrow> int \<Rightarrow> ('i, 't) client \<Rightarrow> heap \<times> 'k \<Rightarrow> bool" where
  "client_ok received sent N fd c w \<longleftrightarrow> so_fd (cl_socket c) = fd \<and> 0 \<le> fd \<and> so_state (cl_socket c) = Operational \<and>
     so_handler (cl_socket c) \<noteq> None \<and> echo_ok received sent N c w"

definition srv_ok :: "('k \<Rightarrow> int set) \<Rightarrow> ('k \<Rightarrow> int \<Rightarrow> char list) \<Rightarrow> ('k \<Rightarrow> int \<Rightarrow> char list) \<Rightarrow> int set \<Rightarrow> (nat \<Rightarrow> char list option) \<Rightarrow> nat \<Rightarrow>
    ('i, 't) clients \<Rightarrow> heap \<times> 'k \<Rightarrow> bool" where
  "srv_ok fds received sent F B N cl w \<longleftrightarrow> heap_ok (fst w) \<and> (\<forall>i n. answers (fst w) i n \<noteq> Refuse) \<and>
     fds (snd w) = F \<union> dom cl \<and> F \<inter> dom cl = {} \<and>
     (\<forall>fd c. cl fd = Some c \<longrightarrow> client_ok received sent N fd c w \<and> (\<forall>b \<in> storage c. B b = None)) \<and>
     (\<forall>fd c fd' c'. cl fd = Some c \<longrightarrow> cl fd' = Some c' \<longrightarrow> fd \<noteq> fd' \<longrightarrow> storage c \<inter> storage c' = {}) \<and>
     (\<forall>b. (\<forall>fd c. cl fd = Some c \<longrightarrow> b \<notin> storage c) \<longrightarrow> blocks (fst w) b = B b)"

lemma srv_okD:
  assumes "srv_ok fds received sent F B N cl (h, k)"
  shows "heap_ok h" "\<forall>i n. answers h i n \<noteq> Refuse" "fds k = F \<union> dom cl" "F \<inter> dom cl = {}"
    and "\<And>fd c. cl fd = Some c \<Longrightarrow> client_ok received sent N fd c (h, k)"
    and "\<And>fd c b. cl fd = Some c \<Longrightarrow> b \<in> storage c \<Longrightarrow> B b = None"
    and "\<And>fd c fd' c'. cl fd = Some c \<Longrightarrow> cl fd' = Some c' \<Longrightarrow> fd \<noteq> fd' \<Longrightarrow> storage c \<inter> storage c' = {}"
    and "\<And>b. (\<forall>fd c. cl fd = Some c \<longrightarrow> b \<notin> storage c) \<Longrightarrow> blocks h b = B b"
proof -
  note a = assms [unfolded srv_ok_def fst_conv snd_conv]
  show "heap_ok h" "\<forall>i n. answers h i n \<noteq> Refuse" "fds k = F \<union> dom cl" "F \<inter> dom cl = {}" using a by blast+
  show "client_ok received sent N fd c (h, k)" if "cl fd = Some c" for fd c using a that by blast
  show "B b = None" if "cl fd = Some c" "b \<in> storage c" for fd c b using a that by blast
  show "storage c \<inter> storage c' = {}" if "cl fd = Some c" "cl fd' = Some c'" "fd \<noteq> fd'" for fd c fd' c' using a that by blast
  show "blocks h b = B b" if "\<forall>fd c. cl fd = Some c \<longrightarrow> b \<notin> storage c" for b using a that by blast
qed

lemma client_ok_mono: "client_ok received sent N fd c w \<Longrightarrow> N \<le> M \<Longrightarrow> client_ok received sent M fd c w"
  unfolding client_ok_def using echo_ok_mono by blast

lemma srv_ok_mono:
  assumes "srv_ok fds received sent F B N cl w" "N \<le> M"
  shows "srv_ok fds received sent F B M cl w"
proof -
  have "client_ok received sent M fd c w" if "client_ok received sent N fd c w" "cl fd = Some c" for fd c by (rule client_ok_mono [OF that(1) assms(2)])
  then show ?thesis using assms(1) unfolding srv_ok_def by simp
qed

lemma client_ok_echo: "client_ok received sent N fd c (h, k) \<Longrightarrow> bs_ok h (cl_writeBuffer c) \<and> received k fd = sent k fd @ bs_contents h (cl_writeBuffer c)"
  by (auto simp: client_ok_def echo_ok_def)

lemma client_ok_live:
  assumes "client_ok received sent N fd c (h, k)"
  shows "\<forall>b \<in> storage c. b < next_block h"
proof -
  have "buffer_ok h (bs_data (cl_writeBuffer c))" "heap_ok h" using assms by (simp_all add: client_ok_def echo_ok_def bs_ok_def)
  then show ?thesis by (rule owns_live)
qed

lemma srv_ok_promise:
  assumes "srv_ok fds received sent F B N cl (h, k)"
  shows "fds k = F \<union> dom cl \<and> F \<inter> dom cl = {} \<and>
    (\<forall>fd c. cl fd = Some c \<longrightarrow> bs_ok h (cl_writeBuffer c) \<and> received k fd = sent k fd @ bs_contents h (cl_writeBuffer c)) \<and>
    (\<forall>fd c fd' c'. cl fd = Some c \<longrightarrow> cl fd' = Some c' \<longrightarrow> fd \<noteq> fd' \<longrightarrow> storage c \<inter> storage c' = {}) \<and>
    (\<forall>b. (\<forall>fd c. cl fd = Some c \<longrightarrow> b \<notin> storage c) \<longrightarrow> blocks h b = B b)"
proof (intro conjI)
  show "\<forall>fd c. cl fd = Some c \<longrightarrow> bs_ok h (cl_writeBuffer c) \<and> received k fd = sent k fd @ bs_contents h (cl_writeBuffer c)"
    by (intro allI impI client_ok_echo [OF srv_okD(5) [OF assms]])
qed (use srv_okD [OF assms] in blast)+

text \<open>A client that another one's handler leaves alone.\<close>

lemma client_ok_framed:
  assumes ok: "client_ok received sent N fd d (h, k)" and f: "frame K h h'" "storage d \<inter> K = {}" "heap_ok h'"
    and s: "received k' fd = received k fd" "sent k' fd = sent k fd"
  shows "client_ok received sent N fd d (h', k')"
proof -
  have o: "heap_ok h" "bs_ok h (cl_writeBuffer d)" using ok by (simp_all add: client_ok_def echo_ok_def)
  have "answers h' = answers h" using f(1) by (simp add: frame_def)
  then show ?thesis using ok f(3) s bs_frame [OF o(2,1) f(1,2)] by (auto simp: client_ok_def echo_ok_def)
qed

text \<open>The storage of a client, as its handler leaves it, is its old one or new memory: apart from the other clients and from \<open>B\<close>.\<close>

lemma srv_ok_apart:
  assumes ok: "srv_ok fds received sent F B N cl (h, k)" and c: "cl fd = Some c" and fresh: "L \<subseteq> storage c \<or> L \<inter> {b. b < next_block h} = {}"
  shows "\<forall>b \<in> L. B b = None" and "\<And>x d. cl x = Some d \<Longrightarrow> x \<noteq> fd \<Longrightarrow> storage d \<inter> L = {}"
proof -
  note I = srv_okD [OF ok]
  show "\<forall>b \<in> L. B b = None"
  proof
    fix b assume b: "b \<in> L"
    show "B b = None"
    proof (cases "b \<in> storage c")
      case True
      then show ?thesis by (rule I(6) [OF c])
    next
      case False
      then have n: "\<not> b < next_block h" using fresh b by blast
      then have "\<forall>x d. cl x = Some d \<longrightarrow> b \<notin> storage d" using client_ok_live [OF I(5)] by blast
      then show ?thesis using I(8) [of b] I(1) n by (simp add: heap_ok_def)
    qed
  qed
  show "storage d \<inter> L = {}" if "cl x = Some d" "x \<noteq> fd" for x d
    using fresh I(7) [OF that(1) c that(2)] client_ok_live [OF I(5) [OF that(1)]] by blast
qed

lemma srv_ok_blocks:
  assumes ok: "srv_ok fds received sent F B N cl (h, k)" and c: "cl fd = Some c"
    and m: "moves (storage c) (case oc of None \<Rightarrow> {} | Some c' \<Rightarrow> storage c') h h'"
    and b: "\<forall>x d. (cl(fd := oc)) x = Some d \<longrightarrow> b \<notin> storage d"
  shows "blocks h' b = B b"
proof -
  note I = srv_okD [OF ok]
  have "b \<notin> (case oc of None \<Rightarrow> {} | Some c' \<Rightarrow> storage c')" using b [rule_format, of fd] by (cases oc) simp_all
  then have "blocks h' b = (if b \<in> storage c then None else blocks h b)" using m by (simp add: moves_def)
  moreover have "blocks h b = B b" if "b \<notin> storage c"
  proof (rule I(8), intro allI impI)
    fix x d assume "cl x = Some d"
    then show "b \<notin> storage d" using b [rule_format, of x d] that c by (cases "x = fd") simp_all
  qed
  ultimately show ?thesis using I(6) [OF c, of b] by (cases "b \<in> storage c") simp_all
qed

text \<open>The invariant after the handler of one client.\<close>

lemma srv_ok_handler:
  assumes ok: "srv_ok fds received sent F B N cl (h, k)" and c: "cl fd = Some c0"
    and same: "storage c = storage c0" "so_fd (cl_socket c) = fd" "so_state (cl_socket c) = Operational" "so_handler (cl_socket c) \<noteq> None"
    and r: "echo_result received sent M c (h, k) oc (h', k')" and M: "N \<le> M"
    and fk: "fds k' = (case oc of None \<Rightarrow> fds k - {fd} | Some _ \<Rightarrow> fds k)"
  shows "srv_ok fds received sent F B M (cl(fd := oc)) (h', k')"
proof -
  note I = srv_okD [OF ok]
  let ?L = "case oc of None \<Rightarrow> {} | Some c' \<Rightarrow> storage c'" and ?cl = "cl(fd := oc)"
  have R: "heap_ok h'" "frame (storage c0) h h'" "moves (storage c0) ?L h h'" "\<And>x. x \<noteq> fd \<Longrightarrow> received k' x = received k x \<and> sent k' x = sent k x"
    using r same(1,2) by simp_all
  note apart = srv_ok_apart [OF ok c moves_fresh [OF R(3)]]
  have self: "client_ok received sent M fd d (h', k') \<and> (\<forall>b \<in> storage d. B b = None)" if "oc = Some d" for d
    using r same(2-4) I(5) [OF c] apart(1) unfolding that by (simp add: client_ok_def)
  have others: "client_ok received sent M x d (h', k') \<and> (\<forall>b \<in> storage d. B b = None)" if d: "cl x = Some d" "x \<noteq> fd" for x d
    using client_ok_framed [OF client_ok_mono [OF I(5) [OF d(1)] M] R(2) I(7) [OF d(1) c d(2)] R(1), of k'] R(4) [OF d(2)] I(6) [OF d(1)] by simp
  have sep: "storage d \<inter> storage d' = {}" if d: "?cl x = Some d" "?cl x' = Some d'" "x \<noteq> x'" for x d x' d'
  proof -
    consider "x = fd" "oc = Some d" "cl x' = Some d'" | "x' = fd" "oc = Some d'" "cl x = Some d" | "cl x = Some d" "cl x' = Some d'"
      using d by (cases "x = fd"; cases "x' = fd") auto
    then show ?thesis
    proof cases
      case 1
      then show ?thesis using apart(2) [OF 1(3)] d(3) by (auto simp: 1(2))
    next
      case 2
      then show ?thesis using apart(2) [OF 2(3)] d(3) by (auto simp: 2(2))
    next
      case 3
      then show ?thesis using I(7) d(3) by blast
    qed
  qed
  have t: "fds k' = F \<union> dom ?cl" "F \<inter> dom ?cl = {}"
    using fk I(3,4) domI [of cl, OF c] by (cases oc; auto)+
  have a: "\<forall>i n. answers h' i n \<noteq> Refuse" using R(2) I(2) by (simp add: frame_def)
  have each: "client_ok received sent M x d (h', k') \<and> (\<forall>b \<in> storage d. B b = None)" if "?cl x = Some d" for x d
    using self others that by (cases "x = fd") simp_all
  show ?thesis
    unfolding srv_ok_def fst_conv snd_conv
  proof (intro conjI)
    show "\<forall>x d. ?cl x = Some d \<longrightarrow> client_ok received sent M x d (h', k') \<and> (\<forall>b \<in> storage d. B b = None)" using each by blast
    show "\<forall>x d x' d'. ?cl x = Some d \<longrightarrow> ?cl x' = Some d' \<longrightarrow> x \<noteq> x' \<longrightarrow> storage d \<inter> storage d' = {}" using sep by blast
    show "\<forall>b. (\<forall>x d. ?cl x = Some d \<longrightarrow> b \<notin> storage d) \<longrightarrow> blocks h' b = B b" using srv_ok_blocks [OF ok c R(3)] by blast
  qed (rule R(1) a t)+
qed

text \<open>The kernel changes beside the clients; a new connection.\<close>

lemma srv_ok_kernel:
  assumes ok: "srv_ok fds received sent F B N cl (h, k)" and t: "fds k' = fds k"
    and s: "\<And>x. x \<in> fds k \<Longrightarrow> received k' x = received k x \<and> sent k' x = sent k x"
  shows "srv_ok fds received sent F B N cl (h, k')"
proof -
  have "client_ok received sent N fd c (h, k')" if "client_ok received sent N fd c (h, k)" "cl fd = Some c" for fd c
    using client_ok_framed [OF that(1) frame_refl [of "{}"], of k'] s [of fd] srv_okD(1,3) [OF ok] that(2) by auto
  then show ?thesis using ok t unfolding srv_ok_def fst_conv snd_conv by simp
qed

lemma srv_ok_new:
  assumes ok: "srv_ok fds received sent F B N cl (h, k)" and n: "fd \<notin> fds k" "fds k' = insert fd (fds k)"
    and s: "\<And>x. x \<in> fds k \<Longrightarrow> received k' x = received k x \<and> sent k' x = sent k x"
    and c: "client_ok received sent N fd c (h, k')" "storage c = {}"
  shows "srv_ok fds received sent F B N (cl(fd \<mapsto> c)) (h, k')"
proof -
  note I = srv_okD [OF ok]
  have x: "client_ok received sent N x d (h, k') \<and> (\<forall>b \<in> storage d. B b = None)" if "(cl(fd \<mapsto> c)) x = Some d" for x d
  proof (cases "x = fd")
    case True
    then show ?thesis using that c by simp
  next
    case False
    then have d: "cl x = Some d" using that by simp
    then have "received k' x = received k x \<and> sent k' x = sent k x" using s I(3) by blast
    then show ?thesis using client_ok_framed [OF I(5) [OF d] frame_refl [of "{}"], of k'] I(1) I(6) [OF d] by simp
  qed
  have "storage d \<inter> storage d' = {}" if "(cl(fd \<mapsto> c)) x = Some d" "(cl(fd \<mapsto> c)) x' = Some d'" "x \<noteq> x'" for x d x' d'
    using that c(2) I(7) by (cases "x = fd"; cases "x' = fd") auto
  moreover have "blocks h b = B b" if b: "\<forall>x d. (cl(fd \<mapsto> c)) x = Some d \<longrightarrow> b \<notin> storage d" for b
  proof (rule I(8), intro allI impI)
    fix x d assume d: "cl x = Some d"
    then have "x \<noteq> fd" using n(1) I(3) by blast
    then show "b \<notin> storage d" using b [rule_format, of x d] d by simp
  qed
  moreover have "fds k' = F \<union> dom (cl(fd \<mapsto> c))" "F \<inter> dom (cl(fd \<mapsto> c)) = {}" using n I(3,4) by auto
  ultimately show ?thesis unfolding srv_ok_def fst_conv snd_conv using I(1,2) x by blast
qed

section \<open>Accepting\<close>

text \<open>What stands beside the kernel does not matter to the accepting calls.\<close>

lemma accept_call_beside: "accept_call (net_beside sys) accept4 s (k, x) = (case accept_call sys accept4 s k of (r, f, k') \<Rightarrow> (r, f, k', x))"
  by (simp add: accept_call_def net_beside_def beside_def split: prod.splits)

lemma add_fl_beside: "add_fl (net_beside sys) fd f (k, x) = (case add_fl sys fd f k of (e, k') \<Rightarrow> (e, k', x))"
  by (simp add: add_fl_def net_beside_def beside_def split: prod.splits sum.splits)

lemma close_beside: "sc_close (net_beside sys) fd (k, x) = (sc_close sys fd k, x)"
  by (simp add: net_beside_def)

lemma acceptOne_beside: "acceptOne (net_beside sys) accept4 i t s (k, x) = (case acceptOne sys accept4 i t s k of (r, k') \<Rightarrow> (r, k', x))"
  by (auto simp: acceptOne_def accept_call_beside add_fl_beside close_beside split: prod.splits sum.splits option.splits)

text \<open>Accepting fails for a reason that \<^verbatim>\<open>handleOne\<close> reports to the callback.\<close>

definition accept_broken :: "'k netops \<Rightarrow> bool \<Rightarrow> 'i \<Rightarrow> 't \<Rightarrow> 'i inet_server \<Rightarrow> bool" where
  "accept_broken sys accept4 i t s \<longleftrightarrow> (\<exists>k e k'. (acceptOne sys accept4 i t s k :: (nat + ('i, 't) socket) \<times> 'k) = (Inl e, k') \<and> e \<noteq> 4 \<and> e \<noteq> 11)"

text \<open>The watcher of the listener does not matter either.\<close>

lemma accept_broken_io [simp]: "accept_broken sys accept4 i t (s\<lparr>sv_io := x\<rparr>) = accept_broken sys accept4 i t s"
proof -
  have "sv_fd (s\<lparr>sv_io := x\<rparr>) = sv_fd s" "sv_typeMask (s\<lparr>sv_io := x\<rparr>) = sv_typeMask s" "sv_flags (s\<lparr>sv_io := x\<rparr>) = sv_flags s" by simp_all
  then show ?thesis by (simp only: accept_broken_def acceptOne_def accept_call_def)
qed

lemma Client_new_law:
  "\<exists>c. Client_new ev cb s = Inr c \<and> so_fd (cl_socket c) = so_fd s \<and> so_state (cl_socket c) = so_state s \<and> so_handler (cl_socket c) = Some cb \<and>
     cl_writeBuffer c = \<lparr>bs_data = empty_mbuf, bs_readOffset = 0\<rparr> \<and> storage c = {}"
  by (simp add: Client_new_def Socket_on_def EV_READ_def TIMEOUT_def CONNECTED_def assertC_def Let_def)

context connections
begin

lemma accept_call_streams:
  assumes "accept_call sys accept4 s k = (r, flagged, k')"
  shows "case r of Inl e \<Rightarrow> received k' = received k \<and> sent k' = sent k
    | Inr fd \<Rightarrow> received k' = (received k)(fd := []) \<and> sent k' = (sent k)(fd := [])"
proof (cases accept4)
  case False
  then have "sc_accept sys (sv_fd s) k = (r, k')" using assms by (auto simp: accept_call_def split: prod.splits)
  then show ?thesis using accept_stream accept_none by (cases r) auto
next
  case True
  obtain r1 k1 where 1: "sc_accept4 sys (sv_fd s) (sv_typeMask s) k = (r1, k1)" by (rule prod.exhaust)
  show ?thesis
  proof (cases "r1 = Inl 38")
    case eq: True
    then have 2: "sc_accept sys (sv_fd s) k1 = (r, k')" using assms True 1 by (auto simp: accept_call_def split: prod.splits)
    have "received k1 = received k \<and> sent k1 = sent k" using accept4_none 1 eq by blast
    then show ?thesis using 2 accept_stream accept_none by (cases r) auto
  next
    case False
    then have "sc_accept4 sys (sv_fd s) (sv_typeMask s) k = (r, k')" using assms True 1 by (simp add: accept_call_def)
    then show ?thesis using accept4_stream accept4_none by (cases r) auto
  qed
qed

lemma add_fl_streams: "received (snd (add_fl sys fd f k)) = received k \<and> sent (snd (add_fl sys fd f k)) = sent k"
proof -
  obtain r k' where "sc_setfl sys fd (flags_of (sc_getfl sys fd k) OR f) k = (r, k')" by fastforce
  then show ?thesis using setfl_stream [of fd "flags_of (sc_getfl sys fd k) OR f" k] by (cases r) (simp_all add: add_fl_def)
qed

lemma acceptOne_streams:
  assumes "acceptOne sys accept4 i t s k = (r, k')"
  shows "(\<forall>x \<in> fds k. received k' x = received k x \<and> sent k' x = sent k x) \<and>
    (case r of Inl e \<Rightarrow> True | Inr c \<Rightarrow> received k' (so_fd c) = [] \<and> sent k' (so_fd c) = [])"
proof -
  obtain x flagged k1 where 1: "accept_call sys accept4 s k = (x, flagged, k1)" by (metis prod_cases3)
  note A = accept_call_streams [OF 1] accept_call_law [OF 1]
  show ?thesis
  proof (cases x)
    case (Inl e)
    then show ?thesis using assms 1 A by (auto simp: acceptOne_def)
  next
    case (Inr fd)
    obtain e k2 where 2: "add_fl sys fd (sv_flags s) k1 = (e, k2)" by (rule prod.exhaust)
    then have k2: "received k2 = received k1" "sent k2 = sent k1" using add_fl_streams [of fd "sv_flags s" k1] by simp_all
    show ?thesis
    proof (cases "\<not> flagged \<and> sv_flags s \<noteq> 0")
      case True
      then show ?thesis using assms 1 A Inr 2 k2 close_keeps
        by (cases e) (auto simp: acceptOne_def driver_create_def Socket_fd_def)
    next
      case False
      then show ?thesis using assms 1 A Inr by (auto simp: acceptOne_def driver_create_def Socket_fd_def)
    qed
  qed
qed

text \<open>One connection accepted for the server.\<close>

lemma handleOne_law:
  assumes ok: "srv_ok fds received sent F B N cl (h, k)"
    and r: "handleOne (net_beside sys) accept4 i t (accept_callback ev cb) s (k, Inr cl) = (again, s', k', r)"
  shows "s' = s \<and> (r = Inl NullDeref \<and> \<not> again \<and> accept_broken sys accept4 i t s \<or> (\<exists>cl'. r = Inr cl' \<and> srv_ok fds received sent F B N cl' (h, k')))"
proof -
  obtain x k1 where 1: "acceptOne sys accept4 i t s k = (x, k1)" by (rule prod.exhaust)
  note A = acceptOne_law [OF 1] acceptOne_streams [OF 1]
  show ?thesis
  proof (cases x)
    case (Inl e)
    have "srv_ok fds received sent F B N cl (h, k1)" using A Inl by (intro srv_ok_kernel [OF ok]) auto
    then show ?thesis using r 1 Inl by (auto simp: handleOne_def acceptOne_beside accept_callback_def Server_accept_def accept_broken_def split: if_splits)
  next
    case (Inr c)
    obtain d where d: "Client_new ev cb c = Inr d" "so_fd (cl_socket d) = so_fd c" "so_state (cl_socket d) = so_state c"
      "so_handler (cl_socket d) = Some cb" "cl_writeBuffer d = \<lparr>bs_data = empty_mbuf, bs_readOffset = 0\<rparr>" "storage d = {}"
      using Client_new_law [of ev cb c] by blast
    have "client_ok received sent N (so_fd c) d (h, k1)"
      using A Inr d srv_okD(1,2) [OF ok] by (simp add: client_ok_def echo_ok_def bs_ok_def bs_contents_def)
    then have "srv_ok fds received sent F B N (cl(so_fd c \<mapsto> d)) (h, k1)" using A Inr d(6) by (intro srv_ok_new [OF ok]) auto
    then show ?thesis using r 1 Inr d(1) by (auto simp: handleOne_def acceptOne_beside accept_callback_def Server_accept_def)
  qed
qed


lemma accept_loop_law:
  assumes "srv_ok fds received sent F B N cl (h, k)"
    and "accept_loop (net_beside sys) accept4 i t (accept_callback ev cb) n s (k, Inr cl) = (s', k', r)"
  shows "s' = s \<and> (r = Inl NullDeref \<and> accept_broken sys accept4 i t s \<or> (\<exists>cl'. r = Inr cl' \<and> srv_ok fds received sent F B N cl' (h, k')))"
  using assms
proof (induction n arbitrary: s k cl)
  case (Suc n)
  obtain again s1 k1 r1 where 1: "handleOne (net_beside sys) accept4 i t (accept_callback ev cb) s (k, Inr cl) = (again, s1, k1, r1)"
    by (metis prod_cases4)
  show ?case
  proof (cases again)
    case True
    then obtain cl1 where c: "s1 = s" "r1 = Inr cl1" "srv_ok fds received sent F B N cl1 (h, k1)"
      using handleOne_law [OF Suc.prems(1) 1] by blast
    show ?thesis by (rule Suc.IH [OF c(3)]) (use Suc.prems(2) 1 c(1,2) True in simp)
  next
    case False
    then show ?thesis using Suc.prems(2) handleOne_law [OF Suc.prems(1) 1] 1 by auto
  qed
qed auto

lemma server_accept_law:
  assumes "srv_ok fds received sent F B N cl (h, k)"
    and "server_accept (net_beside sys) multi accept4 i t (accept_callback ev cb) s (k, Inr cl) = (s', k', r)"
  shows "s' = s \<and> (r = Inl NullDeref \<and> accept_broken sys accept4 i t s \<or> (\<exists>cl'. r = Inr cl' \<and> srv_ok fds received sent F B N cl' (h, k')))"
proof (cases multi)
  case True
  then show ?thesis using accept_loop_law [OF assms(1)] assms(2) by (simp add: server_accept_def)
next
  case False
  obtain again where "handleOne (net_beside sys) accept4 i t (accept_callback ev cb) s (k, Inr cl) = (again, s', k', r)"
    using assms(2) False by (metis server_accept_def prod.collapse)
  then show ?thesis using handleOne_law [OF assms(1)] by blast
qed

text \<open>A handler closes the descriptor of its client when it deletes it, and no other.\<close>

lemma echo_delete_fds: "echo_delete sys c (h, k) = Inr (h', k') \<Longrightarrow> 0 \<le> so_fd (cl_socket c) \<Longrightarrow> fds k' = fds k - {so_fd (cl_socket c)}"
  by (auto simp: echo_delete_def Socket_close_def bnd_eq_Inr close_removes)

lemma echo_read_fds:
  assumes r: "echo_read io sys ev c (h, k) = Inr (oc, stop, h', k')" and fd: "0 \<le> so_fd (cl_socket c)"
  shows "case oc of None \<Rightarrow> fds k' = fds k - {so_fd (cl_socket c)} | Some d \<Rightarrow> so_fd (cl_socket d) = so_fd (cl_socket c) \<and> fds k' = fds k"
proof -
  obtain x k1 where 1: "sys_read io (so_fd (cl_socket c)) 1024 k = (x, k1)" by (rule prod.exhaust)
  have k1: "fds k1 = fds k" using read_fds [of "so_fd (cl_socket c)" 1024 k] 1 by simp
  consider "oc = None" "echo_delete sys c (h, k1) = Inr (h', k')" | d where "oc = Some d" "so_fd (cl_socket d) = so_fd (cl_socket c)" "k' = k1"
    using r 1 by (auto simp: echo_read_def bnd_eq_Inr Let_def split: sum.splits if_splits)
  then show ?thesis using echo_delete_fds [of c h k1 h' k'] fd k1 by cases auto
qed

lemma echo_write_fds:
  assumes r: "echo_write io sys ev c (h, k) = Inr (oc, h', k')" and fd: "0 \<le> so_fd (cl_socket c)"
  shows "case oc of None \<Rightarrow> fds k' = fds k - {so_fd (cl_socket c)} | Some d \<Rightarrow> fds k' = fds k"
proof -
  let ?p = "Heap (ptr_add (b_data (bs_data (cl_writeBuffer c))) (bs_readOffset (cl_writeBuffer c)))"
  obtain n h1 k1 where 1: "Socket_write io ?p (bs_size (cl_writeBuffer c)) (cl_socket c) (h, k) = Inr (n, h1, k1)"
    using r by (auto simp: echo_write_def bnd_eq_Inr Let_def)
  have k1: "fds k1 = fds k" using 1 by (auto simp: Socket_write_def write_from_def bnd_eq_Inr case_prod_beta write_fds)
  consider d :: "('i, 't) client" where "oc = None" "echo_delete sys d (h1, k1) = Inr (h', k')" "so_fd (cl_socket d) = so_fd (cl_socket c)" | d where "oc = Some d" "k' = k1"
    using r 1 by (auto simp: echo_write_def bnd_eq_Inr Let_def split: if_splits)
  then show ?thesis
  proof cases
    case (1 d)
    then show ?thesis using echo_delete_fds [OF 1(2)] fd k1 by simp
  qed (use k1 in simp)
qed

lemma echo_handler_fds:
  assumes r: "echo_handler io sys ev re c (h, k) = Inr (oc, stop, h', k')" and fd: "0 \<le> so_fd (cl_socket c)"
  shows "fds k' = (case oc of None \<Rightarrow> fds k - {so_fd (cl_socket c)} | Some _ \<Rightarrow> fds k)"
proof (cases "re AND TIMEOUT = 0")
  case False
  then show ?thesis using r fd echo_delete_fds [of c h k h' k'] by (auto simp: echo_handler_def bnd_eq_Inr)
next
  case True
  obtain oc1 stop1 h1 k1 where 1: "(if re AND EV_READ \<noteq> 0 then echo_read io sys ev c (h, k) else Inr (Some c, False, h, k)) = Inr (oc1, stop1, h1, k1)"
    "(case oc1 of None \<Rightarrow> Inr (None, stop1, h1, k1)
      | Some c1 \<Rightarrow> if re AND EV_WRITE \<noteq> 0 then bnd (echo_write io sys ev c1 (h1, k1)) (\<lambda>(oc2, w2). Inr (oc2, stop1, w2)) else Inr (Some c1, stop1, h1, k1)) =
     Inr (oc, stop, h', k')"
    using r True by (auto simp: echo_handler_def bnd_eq_Inr)
  have 2: "case oc1 of None \<Rightarrow> fds k1 = fds k - {so_fd (cl_socket c)} | Some d \<Rightarrow> so_fd (cl_socket d) = so_fd (cl_socket c) \<and> fds k1 = fds k"
    using 1(1) echo_read_fds fd by (auto split: if_splits)
  show ?thesis
  proof (cases oc1)
    case None
    then show ?thesis using 1(2) 2 by simp
  next
    case (Some d)
    then show ?thesis using 1(2) 2 echo_write_fds [of d h1 k1 oc h' k'] fd by (auto simp: bnd_eq_Inr split: if_splits option.splits)
  qed
qed


text \<open>
  One event: the listener changes at most its watcher, the invariant holds for buffers that are larger by one chunk, and
  there are two possible faults.
\<close>

definition srv_post :: "('i, 't) echo_server \<Rightarrow> int set \<Rightarrow> (nat \<Rightarrow> char list option) \<Rightarrow> nat \<Rightarrow> bool \<Rightarrow> 'i \<Rightarrow> 't \<Rightarrow> (('i, 't) echo_server \<times> heap \<times> 'k) res \<Rightarrow> bool" where
  "srv_post es F B N accept4 i t r \<longleftrightarrow>
     (case r of
        Inl e \<Rightarrow> e = OutOfBounds \<and> (\<exists>fd. fills io fd) \<or> e = NullDeref \<and> accept_broken sys accept4 i t (ec_listener es)
      | Inr (es', w') \<Rightarrow> (\<exists>x. ec_listener es' = (ec_listener es)\<lparr>sv_io := x\<rparr>) \<and> srv_ok fds received sent F B N (ec_clients es') w')"

lemma listener_io: "\<exists>x. s = s\<lparr>sv_io := x\<rparr>" "\<exists>x. server_stop ev s = s\<lparr>sv_io := x\<rparr>" for s :: "'i inet_server"
  by (rule exI [of _ "sv_io s"], simp) (auto simp: server_stop_def intro: exI [of _ "sv_io s"])

lemma srv_handler_law:
  assumes ok: "srv_ok fds received sent F B N (ec_clients es) (h, k)" and room: "N + 1024 < 9223372036854775808"
    and c: "ec_clients es fd = Some c" and s: "so_fd s = so_fd (cl_socket c)" "so_state s = so_state (cl_socket c)" "so_handler s = so_handler (cl_socket c)"
  shows "srv_post es F B (N + 1024) accept4 i t (srv_handler io sys ev re fd (c\<lparr>cl_socket := s\<rparr>) es (h, k))"
proof -
  let ?c = "c\<lparr>cl_socket := s\<rparr>"
  have k: "client_ok received sent N fd c (h, k)" by (rule srv_okD(5) [OF ok c])
  then have e: "echo_ok received sent N ?c (h, k)" and fd: "so_fd s = fd" "0 \<le> fd" "so_state s = Operational" "so_handler s \<noteq> None"
    using s by (auto simp: client_ok_def echo_ok_def)
  from echo_handler_law [OF e room, of ev re] show ?thesis
  proof (elim disjE exE conjE)
    fix oc stop h' k' assume r: "echo_handler io sys ev re ?c (h, k) = Inr (oc, stop, h', k')"
      "echo_result received sent (N + 1024) ?c (h, k) oc (h', k')"
    have "fds k' = (case oc of None \<Rightarrow> fds k - {fd} | Some _ \<Rightarrow> fds k)" using echo_handler_fds [OF r(1)] fd by (simp split: option.splits)
    then have "srv_ok fds received sent F B (N + 1024) ((ec_clients es)(fd := oc)) (h', k')"
      using fd by (intro srv_ok_handler [OF ok c _ _ _ _ r(2)]) simp_all
    then show ?thesis using r(1) listener_io by (simp add: srv_post_def srv_handler_def Server_stop_def Let_def)
  qed (auto simp: srv_post_def srv_handler_def)
qed


lemma Socket_io_law:
  assumes "so_state s = Operational" "so_handler s \<noteq> None"
  shows "\<exists>f s1. Socket_io sys ev re s k = Inr (Some (f, re), s1, k) \<and> so_fd s1 = so_fd s \<and> so_state s1 = so_state s \<and> so_handler s1 = so_handler s"
  using assms by (auto simp: Socket_io_def Let_def call_handler_def)

lemma Socket_timeout_law:
  assumes "so_handler s \<noteq> None"
  shows "\<exists>f s1. Socket_timeout ev s = Inr (Some (f, TIMEOUT), s1) \<and> so_fd s1 = so_fd s \<and> so_state s1 = so_state s \<and> so_handler s1 = so_handler s"
  using assms by (auto simp: Socket_timeout_def Let_def call_handler_def)

lemma srv_step_law:
  assumes ok: "srv_ok fds received sent F B N (ec_clients es) (h, k)" and room: "N + 1024 < 9223372036854775808"
  shows "srv_post es F B (N + 1024) accept4 i t (srv_step io sys ev multi accept4 i t cb e (es, h, k))"
proof -
  have idle: "srv_post es F B (N + 1024) accept4 i t (Inr (es, h, k))"
    using srv_ok_mono [OF ok, of "N + 1024"] listener_io(1) by (simp add: srv_post_def)
  have cl: "client_ok received sent N fd c (h, k)" if "ec_clients es fd = Some c" for fd c by (rule srv_okD(5) [OF ok that])
  show ?thesis
  proof (cases e)
    case EvAccept
    obtain s' k' r where "server_accept (net_beside sys) multi accept4 i t (accept_callback ev cb) (ec_listener es) (k, Inr (ec_clients es)) = (s', k', r)"
      by (metis prod_cases3)
    from this server_accept_law [OF ok this]
    show ?thesis using EvAccept idle listener_io(1) srv_ok_mono [of fds received sent F B N _ _ "N + 1024"] by (auto simp: srv_accept_def srv_post_def)
  next
    case EvSignal
    then show ?thesis using idle listener_io by (simp add: srv_post_def Server_stop_def)
  next
    case (EvIo fd re)
    show ?thesis
    proof (cases "ec_clients es fd")
      case (Some c)
      then obtain f s1 where "Socket_io sys ev re (cl_socket c) k = Inr (Some (f, re), s1, k)" "so_fd s1 = so_fd (cl_socket c)"
          "so_state s1 = so_state (cl_socket c)" "so_handler s1 = so_handler (cl_socket c)"
        using cl [OF Some] Socket_io_law [of "cl_socket c" re k] by (auto simp: client_ok_def)
      then show ?thesis using EvIo Some idle srv_handler_law [OF ok room Some, of s1 accept4 i t re] by simp
    qed (use EvIo idle in simp)
  next
    case (EvTimer fd)
    show ?thesis
    proof (cases "ec_clients es fd")
      case (Some c)
      then obtain f s1 where "Socket_timeout ev (cl_socket c) = Inr (Some (f, TIMEOUT), s1)" "so_fd s1 = so_fd (cl_socket c)"
          "so_state s1 = so_state (cl_socket c)" "so_handler s1 = so_handler (cl_socket c)"
        using cl [OF Some] Socket_timeout_law [of "cl_socket c"] by (auto simp: client_ok_def)
      then show ?thesis using EvTimer Some idle srv_handler_law [OF ok room Some, of s1 accept4 i t TIMEOUT] by simp
    qed (use EvTimer idle in simp)
  qed
qed

lemma srv_run_law:
  assumes "srv_ok fds received sent F B N (ec_clients es) (h, k)" "N + 1024 * length evs < 9223372036854775808"
  shows "srv_post es F B (N + 1024 * length evs) accept4 i t (srv_run io sys ev multi accept4 i t cb evs (es, h, k))"
  using assms
proof (induction evs arbitrary: N es h k)
  case Nil
  then show ?case using listener_io(1) by (simp add: srv_post_def)
next
  case (Cons e evs)
  have "N + 1024 < 9223372036854775808" using Cons.prems(2) by simp
  note P = srv_step_law [OF Cons.prems(1) this, of accept4 i t multi cb e]
  show ?case
  proof (cases "srv_step io sys ev multi accept4 i t cb e (es, h, k)")
    case (Inl f)
    then show ?thesis using P by (simp add: srv_post_def)
  next
    case (Inr y)
    obtain es1 h1 k1 where y: "y = (es1, h1, k1)" by (metis prod_cases3)
    obtain x where x: "ec_listener es1 = (ec_listener es)\<lparr>sv_io := x\<rparr>" and o: "srv_ok fds received sent F B (N + 1024) (ec_clients es1) (h1, k1)"
      using P Inr y by (auto simp: srv_post_def)
    have "srv_post es1 F B (N + 1024 + 1024 * length evs) accept4 i t (srv_run io sys ev multi accept4 i t cb evs (es1, h1, k1))"
      using Cons.prems(2) by (intro Cons.IH [OF o]) simp
    then show ?thesis using Inr y x by (auto simp: srv_post_def algebra_simps split: sum.splits)
  qed
qed

end

section \<open>A reference kernel\<close>

text \<open>The process of \<open>demo_net\<close> with the lines of \<open>Echo_Server\<close>; a line that is accepted starts anew.\<close>

definition new_line :: "(nat + int) \<times> dstate \<times> line \<Rightarrow> (nat + int) \<times> dstate \<times> line" where
  "new_line x = (case x of (Inr fd, k, l) \<Rightarrow> (Inr fd, k, l\<lparr>ln_got := (ln_got l)(fd := []), ln_put := (ln_put l)(fd := [])\<rparr>) | _ \<Rightarrow> x)"

definition lined_net :: "(dstate \<times> line) netops" where
  "lined_net = (net_beside demo_net)\<lparr>
     sc_accept4 := (\<lambda>fd f k. new_line (sc_accept4 (net_beside demo_net) fd f k)),
     sc_accept := (\<lambda>fd k. new_line (sc_accept (net_beside demo_net) fd k))\<rparr>"

lemma new_line_eq:
  "new_line x = (Inl e, k') \<longleftrightarrow> x = (Inl e, k')"
  "new_line x = (Inr fd, k') \<longleftrightarrow>
     (\<exists>l. x = (Inr fd, fst k', l) \<and> snd k' = l\<lparr>ln_got := (ln_got l)(fd := []), ln_put := (ln_put l)(fd := [])\<rparr>)"
  by (cases k'; auto simp: new_line_def split: prod.splits sum.splits)+

lemma lined_fds: "fd_table lined_net (\<lambda>x. d_open (fst x))"
  using fds_beside [OF demo_fds.fd_table_axioms] unfolding fd_table_def lined_net_def by (simp add: new_line_eq)

lemma lined_streams: "stream_socket line_io lined_net (\<lambda>k. ln_got (snd k)) (\<lambda>k. ln_put (snd k))"
  using lines.stream_socket_axioms unfolding stream_socket_def lined_net_def by simp

interpretation lined: connections lined_net "\<lambda>x. d_open (fst x)" demo_ev line_io "\<lambda>k. ln_got (snd k)" "\<lambda>k. ln_put (snd k)"
proof (intro connections.intro net_env.intro lined_fds kept_ev.ev_watchers_axioms lined_streams connections_axioms.intro)
qed (auto simp: lined_net_def new_line_eq net_beside_def beside_eq line_io_def Let_def split: prod.splits)

section \<open>Properties\<close>

text \<open>
  C8. The whole echo server, from \<^verbatim>\<open>setup\<close> on and for any events in any order: \<^verbatim>\<open>setup\<close> fails without a descriptor left
  open, or the listener is watched. Then, after any sequence of connections, reads, writes, time-outs and signals, every
  client has received what it sent back followed by what its buffer holds: no byte of one connection gets into another. No two
  clients share memory, and the open descriptors and the memory in use are those of the start and of the clients: a client that is gone
  leaves nothing behind. There are two faults: a read that fills the array, and a failing \<^verbatim>\<open>accept\<close>.
\<close>

theorem echo_server_isolated:
  assumes env: "connections sys fds ev io received sent" and new: "\<not> io_active ev iw"
    and ready: "inet_ready ntop (ip_text pton garbage ''0.0.0.0'' 0) 3000 sys k"
    and h: "heap_ok h" "\<forall>i n. answers h i n \<noteq> Refuse" and n: "1024 * length evs < 9223372036854775808"
  shows "\<exists>os k1. Server_setup sys ev pton ntop garbage msg iw drv k = Inr (os, k1) \<and>
    (case os of
       None \<Rightarrow> fds k1 \<subseteq> fds k
     | Some s \<Rightarrow> isActive ev s \<and> fds k \<subseteq> fds k1 \<and> fds k1 \<subseteq> insert (sv_fd s) (fds k) \<and>
        (case srv_run io sys ev multi accept4 i t cb evs (\<lparr>ec_listener = s, ec_clients = Map.empty\<rparr>, h, k1) of
           Inl e \<Rightarrow> e = OutOfBounds \<and> (\<exists>fd. fills io fd) \<or> e = NullDeref \<and> accept_broken sys accept4 i t s
         | Inr (es, h', k') \<Rightarrow> fds k' = fds k1 \<union> dom (ec_clients es) \<and> fds k1 \<inter> dom (ec_clients es) = {} \<and>
             (\<forall>fd c. ec_clients es fd = Some c \<longrightarrow>
                bs_ok h' (cl_writeBuffer c) \<and> received k' fd = sent k' fd @ bs_contents h' (cl_writeBuffer c)) \<and>
             (\<forall>fd c fd' c'. ec_clients es fd = Some c \<longrightarrow> ec_clients es fd' = Some c' \<longrightarrow> fd \<noteq> fd' \<longrightarrow> storage c \<inter> storage c' = {}) \<and>
             (\<forall>b. (\<forall>fd c. ec_clients es fd = Some c \<longrightarrow> b \<notin> storage c) \<longrightarrow> blocks h' b = blocks h b)))"
proof -
  have ne: "net_env sys fds ev" using env by (simp add: connections_def)
  have idle: "\<not> isActive ev (InetServer_new iw drv)" using new by (simp add: isActive_def InetServer_new_def server_fields_def server.defs)
  let ?open = "inet_open sys ev ntop msg (ip_text pton garbage ''0.0.0.0'' 0) 3000 (O_NONBLOCK OR O_CLOEXEC) (InetServer_new iw drv) k"
  from inet.opens [OF ne idle ready, of msg "O_NONBLOCK OR O_CLOEXEC"] obtain ok s k1 where o: "?open = Inr (ok, s, k1)"
    "if ok then 0 \<le> sv_fd s \<and> isActive ev s \<and> fds k \<subseteq> fds k1 \<and> fds k1 \<subseteq> insert (sv_fd s) (fds k)
     else sv_fd s < 0 \<and> \<not> isActive ev s \<and> fds k1 \<subseteq> fds k" by (auto simp: open_post_def split: if_splits)
  show ?thesis
  proof (cases ok)
    case False
    then have "Server_setup sys ev pton ntop garbage msg iw drv k = Inr (None, k1)"
      using o by (simp add: Server_setup_def server_destroy_def isOpen_def setSocketDriver_def Let_def split: prod.splits)
    then show ?thesis using o(2) False by simp
  next
    case True
    let ?es = "\<lparr>ec_listener = s, ec_clients = Map.empty\<rparr>"
    have "srv_ok fds received sent (fds k1) (blocks h) 0 (ec_clients ?es) (h, k1)" using h by (simp add: srv_ok_def)
    from connections.srv_run_law [OF env this, of evs accept4 i t multi cb] n
    have R: "connections.srv_post sys fds io received sent ?es (fds k1) (blocks h) (0 + 1024 * length evs) accept4 i t
        (srv_run io sys ev multi accept4 i t cb evs (?es, h, k1))" by simp
    note R = R [unfolded connections.srv_post_def [OF env]]
    show ?thesis
    proof (cases "srv_run io sys ev multi accept4 i t cb evs (?es, h, k1)")
      case (Inl e)
      then show ?thesis using R o True by (simp add: Server_setup_def)
    next
      case (Inr x)
      obtain es h' k' where x: "x = (es, h', k')" by (metis prod_cases3)
      then have "srv_ok fds received sent (fds k1) (blocks h) (0 + 1024 * length evs) (ec_clients es) (h', k')" using R Inr by simp
      then show ?thesis using srv_ok_promise o True Inr x by (simp add: Server_setup_def)
    qed
  qed
qed

definition any_pton :: pton where
  "any_pton family t = (1, replicate 4 NUL)"

definition any_ntop :: ntop where
  "any_ntop family bytes = Some ''0.0.0.0''"

lemma hello_ready: "inet_ready any_ntop (ip_text any_pton (replicate 16 NUL) ''0.0.0.0'' 0) 3000 lined_net hello"
proof (rule inet_readyI)
  show "sd_listen_fds lined_net False hello = Inr (0, hello)"
    by (simp add: sd_listen_fds_def sd_listen_body_def lined_net_def net_beside_def demo_net_def hello_def blank_process_def)
  show "getSocketInet lined_net ''0.0.0.0'' 3000 hello = Inr (- 1)"
    by (simp add: getSocketInet_def lined_net_def net_beside_def demo_net_def hello_def blank_process_def)
qed (simp_all add: ip_text_def ip_set_def any_pton_def ip_str_def any_ntop_def)

theorem echo_server_isolated_witness:
  "\<exists>os k1. Server_setup lined_net demo_ev any_pton any_ntop (replicate 16 NUL) [] idle 0 hello = Inr (os, k1) \<and>
    (case os of
       None \<Rightarrow> d_open (fst k1) \<subseteq> d_open (fst hello)
     | Some s \<Rightarrow> isActive demo_ev s \<and> d_open (fst hello) \<subseteq> d_open (fst k1) \<and> d_open (fst k1) \<subseteq> insert (sv_fd s) (d_open (fst hello)) \<and>
        (case srv_run line_io lined_net demo_ev True True idle idle 0 [EvAccept, EvAccept, EvIo 4 1, EvIo 5 3, EvTimer 4, EvSignal]
            (\<lparr>ec_listener = s, ec_clients = Map.empty\<rparr>, one_block [], k1) of
           Inl e \<Rightarrow> e = OutOfBounds \<and> (\<exists>fd. fills line_io fd) \<or> e = NullDeref \<and> accept_broken lined_net True idle idle s
         | Inr (es, h', k') \<Rightarrow> d_open (fst k') = d_open (fst k1) \<union> dom (ec_clients es) \<and> d_open (fst k1) \<inter> dom (ec_clients es) = {} \<and>
             (\<forall>fd c. ec_clients es fd = Some c \<longrightarrow>
                bs_ok h' (cl_writeBuffer c) \<and> ln_got (snd k') fd = ln_put (snd k') fd @ bs_contents h' (cl_writeBuffer c)) \<and>
             (\<forall>fd c fd' c'. ec_clients es fd = Some c \<longrightarrow> ec_clients es fd' = Some c' \<longrightarrow> fd \<noteq> fd' \<longrightarrow> storage c \<inter> storage c' = {}) \<and>
             (\<forall>b. (\<forall>fd c. ec_clients es fd = Some c \<longrightarrow> b \<notin> storage c) \<longrightarrow> blocks h' b = blocks (one_block []) b)))"
proof -
  have h: "heap_ok (one_block [])" "\<forall>i n. answers (one_block []) i n \<noteq> Refuse" by (simp_all add: one_block_def heap_ok_def)
  have n: "1024 * length [EvAccept, EvAccept, EvIo 4 1, EvIo 5 3, EvTimer 4, EvSignal] < 9223372036854775808" by simp
  have i: "\<not> io_active demo_ev idle" by (simp add: demo_ev_def idle_def)
  show ?thesis by (rule echo_server_isolated [OF lined.connections_axioms i hello_ready h n])
qed

text \<open>
  C39. An \<^verbatim>\<open>accept\<close> that fails for want of descriptors, or otherwise than by a signal or for want of a connection, ends the
  echo server with an access through a null pointer: \<^verbatim>\<open>handleOne\<close> tells the callback of the failure by a null socket, and the callback
  makes a client of it.
\<close>

theorem echo_accept_crashes:
  assumes "isActive ev (ec_listener es)" "acceptOne sys accept4 i t (ec_listener es) k = (Inl e, k')" "e \<noteq> 4" "e \<noteq> 11"
  shows "srv_step io sys ev False accept4 i t cb EvAccept (es, h, k) = Inl NullDeref"
  using assms
  by (simp add: srv_accept_def server_accept_def handleOne_def acceptOne_beside accept_callback_def Server_accept_def)

definition crowded :: dstate where
  "crowded = listening\<lparr>d_next := 1024\<rparr>"

lemma crowded_full: "sv_fd s = 3 \<Longrightarrow> acceptOne demo_net True i t s crowded = (Inl 24, crowded)"
  by (simp add: acceptOne_def accept_call_def demo_net_def d_at_def d_new_def crowded_def listening_def new_socket_def)

theorem echo_accept_crashes_witness:
  "srv_step line_io (net_beside demo_net) demo_ev False True idle idle 0 EvAccept
     (\<lparr>ec_listener = (InetServer_new (idle\<lparr>w_active := True\<rparr>) 0)\<lparr>sv_fd := 3\<rparr>, ec_clients = Map.empty\<rparr>, one_block [], crowded, snd hello) = Inl NullDeref"
proof (rule echo_accept_crashes)
  let ?l = "(InetServer_new (idle\<lparr>w_active := True\<rparr>) 0)\<lparr>sv_fd := 3\<rparr>"
  show "acceptOne (net_beside demo_net) True idle idle (ec_listener \<lparr>ec_listener = ?l, ec_clients = Map.empty\<rparr>) (crowded, snd hello) =
    (Inl 24, crowded, snd hello)"
    by (simp add: acceptOne_beside crowded_full)
qed (simp_all add: isActive_def InetServer_new_def server_fields_def server.defs demo_ev_def idle_def)

end
