(* ===== verification/Splice_Proxy.thy ===== *)
theory Splice_Proxy
  imports Echo_Server
begin

text \<open>
  The example \<^verbatim>\<open>examples/network-splicing.cpp\<close>: the two loops that move what a client sends through a \<^verbatim>\<open>Pipe\<close>, to another
  server and to the terminal. The locale \<open>spliced\<close> adds to \<open>posix_pipes\<close> what a peer sends over a connection.
\<close>

section \<open>Definitions\<close>

text \<open>
  \<^verbatim>\<open>for (;;) { if (read > 0) write; else break; }\<close>: \<open>fill\<close> moves bytes into the pipe, \<open>drain\<close> out of it. A connection that
  never ends is a loop that does not return.
\<close>

partial_function (option) pump :: "(pipe \<Rightarrow> 'k \<Rightarrow> int \<times> pipe \<times> 'k) \<Rightarrow> (pipe \<Rightarrow> 'k \<Rightarrow> int \<times> pipe \<times> 'k) \<Rightarrow> pipe \<Rightarrow> 'k \<Rightarrow>
    (pipe \<times> 'k) option" where
  "pump fill drain p k =
     (case fill p k of (rv, p1, k1) \<Rightarrow>
        if 0 < rv then (case drain p1 k1 of (_, p2, k2) \<Rightarrow> pump fill drain p2 k2) else Some (p1, k1))"

definition proxy_loop :: "'k sysops \<Rightarrow> ('i, 't) socket \<Rightarrow> ('i, 't) socket \<Rightarrow> pipe \<Rightarrow> 'k \<Rightarrow> (pipe \<times> 'k) option" where
  "proxy_loop io client backend =
     pump (\<lambda>p. Socket_read_pipe io p 1024 client) (\<lambda>p. Socket_write_pipe io p (p_size p) backend)"

definition terminal_loop :: "'k sysops \<Rightarrow> ('i, 't) socket \<Rightarrow> pipe \<Rightarrow> 'k \<Rightarrow> (pipe \<times> 'k) option" where
  "terminal_loop io cs =
     pump (\<lambda>p. Socket_read_pipe io p 1024 cs) (\<lambda>p. Pipe_read_fd io 1 (p_size p) p)"

section \<open>Connections\<close>

text \<open>\<open>pending k fd\<close>: the bytes that the peer of \<open>fd\<close> sent or will send, and that were not read yet.\<close>

locale spliced = posix_pipes sys pipe_at queue sent
  for sys :: "'k sysops" and pipe_at :: "'k \<Rightarrow> int \<Rightarrow> int \<Rightarrow> bool" and queue sent :: "'k \<Rightarrow> int \<Rightarrow> char list" +
  fixes pending :: "'k \<Rightarrow> int \<Rightarrow> char list"
  assumes splice_pending:
      "pipe_at k r w \<Longrightarrow> (\<forall>w'. \<not> pipe_at k fd w') \<Longrightarrow> sys_splice sys fd w n k = (Inr m, k') \<Longrightarrow>
       \<exists>bs. length bs = m \<and> pending k fd = bs @ pending k' fd \<and> queue k' = (queue k)(r := queue k r @ bs) \<and> sent k' = sent k"
    and splice_keeps: "pipe_at k r w \<Longrightarrow> sys_splice sys r fd n k = (x, k') \<Longrightarrow> pending k' = pending k"
    and splice_fails_pending: "sys_splice sys fd fd' n k = (Inl e, k') \<Longrightarrow> pending k' = pending k"

text \<open>The count of the pipe is at least what the pipe holds.\<close>

definition pumped :: "('k \<Rightarrow> int \<Rightarrow> int \<Rightarrow> bool) \<Rightarrow> ('k \<Rightarrow> int \<Rightarrow> char list) \<Rightarrow> int \<Rightarrow> int \<Rightarrow> int \<Rightarrow> pipe \<Rightarrow> 'k \<Rightarrow> bool" where
  "pumped pipe_at queue c r w p k \<longleftrightarrow> pipe_at k r w \<and> p_rd p = r \<and> p_wr p = w \<and> length (queue k r) \<le> p_size p \<and>
     p_size p < SIZE_MOD \<and> (\<forall>v. \<not> pipe_at k c v)"

text \<open>What one operation that empties the pipe into \<open>fd\<close> does.\<close>

definition drains :: "('k \<Rightarrow> int \<Rightarrow> int \<Rightarrow> bool) \<Rightarrow> ('k \<Rightarrow> int \<Rightarrow> char list) \<Rightarrow> ('k \<Rightarrow> int \<Rightarrow> char list) \<Rightarrow> ('k \<Rightarrow> int \<Rightarrow> char list) \<Rightarrow>
    int \<Rightarrow> int \<Rightarrow> int \<Rightarrow> int \<Rightarrow> bool \<Rightarrow> (pipe \<Rightarrow> 'k \<Rightarrow> int \<times> pipe \<times> 'k) \<Rightarrow> bool" where
  "drains pipe_at queue sent pending c fd r w eager drain \<longleftrightarrow> (\<forall>p k rv p' k'. pumped pipe_at queue c r w p k \<longrightarrow> drain p k = (rv, p', k') \<longrightarrow>
     pumped pipe_at queue c r w p' k' \<and> p_size p' \<le> p_size p \<and> pending k' = pending k \<and>
     (\<exists>out. queue k r = out @ queue k' r \<and> sent k' fd = sent k fd @ out) \<and> (eager \<longrightarrow> queue k' r = []))"

text \<open>The destination takes all it is offered.\<close>

definition takes_all :: "'k sysops \<Rightarrow> ('k \<Rightarrow> int \<Rightarrow> char list) \<Rightarrow> int \<Rightarrow> int \<Rightarrow> bool" where
  "takes_all sys queue r fd \<longleftrightarrow> (\<forall>n k. 0 < n \<and> queue k r \<noteq> [] \<longrightarrow> fst (sys_splice sys r fd n k) = Inr (min n (length (queue k r))))"

text \<open>Where the pipe is empty, what the peer has sent can be moved into it.\<close>

definition delivers :: "'k sysops \<Rightarrow> ('k \<Rightarrow> int \<Rightarrow> int \<Rightarrow> bool) \<Rightarrow> ('k \<Rightarrow> int \<Rightarrow> char list) \<Rightarrow> ('k \<Rightarrow> int \<Rightarrow> char list) \<Rightarrow> int \<Rightarrow> int \<Rightarrow> int \<Rightarrow> bool" where
  "delivers sys pipe_at queue pending c r w \<longleftrightarrow>
     (\<forall>n k. 0 < n \<and> pipe_at k r w \<and> queue k r = [] \<and> pending k c \<noteq> [] \<longrightarrow> 0 < rv_of (fst (sys_splice sys c w n k)))"

context spliced
begin

lemma drain_law:
  assumes fd: "fd \<noteq> w" and d: "\<And>p k x k'. p_rd p = r \<Longrightarrow> sys_splice sys r fd (p_size p) k = (x, k') \<Longrightarrow> \<exists>rv. drain p k = (rv, upd x p, k')"
    and u: "\<And>x p. p_rd (upd x p) = p_rd p" "\<And>x p. p_wr (upd x p) = p_wr p" "\<And>e p. p_size (upd (Inl e) p) = p_size p"
      "\<And>m p. m \<le> p_size p \<Longrightarrow> p_size p < SIZE_MOD \<Longrightarrow> p_size p - m \<le> p_size (upd (Inr m) p) \<and> p_size (upd (Inr m) p) \<le> p_size p"
  shows "drains pipe_at queue sent pending c fd r w (takes_all sys queue r fd) drain"
  unfolding drains_def
proof (intro allI impI)
  fix p k rv p' k' assume p: "pumped pipe_at queue c r w p k" and "drain p k = (rv, p', k')"
  then have at: "pipe_at k r w" "p_rd p = r" "p_wr p = w" "length (queue k r) \<le> p_size p" "\<forall>v. \<not> pipe_at k c v"
    "p_size p < SIZE_MOD"
    by (simp_all add: pumped_def)
  obtain x k1 where x: "sys_splice sys r fd (p_size p) k = (x, k1)" by (rule prod.exhaust)
  with d [OF at(2) x] \<open>drain p k = _\<close> have r: "p' = upd x p" "k' = k1" by auto
  show "pumped pipe_at queue c r w p' k' \<and> p_size p' \<le> p_size p \<and> pending k' = pending k \<and>
     (\<exists>out. queue k r = out @ queue k' r \<and> sent k' fd = sent k fd @ out) \<and> (takes_all sys queue r fd \<longrightarrow> queue k' r = [])"
  proof (cases x)
    case (Inl e)
    then have k1: "pipe_at k1 = pipe_at k" "sent k1 = sent k" "queue k1 = queue k" using splice_fails x by auto
    have "queue k r = []" if t: "takes_all sys queue r fd"
    proof (rule ccontr)
      assume q: "queue k r \<noteq> []"
      then have "0 < p_size p" using at(4) by (cases "queue k r") auto
      then show False using t x Inl q unfolding takes_all_def by (metis fst_conv sum.distinct(1))
    qed
    then show ?thesis using k1 splice_keeps [OF at(1) x] r u(1-3) at Inl by (auto simp: pumped_def)
  next
    case (Inr m)
    note S = splice_out [OF at(1) fd x [unfolded Inr]]
    have m: "m \<le> p_size p" using S by simp
    have "queue k' r = []" if "takes_all sys queue r fd"
    proof -
      have "m = length (queue k r)" if q: "queue k r \<noteq> []"
      proof -
        have "0 < p_size p" using at(4) q by (cases "queue k r") auto
        then have "fst (sys_splice sys r fd (p_size p) k) = Inr (min (p_size p) (length (queue k r)))"
          using \<open>takes_all sys queue r fd\<close> q by (simp add: takes_all_def)
        then show ?thesis using x Inr at(4) by simp
      qed
      then show ?thesis using S r(2) by (cases "queue k r = []") auto
    qed
    moreover have "length (queue k' r) \<le> p_size p'"
    proof -
      have "length (queue k' r) = length (queue k r) - m" using S r(2) by simp
      then show ?thesis using u(4) [OF m at(6)] at(4) r(1) Inr by simp linarith
    qed
    ultimately show ?thesis using S u(1,2) u(4) [OF m at(6)] splice_keeps [OF at(1) x] at r Inr
      by (auto simp: pumped_def intro!: exI [of _ "take m (queue k r)"])
  qed
qed

lemma pump_law:
  assumes dr: "drains pipe_at queue sent pending c fd r w eager drain"
    and "pumped pipe_at queue c r w p k" "p_size p + length (pending k c) < SIZE_MOD" "eager \<longrightarrow> queue k r = []"
  shows "\<exists>p' k' out. pump (\<lambda>p. Pipe_write_socket sys c 1024 MOVE p) drain p k = Some (p', k') \<and>
    sent k' fd = sent k fd @ out \<and> queue k r @ pending k c = out @ queue k' r @ pending k' c \<and> (eager \<longrightarrow> queue k' r = []) \<and>
    (eager \<and> delivers sys pipe_at queue pending c r w \<longrightarrow> pending k' c = [])"
  using assms(2-4)
proof (induction "length (pending k c)" arbitrary: p k rule: less_induct)
  case less
  have at: "pipe_at k r w" "p_rd p = r" "p_wr p = w" "length (queue k r) \<le> p_size p" "\<forall>v. \<not> pipe_at k c v"
    "p_size p < SIZE_MOD"
    using less.prems(1) by (simp_all add: pumped_def)
  obtain x k1 where x: "sys_splice sys c w 1024 k = (x, k1)" by (rule prod.exhaust)
  then have f: "Pipe_write_socket sys c 1024 MOVE p k = (rv_of x, grown (rv_of x) p, k1)"
    using at by (simp add: Pipe_write_socket_def)
  show ?case
  proof (cases "0 < rv_of x")
    case False
    have "queue k1 = queue k \<and> sent k1 = sent k \<and> pending k1 c = pending k c"
    proof (cases x)
      case (Inl e)
      then show ?thesis using splice_fails [of c w 1024 k e k1] splice_fails_pending [of c w 1024 k e k1] x by simp
    next
      case (Inr m)
      then show ?thesis using splice_pending [OF at(1,5) x [unfolded Inr]] False by (auto simp: fun_upd_idem)
    qed
    moreover have "pending k c = []" if "eager \<and> delivers sys pipe_at queue pending c r w"
      using that less.prems(3) at(1) x False unfolding delivers_def by (metis fst_conv zero_less_numeral)
    ultimately show ?thesis using less.prems(3) False f by (subst pump.simps) simp
  next
    case True
    then obtain m where m: "x = Inr m" "0 < m" by (cases x) auto
    from splice_pending [OF at(1,5) x [unfolded m]] obtain bs where
      b: "length bs = m" "pending k c = bs @ pending k1 c" "queue k1 = (queue k)(r := queue k r @ bs)" "sent k1 = sent k" by blast
    have at1: "pipe_at k1 = pipe_at k" using splice_in [OF at(1,5) x [unfolded m]] by simp
    have g: "p_size (grown (int m) p) = p_size p + m" "p_rd (grown (int m) p) = r" "p_wr (grown (int m) p) = w"
      using less.prems(2) b(1,2) at by (simp_all add: grown_def)
    then have ok1: "pumped pipe_at queue c r w (grown (int m) p) k1" using at at1 b(1-3) less.prems(2) by (simp add: pumped_def)
    obtain rv p2 k2 where d: "drain (grown (int m) p) k1 = (rv, p2, k2)" by (metis prod.exhaust)
    from dr ok1 d obtain out where o: "pumped pipe_at queue c r w p2 k2" "p_size p2 \<le> p_size p + m" "pending k2 = pending k1"
      "queue k1 r = out @ queue k2 r" "sent k2 fd = sent k1 fd @ out" "eager \<longrightarrow> queue k2 r = []"
      unfolding drains_def g(1) [symmetric] by meson
    have s: "length (pending k2 c) < length (pending k c)" "p_size p2 + length (pending k2 c) < SIZE_MOD"
      using o(2,3) b(1,2) m(2) less.prems(2) by simp_all
    from less.hyps [OF s(1) o(1) s(2) o(6)] obtain p' k' out' where
      "pump (\<lambda>p. Pipe_write_socket sys c 1024 MOVE p) drain p2 k2 = Some (p', k')" "sent k' fd = sent k2 fd @ out'"
      "queue k2 r @ pending k2 c = out' @ queue k' r @ pending k' c" "eager \<longrightarrow> queue k' r = []"
      "eager \<and> delivers sys pipe_at queue pending c r w \<longrightarrow> pending k' c = []" by blast
    moreover have "queue k r @ pending k c = out @ queue k2 r @ pending k2 c" using b(2,3) o(3,4) by simp
    ultimately show ?thesis using f m d b(4) o(5) by (subst pump.simps) auto
  qed
qed

end

lemma fill_eq: "(\<lambda>p. Socket_read_pipe io p n s) = Pipe_write_socket io (so_fd s) n MOVE"
  by (intro ext) (simp add: Socket_read_pipe_def)

context spliced
begin

lemma proxy_law:
  assumes "pipe_ok pipe_at queue p k" "queue k (p_rd p) = []" "\<forall>v. \<not> pipe_at k (so_fd client) v"
    "length (pending k (so_fd client)) < SIZE_MOD" and fd: "so_fd backend \<noteq> p_wr p"
  shows "\<exists>p' k' out. proxy_loop sys client backend p k = Some (p', k') \<and> sent k' (so_fd backend) = sent k (so_fd backend) @ out \<and>
    pending k (so_fd client) = out @ queue k' (p_rd p) @ pending k' (so_fd client) \<and>
    (takes_all sys queue (p_rd p) (so_fd backend) \<longrightarrow> queue k' (p_rd p) = [] \<and>
       (delivers sys pipe_at queue pending (so_fd client) (p_rd p) (p_wr p) \<longrightarrow> pending k' (so_fd client) = []))"
proof -
  have "drains pipe_at queue sent pending (so_fd client) (so_fd backend) (p_rd p) (p_wr p) (takes_all sys queue (p_rd p) (so_fd backend))
      (\<lambda>p. Socket_write_pipe sys p (p_size p) backend)"
    by (rule drain_law [OF fd, where upd = "\<lambda>_ q. q"]) (auto simp: Socket_write_pipe_def)
  from pump_law [OF this, of p k] assms show ?thesis
    by (simp add: pumped_def pipe_ok_def proxy_loop_def fill_eq) blast
qed

lemma terminal_law:
  assumes "pipe_ok pipe_at queue p k" "queue k (p_rd p) = []" "\<forall>v. \<not> pipe_at k (so_fd cs) v"
    "length (pending k (so_fd cs)) < SIZE_MOD" and fd: "1 \<noteq> p_wr p"
  shows "\<exists>p' k' out. terminal_loop sys cs p k = Some (p', k') \<and> sent k' 1 = sent k 1 @ out \<and>
    pending k (so_fd cs) = out @ queue k' (p_rd p) @ pending k' (so_fd cs) \<and>
    (takes_all sys queue (p_rd p) 1 \<longrightarrow> queue k' (p_rd p) = [] \<and>
       (delivers sys pipe_at queue pending (so_fd cs) (p_rd p) (p_wr p) \<longrightarrow> pending k' (so_fd cs) = []))"
proof -
  have "drains pipe_at queue sent pending (so_fd cs) 1 (p_rd p) (p_wr p) (takes_all sys queue (p_rd p) 1) (\<lambda>p. Pipe_read_fd sys 1 (p_size p) p)"
    by (rule drain_law [OF fd, where upd = "\<lambda>x. shrunk (rv_of x)"]) (auto simp: Pipe_read_fd_def shrunk_def)
  from pump_law [OF this, of p k] assms show ?thesis
    by (simp add: pumped_def pipe_ok_def terminal_loop_def fill_eq) blast
qed

end

section \<open>A kernel with peers\<close>

text \<open>The kernel \<open>queue_sys\<close>, where the other descriptors deliver what their peers sent.\<close>

type_synonym pstate = "kstate \<times> (int \<Rightarrow> char list)"

definition peer_splice :: "int \<Rightarrow> int \<Rightarrow> nat \<Rightarrow> pstate \<Rightarrow> (nat + nat) \<times> pstate" where
  "peer_splice fd fd' n x =
     (case x of (k, l) \<Rightarrow>
      if pipe_of k fd \<noteq> None then beside (q_splice fd fd' n) (k, l)
      else (case pipe_of k (fd' - 1) of
        None \<Rightarrow> (Inl 22, k, l)
      | Some q \<Rightarrow> let bs = take (q_room fd' n k) (l fd) in
          (Inr (length bs), q_set (fd' - 1) (q @ bs) k, l(fd := drop (length bs) (l fd)))))"

definition peer_sys :: "pstate sysops" where
  "peer_sys = \<lparr>
     sys_pipe2 = (\<lambda>flags. beside (sys_pipe2 queue_sys flags)), sys_read = (\<lambda>fd n. beside (sys_read queue_sys fd n)),
     sys_write = (\<lambda>fd bs. beside (sys_write queue_sys fd bs)), sys_splice = peer_splice,
     sys_tee = (\<lambda>fd fd' n. beside (sys_tee queue_sys fd fd' n)), sys_sendfile = (\<lambda>_ _ _ k. (Inl 22, k)),
     sys_close = (\<lambda>fd. apfst (sys_close queue_sys fd))\<rparr>"

lemma beside_iff: "beside f k = (x, k') \<longleftrightarrow> f (fst k) = (x, fst k') \<and> snd k' = snd k"
  by (cases k'; cases k) (auto simp: beside_def split: prod.splits)

lemma peer_ops [simp]:
  "sys_pipe2 peer_sys flags = beside (sys_pipe2 queue_sys flags)" "sys_read peer_sys fd n = beside (sys_read queue_sys fd n)"
  "sys_write peer_sys fd bs = beside (sys_write queue_sys fd bs)" "sys_tee peer_sys fd fd' n = beside (sys_tee queue_sys fd fd' n)"
  "sys_close peer_sys fd = apfst (sys_close queue_sys fd)"
  by (simp_all add: peer_sys_def)

lemma peer_splice_out:
  "pipe_of (fst k) fd \<noteq> None \<Longrightarrow> sys_splice peer_sys fd fd' n k = beside (sys_splice queue_sys fd fd' n) k"
  by (cases k) (auto simp: peer_sys_def peer_splice_def queue_sys_def)

lemma peer_splice_fails:
  assumes "sys_splice peer_sys fd fd' n k = (Inl e, k')"
  shows "snd k' = snd k \<and> q_at (fst k') = q_at (fst k) \<and> k_sent (fst k') = k_sent (fst k) \<and> q_queue (fst k') = q_queue (fst k)"
proof (cases "pipe_of (fst k) fd = None")
  case True
  then have "k' = k" using assms by (cases k) (auto simp: peer_sys_def peer_splice_def Let_def split: option.splits)
  then show ?thesis by simp
next
  case False
  then have "sys_splice queue_sys fd fd' n (fst k) = (Inl e, fst k')" "snd k' = snd k"
    using assms by (simp_all add: peer_splice_out beside_iff)
  then show ?thesis using queue_kernel.splice_fails by blast
qed

lemma peer_splice_in:
  assumes r: "q_at (fst k) r w" and fd: "\<forall>w'. \<not> q_at (fst k) fd w'" and s: "sys_splice peer_sys fd w n k = (Inr m, k')"
  shows "m \<le> n \<and> q_at (fst k') = q_at (fst k) \<and> (\<exists>bs. length bs = m \<and> snd k fd = bs @ snd k' fd \<and>
    q_queue (fst k') = (q_queue (fst k))(r := q_queue (fst k) r @ bs) \<and> k_sent (fst k') = k_sent (fst k))"
proof -
  obtain q where q: "pipe_of (fst k) r = Some q" "w = r + 1" using r by (auto simp: q_at_def)
  have "pipe_of (fst k) fd = None" using fd by (auto simp: q_at_def)
  moreover define bs where "bs = take (q_room w n (fst k)) (snd k fd)"
  ultimately have k': "m = length bs" "fst k' = q_set r (q @ bs) (fst k)" "snd k' = (snd k)(fd := drop (length bs) (snd k fd))"
    using s q by (auto simp: peer_sys_def peer_splice_def Let_def split: prod.splits)
  have "length bs \<le> n" using q_room_le [of w n "fst k"] by (simp add: bs_def)
  moreover have "snd k fd = bs @ drop (length bs) (snd k fd)" by (simp add: bs_def min_def)
  ultimately show ?thesis using k' q by (auto simp: q_queue_def intro!: exI [of _ bs])
qed

lemma peer_read_delivers:
  assumes "q_at (fst k) r w" "q_queue (fst k) r \<noteq> []" "0 < n"
  shows "\<exists>bs k'. sys_read peer_sys r n k = (Inr bs, k') \<and> bs \<noteq> []"
proof -
  from queue_kernel.read_delivers [OF assms] obtain bs j where "sys_read queue_sys r n (fst k) = (Inr bs, j)" "bs \<noteq> []" by blast
  then have "sys_read peer_sys r n k = (Inr bs, j, snd k)" by (simp add: beside_iff)
  then show ?thesis using \<open>bs \<noteq> []\<close> by blast
qed

lemma peer_splice_out_law:
  assumes "q_at (fst k) r w" "sys_splice peer_sys r fd n k = (x, k')"
  shows "sys_splice queue_sys r fd n (fst k) = (x, fst k')" "snd k' = snd k"
  using assms by (auto simp: peer_splice_out q_at_def beside_iff)

interpretation peers: spliced peer_sys "\<lambda>k. q_at (fst k)" "\<lambda>k. q_queue (fst k)" "\<lambda>k. k_sent (fst k)" snd
  apply unfold_locales
  subgoal by (erule (1) queue_kernel.pipe_ends)
  subgoal by (erule (1) queue_kernel.pipe_ends_differ)
  subgoal by (simp add: queue_kernel.close_other)
  subgoal by (erule queue_kernel.pipe_fds)
  subgoal unfolding peer_ops beside_iff by (elim conjE) (erule queue_kernel.pipe2_new)
  subgoal unfolding peer_ops beside_iff by (elim conjE) (erule queue_kernel.pipe2_fails)
  subgoal unfolding peer_ops beside_iff by (elim conjE) (erule (1) queue_kernel.read_takes)
  subgoal unfolding peer_ops beside_iff by (elim conjE) (erule (1) queue_kernel.read_fails)
  subgoal by (erule (2) peer_read_delivers)
  subgoal unfolding peer_ops beside_iff by (elim conjE) (erule queue_kernel.write_accepts)
  subgoal unfolding peer_ops beside_iff by (elim conjE) (erule queue_kernel.write_fails)
  subgoal by (rule queue_kernel.splice_out [OF _ _ peer_splice_out_law(1)])
  subgoal by (drule (2) peer_splice_in) blast
  subgoal by (drule peer_splice_fails) simp
  subgoal unfolding peer_ops beside_iff by (elim conjE) (erule (3) queue_kernel.tee_copies)
  subgoal unfolding peer_ops beside_iff by (elim conjE) (erule queue_kernel.tee_fails)
  subgoal by (drule (2) peer_splice_in) blast
  subgoal by (rule peer_splice_out_law(2))
  subgoal by (drule peer_splice_fails) simp
  done

section \<open>Properties\<close>

text \<open>
  C11. The proxy loop ends, when the client's data does; what the other server got is, in order, what the client sent,
  except for what is left in the pipe; nothing is left if that server takes all it is offered, and if the client's data can always be
  moved then all of it arrives. This holds
  although \<^verbatim>\<open>Socket::write(Pipe*)\<close> does not reduce the count of the pipe: the count only has to be large enough.
  The loop that prints to the terminal does the same.
\<close>

theorem proxy_forwards:
  assumes sp: "spliced io pipe_at queue sent pending" and p: "pipe_ok pipe_at queue p k" "queue k (p_rd p) = []"
    and c: "\<forall>v. \<not> pipe_at k (so_fd client) v" "length (pending k (so_fd client)) < SIZE_MOD"
    and fd: "so_fd backend \<noteq> p_wr p" "p_wr p \<noteq> 1"
  shows "(\<exists>p' k' out. proxy_loop io client backend p k = Some (p', k') \<and> sent k' (so_fd backend) = sent k (so_fd backend) @ out \<and>
      pending k (so_fd client) = out @ queue k' (p_rd p) @ pending k' (so_fd client) \<and>
      (takes_all io queue (p_rd p) (so_fd backend) \<longrightarrow> queue k' (p_rd p) = [] \<and>
         (delivers io pipe_at queue pending (so_fd client) (p_rd p) (p_wr p) \<longrightarrow> pending k' (so_fd client) = []))) \<and>
    (\<exists>p' k' out. terminal_loop io client p k = Some (p', k') \<and> sent k' 1 = sent k 1 @ out \<and>
      pending k (so_fd client) = out @ queue k' (p_rd p) @ pending k' (so_fd client) \<and>
      (takes_all io queue (p_rd p) 1 \<longrightarrow> queue k' (p_rd p) = [] \<and>
         (delivers io pipe_at queue pending (so_fd client) (p_rd p) (p_wr p) \<longrightarrow> pending k' (so_fd client) = [])))"
  by (rule conjI [OF spliced.proxy_law [OF sp p c fd(1)] spliced.terminal_law [OF sp p c fd(2) [symmetric]]])

theorem proxy_forwards_witness:
  "\<exists>p' k' out. proxy_loop peer_sys (Socket_fd idle idle 8 Operational) (Socket_fd idle idle 10 Operational) \<lparr>p_rd = 3, p_wr = 4, p_size = 0\<rparr>
      (two_pipes [] [], \<lambda>_. ''hello'') = Some (p', k') \<and> k_sent (fst k') 10 = out \<and> ''hello'' = out @ q_queue (fst k') 3 @ snd k' 8"
proof -
  let ?k = "(two_pipes [] [], \<lambda>_ :: int. ''hello'')" and ?p = "\<lparr>p_rd = 3, p_wr = 4, p_size = 0\<rparr>"
    and ?c = "Socket_fd idle idle 8 Operational" and ?b = "Socket_fd idle idle 10 Operational"
  have "pipe_ok (\<lambda>k. q_at (fst k)) (\<lambda>k. q_queue (fst k)) ?p ?k" "q_queue (fst ?k) (p_rd ?p) = []" "\<forall>v. \<not> q_at (fst ?k) (so_fd ?c) v"
      "length (snd ?k (so_fd ?c)) < SIZE_MOD" "so_fd ?b \<noteq> p_wr ?p" "p_wr ?p \<noteq> 1"
    by (simp_all add: pipe_ok_def Socket_fd_def)
  note pf = conjunct1 [OF proxy_forwards [OF peers.spliced_axioms, of ?p ?k ?c ?b, OF this]]
  have fd: "so_fd ?c = 8" "so_fd ?b = 10" by (simp_all add: Socket_fd_def)
  from pf [unfolded fd] obtain p' k' out where "proxy_loop peer_sys ?c ?b ?p ?k = Some (p', k')"
    "k_sent (fst k') 10 = k_sent (fst ?k) 10 @ out" "snd ?k 8 = out @ q_queue (fst k') (p_rd ?p) @ snd k' 8"
    by (elim exE conjE) (rule that)
  then show ?thesis by (intro exI [of _ p'] exI [of _ k'] exI [of _ out]) simp
qed

end
