(* ===== verification/Proxy_System.thy ===== *)
theory Proxy_System
  imports Splice_Proxy IP_Address
begin

text \<open>
  The proxy thread of \<^verbatim>\<open>examples/network-splicing.cpp\<close> as a whole: it connects to the other server, creates the pipe, runs the loop
  of \<open>Splice_Proxy\<close>, and gives everything back. The locale \<open>proxied\<close> puts pipes, connections and the table of descriptors together:
  what the calls of one kind leave alone of the others.
\<close>

section \<open>Definitions\<close>

text \<open>
  The argument of the thread is the socket of the client; \<open>pton\<close> and \<open>garbage\<close> are those of the address, \<open>i\<close> and \<open>t\<close> the watchers of the
  new socket. At the end the client is deleted; then the pipe and the other socket go out of scope.
\<close>

definition proxy_run :: "'k sysops \<Rightarrow> 'k netops \<Rightarrow> pton \<Rightarrow> char list \<Rightarrow> 'i \<Rightarrow> 't \<Rightarrow> string \<Rightarrow> int \<Rightarrow> ('i, 't) socket \<Rightarrow> 'k \<Rightarrow> 'k option" where
  "proxy_run io sys pton garbage i t ipaddr port client k =
     (case Socket_open sys (ip_text pton garbage ipaddr 0) port 0 (Socket_new i t) k of (_, backend, k1) \<Rightarrow>
      case Pipe_new io 0 k1 of (p, k2) \<Rightarrow>
      case proxy_loop io client backend p k2 of
        None \<Rightarrow> None
      | Some (p', k3) \<Rightarrow>
          Some (Socket_destroy sys backend (Pipe_destroy io p' (Socket_destroy sys client k3))))"

section \<open>What the code relies on\<close>

locale proxied = spliced io pipe_at queue sent pending + net_env sys fds ev
  for io :: "'k sysops" and pipe_at queue sent pending and sys :: "'k netops" and fds and ev :: "('i, 't) evops" +
  assumes socket_apart: "sc_socket sys d t p k = (x, k') \<Longrightarrow> pipe_at k' = pipe_at k \<and> (\<forall>c \<in> fds k. pending k' c = pending k c)"
    and connect_apart: "sc_connect sys fd a k = (y, k') \<Longrightarrow> pipe_at k' = pipe_at k \<and> (\<forall>c. c \<noteq> fd \<longrightarrow> pending k' c = pending k c)"
    and sclose_apart: "sent (sc_close sys fd k) = sent k \<and> (\<forall>r w. pipe_at (sc_close sys fd k) r w \<longrightarrow> pipe_at k r w) \<and>
      (\<forall>c. c \<noteq> fd \<longrightarrow> pending (sc_close sys fd k) c = pending k c)"
    and pipe2_fds: "sys_pipe2 io flags k = (Inr (r, w), k') \<Longrightarrow> r \<notin> fds k \<and> w \<notin> fds k \<and> fds k' = insert r (insert w (fds k)) \<and> pending k' = pending k"
    and pipe2_none: "sys_pipe2 io flags k = (Inl e, k') \<Longrightarrow> fds k' = fds k \<and> pending k' = pending k"
    and splice_fds: "fds (snd (sys_splice io fd fd' n k)) = fds k"
    and splice_bad: "\<forall>v. \<not> pipe_at k fd v \<Longrightarrow> w < 0 \<Longrightarrow> rv_of (fst (sys_splice io fd w n k)) < 0"
    and pclose_apart: "fds (sys_close io fd k) = fds k - {fd} \<and> sent (sys_close io fd k) = sent k"

text \<open>What the two operations of the loop keep, the loop keeps.\<close>

definition keeps :: "(pipe \<Rightarrow> 'k \<Rightarrow> 'b) \<Rightarrow> (pipe \<Rightarrow> 'k \<Rightarrow> int \<times> pipe \<times> 'k) \<Rightarrow> bool" where
  "keeps I f \<longleftrightarrow> (\<forall>p k rv p' k'. f p k = (rv, p', k') \<longrightarrow> I p' k' = I p k)"

lemma pump_keeps:
  assumes "pump fill drain p k = Some y"
  shows "keeps I fill \<longrightarrow> keeps I drain \<longrightarrow> I (fst y) (snd y) = I p k"
proof (rule pump.raw_induct [where P = "\<lambda>fill drain p k y. keeps I fill \<longrightarrow> keeps I drain \<longrightarrow> I (fst y) (snd y) = I p k", OF _ assms])
  fix pmp fill drain p k y
  assume ih: "\<And>fill drain p k y. pmp fill drain p k = Some y \<Longrightarrow> keeps I fill \<longrightarrow> keeps I drain \<longrightarrow> I (fst y) (snd y) = I p k"
    and b: "(case fill p k of (rv, p1, k1) \<Rightarrow> if 0 < rv then (case drain p1 k1 of (_, p2, k2) \<Rightarrow> pmp fill drain p2 k2) else Some (p1, k1)) = Some y"
  obtain rv p1 k1 where f: "fill p k = (rv, p1, k1)" by (rule prod_cases3)
  obtain rv2 p2 k2 where d: "drain p1 k1 = (rv2, p2, k2)" by (rule prod_cases3)
  show "keeps I fill \<longrightarrow> keeps I drain \<longrightarrow> I (fst y) (snd y) = I p k"
  proof (intro impI)
    assume k: "keeps I fill" "keeps I drain"
    then have "I p1 k1 = I p k" "I p2 k2 = I p1 k1" using f d unfolding keeps_def by blast+
    then show "I (fst y) (snd y) = I p k" using b f d k ih [of fill drain p2 k2 y] by (auto split: if_splits)
  qed
qed

context proxied
begin

lemma proxy_open_law:
  assumes o: "Socket_open sys ip port 0 (Socket_new i t) k = (ss, b, k1)" and c: "c \<in> fds k"
  shows "pending k1 c = pending k c" "pipe_at k1 r w \<Longrightarrow> pipe_at k r w" "fds k1 = fds k \<and> so_fd b = - 1 \<or> 0 \<le> so_fd b \<and> so_fd b \<notin> fds k \<and> fds k1 = insert (so_fd b) (fds k)"
proof -
  have f: "applyFlags sys fd (without 0 (O_NONBLOCK OR O_CLOEXEC)) j = (True, j)" for fd j by (simp add: applyFlags_def without_def)
  obtain x j where s: "sc_socket sys (ip_family ip) (of_int SOCK_STREAM OR type_mask 0) 6 k = (x, j)" by (rule prod.exhaust)
  note A = socket_apart [OF s]
  have "pending k1 c = pending k c \<and> (pipe_at k1 r w \<longrightarrow> pipe_at k r w) \<and> (fds k1 = fds k \<and> so_fd b = - 1 \<or> 0 \<le> so_fd b \<and> so_fd b \<notin> fds k \<and> fds k1 = insert (so_fd b) (fds k))"
  proof (cases x)
    case (Inl e)
    then show ?thesis using o s A c socket_fails [OF s [unfolded Inl]] by (auto simp: Socket_open_def)
  next
    case (Inr fd)
    have cf: "c \<noteq> fd" "0 \<le> fd" "fd \<notin> fds k" "fds j = insert fd (fds k)" using socket_new [OF s [unfolded Inr]] c by auto
    show ?thesis
    proof (cases "inet_sockaddr ip port")
      case None
      then show ?thesis using o s Inr A c cf sclose_apart [of fd j] close_removes [of fd j] by (auto simp: Socket_open_def f)
    next
      case (Some a)
      obtain y l where n: "sc_connect sys fd a j = (y, l)" by (rule prod.exhaust)
      have "k1 = l \<and> so_fd b = fd \<or> k1 = sc_close sys fd l \<and> so_fd b = - 1" using o s Inr Some n
        by (auto simp: Socket_open_def f Let_def split: sum.splits if_splits)
      moreover have "fds l = fds j" using connect_keeps [of fd a j] n by simp
      ultimately show ?thesis using A c cf connect_apart [OF n] sclose_apart [of fd l] close_removes [of fd l] by auto
    qed
  qed
  then show "pending k1 c = pending k c" "pipe_at k1 r w \<Longrightarrow> pipe_at k r w" "fds k1 = fds k \<and> so_fd b = - 1 \<or> 0 \<le> so_fd b \<and> so_fd b \<notin> fds k \<and> fds k1 = insert (so_fd b) (fds k)" by blast+
qed

lemma socket_destroy_law:
  "fds (Socket_destroy sys s k) = (if 0 \<le> so_fd s then fds k - {so_fd s} else fds k)" "sent (Socket_destroy sys s k) = sent k"
  using close_removes [of "so_fd s" k] sclose_apart [of "so_fd s" k] by (simp_all add: Socket_destroy_def Socket_close_def)

lemma proxy_loop_keeps:
  assumes "proxy_loop io client backend p k = Some (p', k')"
  shows "fds k' = fds k" "p_rd p' = p_rd p" "p_wr p' = p_wr p"
proof -
  let ?I = "\<lambda>p k. (fds k, p_rd p, p_wr p)"
  have s: "fds j' = fds j" if "sys_splice io fd fd' n j = (x, j')" for fd fd' n j x j' using splice_fds [of fd fd' n j] that by simp
  have "keeps ?I (\<lambda>p. Socket_read_pipe io p 1024 client)" "keeps ?I (\<lambda>p. Socket_write_pipe io p (p_size p) backend)"
    by (auto simp: keeps_def Socket_read_pipe_def Pipe_write_socket_def Socket_write_pipe_def grown_def dest: s split: prod.splits)
  then have "?I p' k' = ?I p k" using pump_keeps [OF assms [unfolded proxy_loop_def], of ?I] by simp
  then show "fds k' = fds k" "p_rd p' = p_rd p" "p_wr p' = p_wr p" by simp_all
qed

lemma loop_without_pipe:
  assumes "p_wr p < 0" "\<forall>v. \<not> pipe_at k (so_fd client) v"
  shows "\<exists>k'. proxy_loop io client backend p k = Some (p, k') \<and> sent k' = sent k \<and> pending k' = pending k"
proof -
  obtain x k' where x: "sys_splice io (so_fd client) (p_wr p) 1024 k = (x, k')" by (rule prod.exhaust)
  then have "rv_of x < 0" using splice_bad [OF assms(2,1), of 1024] by simp
  then obtain e where e: "x = Inl e" by (cases x) auto
  then show ?thesis using x splice_fails [OF x [unfolded e]] splice_fails_pending [OF x [unfolded e]]
    by (simp add: proxy_loop_def Socket_read_pipe_def Pipe_write_socket_def grown_def pump.simps)
qed

lemma new_pipe_law:
  assumes n: "Pipe_new io 0 k = (p, k')"
  shows "sent k' = sent k \<and> pending k' = pending k \<and>
    (if Pipe_isOpen p then pipe_ok pipe_at queue p k' \<and> queue k' (p_rd p) = [] \<and> p_rd p \<notin> fds k \<and> p_wr p \<notin> fds k \<and>
       fds k' = insert (p_rd p) (insert (p_wr p) (fds k)) \<and> 0 \<le> p_wr p \<and> (\<forall>c \<in> fds k. (\<forall>v. \<not> pipe_at k c v) \<longrightarrow> (\<forall>v. \<not> pipe_at k' c v))
     else p_wr p < 0 \<and> fds k' = fds k \<and> pipe_at k' = pipe_at k)"
proof (cases "sys_pipe2 io 0 k")
  case (Pair x j)
  show ?thesis
  proof (cases x)
    case (Inl e)
    then show ?thesis using n Pair pipe2_fails [OF Pair [unfolded Inl]] pipe2_none [OF Pair [unfolded Inl]] by (auto simp: Pipe_new_def Pipe_isOpen_def)
  next
    case (Inr rw)
    obtain r w where rw: "rw = (r, w)" by (rule prod.exhaust)
    note P = pipe2_new [OF Pair [unfolded Inr rw]] and F = pipe2_fds [OF Pair [unfolded Inr rw]]
    have p: "p = \<lparr>p_rd = r, p_wr = w, p_size = 0\<rparr>" "k' = j" using n Pair Inr rw by (simp_all add: Pipe_new_def)
    have "0 \<le> r" "0 \<le> w" using P pipe_fds by blast+
    then show ?thesis using P F p by (auto simp: pipe_ok_def Pipe_isOpen_def)
  qed
qed

lemma proxy_run_law:
  assumes c: "so_fd client \<in> fds k" "0 \<le> so_fd client" "\<forall>v. \<not> pipe_at k (so_fd client) v" "length (pending k (so_fd client)) < SIZE_MOD"
    and o: "Socket_open sys (ip_text pton garbage ipaddr 0) port 0 (Socket_new i t) k = (ss, b, k1)" and n: "Pipe_new io 0 k1 = (p, k2)"
  shows "\<exists>k' out rest. proxy_run io sys pton garbage i t ipaddr port client k = Some k' \<and> fds k' = fds k - {so_fd client} \<and>
    pending k (so_fd client) = out @ rest \<and> sent k' (so_fd b) = sent k1 (so_fd b) @ out \<and>
    (Pipe_isOpen p \<and> takes_all io queue (p_rd p) (so_fd b) \<and> delivers io pipe_at queue pending (so_fd client) (p_rd p) (p_wr p) \<longrightarrow> rest = [])"
proof -
  note ow = proxy_open_law(3) [OF o c(1)]
  have c1: "pending k1 (so_fd client) = pending k (so_fd client)" "\<forall>v. \<not> pipe_at k1 (so_fd client) v" "so_fd client \<in> fds k1"
    using proxy_open_law [OF o c(1)] c(1,3) ow by auto
  note N = new_pipe_law [OF n]
  have c2: "\<forall>v. \<not> pipe_at k2 (so_fd client) v" "length (pending k2 (so_fd client)) < SIZE_MOD" using N c1 c(4) by (auto split: if_splits)
  obtain p' k3 out rest where l: "proxy_loop io client b p k2 = Some (p', k3)" "sent k3 (so_fd b) = sent k1 (so_fd b) @ out"
    "pending k (so_fd client) = out @ rest"
    "Pipe_isOpen p \<and> takes_all io queue (p_rd p) (so_fd b) \<and> delivers io pipe_at queue pending (so_fd client) (p_rd p) (p_wr p) \<longrightarrow> rest = []"
  proof (cases "Pipe_isOpen p")
    case False
    then show ?thesis using loop_without_pipe [of p k2 client b] c2 N c1(1) that [of p _ "[]" "pending k (so_fd client)"] by auto
  next
    case True
    then have "so_fd b \<noteq> p_wr p" "pipe_ok pipe_at queue p k2" "queue k2 (p_rd p) = []" using N ow by auto
    from proxy_law [OF this(2,3) c2 this(1)] N c1(1) show ?thesis using that by fastforce
  qed
  note K = proxy_loop_keeps [OF l(1)]
  let ?k = "Socket_destroy sys b (Pipe_destroy io p' (Socket_destroy sys client k3))"
  have d: "fds (Pipe_destroy io p' j) = (if Pipe_isOpen p then fds j - {p_rd p, p_wr p} else fds j)" "sent (Pipe_destroy io p' j) = sent j" for j
    using pclose_apart K by (auto simp: Pipe_destroy_def Pipe_isOpen_def)
  have "fds ?k = fds k - {so_fd client}"
  proof (cases "Pipe_isOpen p")
    case True
    then have "fds k2 = insert (p_rd p) (insert (p_wr p) (fds k1))" "p_rd p \<notin> fds k1" "p_wr p \<notin> fds k1" using N by simp_all
    then show ?thesis using True ow c(2) unfolding socket_destroy_law d K by auto
  next
    case False
    then have "fds k2 = fds k1" using N by simp
    then show ?thesis using False ow c(2) unfolding socket_destroy_law d K by auto
  qed
  moreover have "sent ?k (so_fd b) = sent k1 (so_fd b) @ out" using l(2) by (simp add: socket_destroy_law d)
  moreover have "proxy_run io sys pton garbage i t ipaddr port client k = Some ?k" using o n l(1) by (simp add: proxy_run_def)
  ultimately show ?thesis using l(3,4) by blast
qed

end

section \<open>A kernel with sockets and pipes\<close>

text \<open>The process \<open>demo_net\<close>, where connecting succeeds, beside the pipes and peers of \<open>peer_sys\<close>. Pipes take their descriptors from the process,
  the read end with an odd number.\<close>

definition aside :: "('l \<Rightarrow> 'r \<times> 'l) \<Rightarrow> 'k \<times> 'l \<Rightarrow> 'r \<times> 'k \<times> 'l" where
  "aside f x = (case f (snd x) of (r, l) \<Rightarrow> (r, fst x, l))"

definition px_pipe2 :: "nat \<Rightarrow> dstate \<times> pstate \<Rightarrow> (nat + int \<times> int) \<times> dstate \<times> pstate" where
  "px_pipe2 flags x =
     (let k = fst x; m = 2 * (d_next k div 2) + 1; r = int m; d = new_socket 0 0 in
      if m < 1000 \<and> k_pipes (fst (snd x)) r = None
      then (Inr (r, r + 1), k\<lparr>d_fds := (d_fds k)(int (d_next k) := None, r \<mapsto> d, r + 1 \<mapsto> d), d_next := m + 2\<rparr>, apfst (q_set r []) (snd x))
      else (Inl 24, x))"

definition px_io :: "(dstate \<times> pstate) sysops" where
  "px_io = \<lparr>
     sys_pipe2 = px_pipe2, sys_read = (\<lambda>fd n. aside (sys_read peer_sys fd n)),
     sys_write = (\<lambda>fd bs. aside (sys_write peer_sys fd bs)), sys_splice = (\<lambda>fd fd' n. aside (sys_splice peer_sys fd fd' n)),
     sys_tee = (\<lambda>fd fd' n. aside (sys_tee peer_sys fd fd' n)), sys_sendfile = (\<lambda>_ _ _ k. (Inl 22, k)),
     sys_close = (\<lambda>fd. map_prod (sc_close demo_net fd) (sys_close peer_sys fd))\<rparr>"

definition px_net :: "(dstate \<times> pstate) netops" where
  "px_net = (net_beside demo_net)\<lparr>sc_connect := (\<lambda>fd a k. (Inr (), k))\<rparr>"

lemma aside_iff: "aside f k = (x, k') \<longleftrightarrow> f (snd k) = (x, snd k') \<and> fst k' = fst k"
  by (cases k'; cases k) (auto simp: aside_def split: prod.splits)

lemma px_ops [simp]:
  "sys_read px_io fd n = aside (sys_read peer_sys fd n)" "sys_write px_io fd bs = aside (sys_write peer_sys fd bs)"
  "sys_splice px_io fd fd' n = aside (sys_splice peer_sys fd fd' n)" "sys_tee px_io fd fd' n = aside (sys_tee peer_sys fd fd' n)"
  "sys_close px_io fd k = (sc_close demo_net fd (fst k), sys_close peer_sys fd (snd k))" "sys_pipe2 px_io = px_pipe2"
  by (simp_all add: px_io_def map_prod_def split_beta)

lemma px_pipe2_law:
  assumes "px_pipe2 flags k = (Inr (r, w), k')"
  shows "q_at (fst (snd k')) r w \<and> q_queue (fst (snd k')) r = [] \<and> (\<forall>r' w'. q_at (fst (snd k)) r' w' \<longrightarrow> r' \<noteq> r \<and> w' \<noteq> w) \<and>
       (\<forall>r' w'. r' \<noteq> r \<longrightarrow> q_at (fst (snd k')) r' w' = q_at (fst (snd k)) r' w') \<and>
       (\<forall>r'. r' \<noteq> r \<longrightarrow> q_queue (fst (snd k')) r' = q_queue (fst (snd k)) r') \<and> k_sent (fst (snd k')) = k_sent (fst (snd k))"
  using assms by (auto simp: px_pipe2_def Let_def q_at_def q_queue_def q_set_def pipe_of_def split: if_splits)

lemma px_pipe2_fds:
  assumes "px_pipe2 flags k = (Inr (r, w), k')"
  shows "r \<notin> d_open (fst k) \<and> w \<notin> d_open (fst k) \<and> d_open (fst k') = insert r (insert w (d_open (fst k))) \<and> snd (snd k') = snd (snd k)"
proof -
  define n where "n = d_next (fst k)"
  have n: "2 * (n div 2) + 1 = n \<or> 2 * (n div 2) + 1 = Suc n" by presburger
  then show ?thesis using assms unfolding px_pipe2_def Let_def d_open_def n_def [symmetric] by (auto split: if_splits)
qed

lemma px_pipe2_fails: "px_pipe2 flags k = (Inl e, k') \<Longrightarrow> 0 < e \<and> k' = k"
  by (auto simp: px_pipe2_def Let_def split: if_splits)

lemma px_spliced: "spliced px_io (\<lambda>k. q_at (fst (snd k))) (\<lambda>k. q_queue (fst (snd k))) (\<lambda>k. k_sent (fst (snd k))) (\<lambda>k. snd (snd k))"
  apply unfold_locales
  subgoal by (erule (1) peers.pipe_ends)
  subgoal by (erule (1) peers.pipe_ends_differ)
  subgoal unfolding px_ops snd_conv by (rule peers.close_other)
  subgoal by (erule peers.pipe_fds)
  subgoal unfolding px_ops by (erule px_pipe2_law)
  subgoal unfolding px_ops by (drule px_pipe2_fails) simp
  subgoal unfolding px_ops aside_iff by (elim conjE) (erule (1) peers.read_takes)
  subgoal unfolding px_ops aside_iff by (elim conjE) (erule (1) peers.read_fails)
  subgoal for k r w n using peers.read_delivers [of "snd k" r w n] unfolding px_ops aside_iff by auto
  subgoal unfolding px_ops aside_iff by (elim conjE) (erule peers.write_accepts)
  subgoal unfolding px_ops aside_iff by (elim conjE) (erule peers.write_fails)
  subgoal unfolding px_ops aside_iff by (elim conjE) (erule (2) peers.splice_out)
  subgoal unfolding px_ops aside_iff by (elim conjE) (erule (2) peers.splice_in)
  subgoal unfolding px_ops aside_iff by (elim conjE) (erule peers.splice_fails)
  subgoal unfolding px_ops aside_iff by (elim conjE) (erule (3) peers.tee_copies)
  subgoal unfolding px_ops aside_iff by (elim conjE) (erule peers.tee_fails)
  subgoal unfolding px_ops aside_iff by (elim conjE) (erule (2) peers.splice_pending)
  subgoal unfolding px_ops aside_iff by (elim conjE) (erule (1) peers.splice_keeps)
  subgoal unfolding px_ops aside_iff by (elim conjE) (erule peers.splice_fails_pending)
  done

lemma px_fds: "fd_table px_net (\<lambda>x. d_open (fst x))"
  using demo_fds.fd_table_axioms by (auto simp: fd_table_def px_net_def net_beside_def beside_eq)

lemma px_close: "d_open (sc_close demo_net fd k) = d_open k - {fd}"
  by (rule demo_fds.close_removes)

lemma px_close_sent: "k_sent (sys_close queue_sys fd k) = k_sent k"
  by (simp add: queue_sys_def)

lemma px_splice_bad: "\<forall>v. \<not> q_at (fst k) fd v \<Longrightarrow> w < 0 \<Longrightarrow> rv_of (fst (sys_splice peer_sys fd w n k)) < 0"
  by (cases k) (simp add: peer_sys_def peer_splice_def q_at_def pipe_of_def)

interpretation px: proxied px_io "\<lambda>k. q_at (fst (snd k))" "\<lambda>k. q_queue (fst (snd k))" "\<lambda>k. k_sent (fst (snd k))" "\<lambda>k. snd (snd k)"
  px_net "\<lambda>x. d_open (fst x)" demo_ev
proof (intro proxied.intro px_spliced net_env.intro px_fds kept_ev.ev_watchers_axioms proxied_axioms.intro)
qed (auto simp: px_net_def net_beside_def beside_eq aside_iff px_close px_close_sent px_splice_bad aside_def split_beta
      dest: px_pipe2_fds px_pipe2_fails)

section \<open>Properties\<close>

text \<open>
  C10. The proxy thread as a whole: for every client whose data ends, it returns; every descriptor it opened is closed again, and the client's
  too, on all paths: where no connection could be made, where no pipe could be created, and where the loop ended. What the other
  server got is, in order, a beginning of what the client sent; it is all of it if the pipe exists, the other server takes what it is offered and the
  client's data can be moved.
\<close>

theorem proxy_run_complete:
  assumes px: "proxied io pipe_at queue sent pending sys fds ev"
    and c: "so_fd client \<in> fds k" "0 \<le> so_fd client" "\<forall>v. \<not> pipe_at k (so_fd client) v" "length (pending k (so_fd client)) < SIZE_MOD"
    and o: "Socket_open sys (ip_text pton garbage ipaddr 0) port 0 (Socket_new i t) k = (ss, b, k1)" and n: "Pipe_new io 0 k1 = (p, k2)"
  shows "\<exists>k' out rest. proxy_run io sys pton garbage i t ipaddr port client k = Some k' \<and> fds k' = fds k - {so_fd client} \<and>
    pending k (so_fd client) = out @ rest \<and> sent k' (so_fd b) = sent k1 (so_fd b) @ out \<and>
    (Pipe_isOpen p \<and> takes_all io queue (p_rd p) (so_fd b) \<and> delivers io pipe_at queue pending (so_fd client) (p_rd p) (p_wr p) \<longrightarrow> rest = [])"
  by (rule proxied.proxy_run_law [OF px c o n])

definition one_client :: "dstate \<times> pstate" where
  "one_client = (\<lparr>d_env = Map.empty, d_pid = 7, d_fds = [8 \<mapsto> new_socket 0 0], d_next = 9\<rparr>,
     \<lparr>k_pipes = Map.empty, k_sent = (\<lambda>_. []), k_next = 1\<rparr>, \<lambda>_. ''hello'')"

lemma px_takes_all: "odd fd \<Longrightarrow> odd r \<Longrightarrow> takes_all px_io (\<lambda>k. q_queue (fst (snd k))) r fd"
  by (auto simp: takes_all_def min_def aside_def peer_sys_def peer_splice_def beside_def q_splice_def q_queue_def q_room_def pipe_of_def Let_def
      split: prod.splits option.splits if_splits)

lemma px_delivers: "even c \<Longrightarrow> delivers px_io (\<lambda>k. q_at (fst (snd k))) (\<lambda>k. q_queue (fst (snd k))) (\<lambda>k. snd (snd k)) c r w"
  by (auto simp: delivers_def aside_def peer_sys_def peer_splice_def q_at_def q_queue_def q_room_def pipe_of_def Let_def
      split: prod.splits option.splits if_splits)

theorem proxy_run_complete_witness:
  "\<exists>k'. proxy_run px_io px_net (\<lambda>_ _. (1, [CHR 0x7F, NUL, NUL, CHR 0x01])) (replicate 16 NUL) idle idle ''127.0.0.1'' 8089
      (Socket_fd idle idle 8 Operational) one_client = Some k' \<and> d_open (fst k') = {} \<and> k_sent (fst (snd k')) 9 = ''hello''"
proof -
  let ?c = "Socket_fd idle idle 8 Operational" and ?pton = "\<lambda>_ _. (1, [CHR 0x7F, NUL, NUL, CHR 0x01])"
  have ip: "ip_text ?pton (replicate 16 NUL) ''127.0.0.1'' 0 = \<lparr>ip_family = AF_INET, ip_buf = overwrite (replicate 16 NUL) 0 [CHR 0x7F, NUL, NUL, CHR 0x01]\<rparr>"
    by (simp add: ip_text_def ip_set_def Let_def)
  obtain b k1 where o: "Socket_open px_net (ip_text ?pton (replicate 16 NUL) ''127.0.0.1'' 0) 8089 0 (Socket_new idle idle) one_client = (Operational, b, k1)"
    "so_fd b = 9" "d_next (fst k1) = 10" "snd k1 = snd one_client" unfolding ip
    by (simp add: Socket_open_def Let_def px_net_def net_beside_def beside_def demo_net_def d_new_def one_client_def applyFlags_def without_def
        inet_sockaddr_def Socket_new_def)
  obtain k2 where p: "Pipe_new px_io 0 k1 = (\<lparr>p_rd = 11, p_wr = 12, p_size = 0\<rparr>, k2)"
    using o(3,4) by (simp add: Pipe_new_def px_pipe2_def one_client_def Let_def)
  have d: "d_open (fst one_client) = {8}" "so_fd ?c = 8" "snd (snd one_client) = (\<lambda>_. ''hello'')" "k_sent (fst (snd k1)) 9 = []"
    using o(4) by (auto simp: d_open_def one_client_def Socket_fd_def)
  have c: "so_fd ?c \<in> d_open (fst one_client)" "0 \<le> so_fd ?c" "\<forall>v. \<not> q_at (fst (snd one_client)) (so_fd ?c) v" "length (snd (snd one_client) (so_fd ?c)) < SIZE_MOD"
    unfolding d by (simp_all add: q_at_def pipe_of_def)
  from proxy_run_complete [OF px.proxied_axioms c o(1) p] show ?thesis
    unfolding d(1-3) o(2) by (auto simp: Pipe_isOpen_def px_takes_all px_delivers d(4))
qed

end
