(* ===== verification/Tcp_Client.thy ===== *)
theory Tcp_Client
  imports Echo_Server File_Stream Byte_Stream
begin

text \<open>
  The example \<^verbatim>\<open>examples/tcp-client.cpp\<close>: an HTTP client of three handlers, each of which sets the next one. Handler 0 waits for the
  connection, 1 sends the request, 2 receives the response. It puts together \<^verbatim>\<open>Socket\<close>, its time-outs and \<^verbatim>\<open>Stream::write\<close>.
\<close>

section \<open>Definitions\<close>

text \<open>\<^verbatim>\<open>File::init\<close> and \<^verbatim>\<open>File::deinit\<close> act on the notifier of the process.\<close>

definition File_init :: "('i, 't) evops \<Rightarrow> 'i \<Rightarrow> 'i inotify \<Rightarrow> 'i inotify" where
  "File_init ev i n = Inotify_init ev i n"

definition File_deinit :: "('i, 't) evops \<Rightarrow> 'i inotify \<Rightarrow> 'i inotify res" where
  "File_deinit ev n = Inotify_deinit ev n"

definition CRLF :: string where
  "CRLF = [CHR 0x0D, CHR 0x0A]"

definition REQUEST :: string where
  "REQUEST = ''GET / HTTP/1.1'' @ CRLF @ ''Host: localhost'' @ CRLF @ ''Connection: close'' @ CRLF @ CRLF"

definition on_connect :: "('i, 't) evops \<Rightarrow> 32 word \<Rightarrow> ('i, 't) socket \<Rightarrow> ('i, 't) socket res" where
  "on_connect ev re s =
     (if re AND TIMEOUT \<noteq> 0 then Inr (Socket_stop ev s) else Socket_on ev EV_WRITE (ts_fromSeconds 10) 1 s)"

text \<open>The string literal ends with its terminator; the result of the write is not looked at.\<close>

definition on_writable :: "'k sysops \<Rightarrow> ('i, 't) evops \<Rightarrow> 32 word \<Rightarrow> ('i, 't) socket \<Rightarrow> heap \<times> 'k \<Rightarrow> (('i, 't) socket \<times> heap \<times> 'k) res" where
  "on_writable io ev re s w =
     (if re AND TIMEOUT \<noteq> 0 then Inr (s, w)
      else
        bnd (stream_write_str (\<lambda>src n s w. bnd (Socket_write io src n s w) (\<lambda>(rv, w'). Inr (rv, s, w'))) (REQUEST @ [NUL]) s w) (\<lambda>(_, s1, w1).
        bnd (Socket_on ev EV_READ (ts_fromSeconds 10) 2 s1) (\<lambda>s2. Inr (s2, w1))))"

text \<open>The array is a local variable of 65536 bytes; the terminator is written behind what was read.\<close>

definition on_response :: "'k sysops \<Rightarrow> ('i, 't) evops \<Rightarrow> 32 word \<Rightarrow> ('i, 't) socket \<Rightarrow> heap \<times> 'k \<Rightarrow> (('i, 't) socket \<times> heap \<times> 'k) res" where
  "on_response io ev re s w =
     (if re AND TIMEOUT \<noteq> 0 then Inr (Socket_stop ev s, w)
      else case sys_read io (so_fd s) 65536 (snd w) of
        (Inl e, k') \<Rightarrow> Inr (Socket_stop ev s, fst w, k')
      | (Inr buf, k') \<Rightarrow>
          if buf = [] then Inr (Socket_stop ev s, fst w, k')
          else if 65536 \<le> length buf then Inl OutOfBounds
          else Inr (s, fst w, k'))"

definition tc_handler :: "'k sysops \<Rightarrow> ('i, 't) evops \<Rightarrow> nat \<Rightarrow> 32 word \<Rightarrow> ('i, 't) socket \<Rightarrow> heap \<times> 'k \<Rightarrow> (('i, 't) socket \<times> heap \<times> 'k) res" where
  "tc_handler io ev f re s w =
     (if f = 0 then bnd (on_connect ev re s) (\<lambda>s'. Inr (s', w))
      else if f = 1 then on_writable io ev re s w
      else on_response io ev re s w)"

text \<open>
  \<^verbatim>\<open>main\<close> up to the event loop, with the notifier \<open>n\<close> and the watchers \<open>j\<close>, \<open>i\<close> and \<open>t\<close>: the socket, or nothing if the connection failed at
  once; then the socket is destroyed.
\<close>

definition tc_main :: "'k netops \<Rightarrow> ('i, 't) evops \<Rightarrow> pton \<Rightarrow> char list \<Rightarrow> 'i \<Rightarrow> 'i \<Rightarrow> 't \<Rightarrow> 'i inotify \<Rightarrow> 'k \<Rightarrow>
    (('i, 't) socket option \<times> 'i inotify \<times> 'k) res" where
  "tc_main sys ev pton garbage j i t n k =
     (let n1 = File_init ev j n in
      case Socket_open sys (ip_text pton garbage ''127.0.0.1'' 0) 8080 0 (Socket_new i t) k of (ss, s, k1) \<Rightarrow>
        if ss = Closed then Inr (None, n1, Socket_destroy sys s k1)
        else bnd (Socket_on ev CONNECTED (ts_fromSeconds 10) 0 s) (\<lambda>s'. Inr (Some s', n1, k1)))"

text \<open>What follows the event loop.\<close>

definition tc_cleanup :: "'k netops \<Rightarrow> ('i, 't) evops \<Rightarrow> ('i, 't) socket \<Rightarrow> 'i inotify \<Rightarrow> 'k \<Rightarrow> ('i inotify \<times> 'k) res" where
  "tc_cleanup sys ev s n k = bnd (File_deinit ev n) (\<lambda>n'. Inr (n', Socket_destroy sys s k))"

text \<open>One event of the loop, for a watcher that is active.\<close>

datatype tc_event = TcIo "32 word" | TcTimer

definition tc_call :: "'k sysops \<Rightarrow> ('i, 't) evops \<Rightarrow> call option \<Rightarrow> ('i, 't) socket \<Rightarrow> heap \<times> 'k \<Rightarrow> (('i, 't) socket \<times> heap \<times> 'k) res" where
  "tc_call io ev c s w = (case c of None \<Rightarrow> Inr (s, w) | Some (f, mode) \<Rightarrow> tc_handler io ev f mode s w)"

fun tc_step :: "'k sysops \<Rightarrow> 'k netops \<Rightarrow> ('i, 't) evops \<Rightarrow> tc_event \<Rightarrow> ('i, 't) socket \<times> heap \<times> 'k \<Rightarrow> (('i, 't) socket \<times> heap \<times> 'k) res" where
  "tc_step io sys ev (TcIo re) (s, h, k) =
     (if \<not> io_active ev (so_io s) then Inr (s, h, k)
      else bnd (Socket_io sys ev re s k) (\<lambda>(c, s1, k1). tc_call io ev c s1 (h, k1)))"
| "tc_step io sys ev TcTimer (s, h, k) =
     (if \<not> timer_active ev (so_timer s) then Inr (s, h, k)
      else bnd (Socket_timeout ev s) (\<lambda>(c, s1). tc_call io ev c s1 (h, k)))"

primrec tc_run :: "'k sysops \<Rightarrow> 'k netops \<Rightarrow> ('i, 't) evops \<Rightarrow> tc_event list \<Rightarrow> ('i, 't) socket \<times> heap \<times> 'k \<Rightarrow> (('i, 't) socket \<times> heap \<times> 'k) res" where
  "tc_run io sys ev [] x = Inr x"
| "tc_run io sys ev (e # es) x = bnd (tc_step io sys ev e x) (tc_run io sys ev es)"

section \<open>Invariant\<close>

text \<open>The protocol: nothing is sent before handler 2, and nothing received; then a part of the request was sent.\<close>

definition tc_ok :: "('k \<Rightarrow> int \<Rightarrow> char list) \<Rightarrow> ('k \<Rightarrow> int \<Rightarrow> char list) \<Rightarrow> int \<Rightarrow> ('i, 't) socket \<Rightarrow> 'k \<Rightarrow> bool" where
  "tc_ok received sent fd s k \<longleftrightarrow> so_fd s = fd \<and> 0 \<le> fd \<and>
     (so_handler s = Some 0 \<and> sent k fd = [] \<and> received k fd = [] \<or>
      so_handler s = Some 1 \<and> sent k fd = [] \<and> received k fd = [] \<and> so_state s \<noteq> Connecting \<or>
      so_handler s = Some 2 \<and> prefix (sent k fd) REQUEST \<and> so_state s \<noteq> Connecting) \<and> so_state s \<noteq> Handshake"

definition fills_up :: "'k sysops \<Rightarrow> nat \<Rightarrow> int \<Rightarrow> bool" where
  "fills_up io n fd \<longleftrightarrow> (\<exists>k bs k'. sys_read io fd n k = (Inr bs, k') \<and> length bs = n)"

definition tc_post :: "'k sysops \<Rightarrow> ('k \<Rightarrow> int \<Rightarrow> char list) \<Rightarrow> ('k \<Rightarrow> int \<Rightarrow> char list) \<Rightarrow> int \<Rightarrow> (('i, 't) socket \<times> heap \<times> 'k) res \<Rightarrow> bool" where
  "tc_post io received sent fd r \<longleftrightarrow>
     (case r of Inl e \<Rightarrow> e = OutOfBounds \<and> fills_up io 65536 fd | Inr (s, h, k) \<Rightarrow> tc_ok received sent fd s k)"

lemma on_total: "m AND TIMEOUT = 0 \<Longrightarrow> \<exists>s'. Socket_on ev m t cb s = Inr s' \<and> so_fd s' = so_fd s \<and> so_state s' = so_state s \<and> so_handler s' = Some cb"
  by (simp add: Socket_on_def assertC_def Let_def)

lemma request_text: "takeWhile (\<lambda>c. c \<noteq> NUL) (REQUEST @ [NUL]) = REQUEST"
  by (simp add: REQUEST_def CRLF_def)

context stream_socket
begin

lemma on_connect_law:
  assumes "tc_ok received sent fd s k" "so_handler s = Some 0" "so_state s \<noteq> Connecting \<or> re AND TIMEOUT \<noteq> 0"
  shows "tc_post io received sent fd (bnd (on_connect ev re s) (\<lambda>s'. Inr (s', h, k)))"
proof (cases "re AND TIMEOUT = 0")
  case False
  then show ?thesis using assms by (simp add: on_connect_def tc_post_def tc_ok_def)
next
  case True
  obtain s' where "Socket_on ev EV_WRITE (ts_fromSeconds 10) 1 s = Inr s'" "so_fd s' = so_fd s" "so_state s' = so_state s" "so_handler s' = Some 1"
    using on_total [of EV_WRITE ev "ts_fromSeconds 10" 1 s] by (auto simp: EV_WRITE_def TIMEOUT_def)
  then show ?thesis using assms True by (simp add: on_connect_def tc_post_def tc_ok_def)
qed

lemma on_writable_law:
  assumes "tc_ok received sent fd s k" "so_handler s = Some 1"
  shows "tc_post io received sent fd (on_writable io ev re s (h, k))"
proof (cases "re AND TIMEOUT = 0")
  case False
  then show ?thesis using assms by (simp add: on_writable_def tc_post_def)
next
  case True
  have o: "so_fd s = fd" "sent k fd = []" "so_state s \<noteq> Connecting" "so_state s \<noteq> Handshake" "0 \<le> fd" using assms by (auto simp: tc_ok_def)
  obtain x k1 where w: "sys_write io fd REQUEST k = (x, k1)" by (rule prod.exhaust)
  have p: "prefix (sent k1 fd) REQUEST"
  proof (cases x)
    case (Inl e)
    then show ?thesis using write_fails [OF w [unfolded Inl]] o by simp
  next
    case (Inr m)
    then show ?thesis using write_takes [OF w [unfolded Inr]] o by (simp add: take_is_prefix)
  qed
  obtain s' where "Socket_on ev EV_READ (ts_fromSeconds 10) 2 s = Inr s'" "so_fd s' = so_fd s" "so_state s' = so_state s" "so_handler s' = Some 2"
    using on_total [of EV_READ ev "ts_fromSeconds 10" 2 s] by (auto simp: EV_READ_def TIMEOUT_def)
  then show ?thesis using True o w p request_text
    by (simp add: on_writable_def tc_post_def tc_ok_def stream_write_str_def Socket_write_def write_from_def)
qed

lemma on_response_law:
  assumes "tc_ok received sent fd s k" "so_handler s = Some 2"
  shows "tc_post io received sent fd (on_response io ev re s (h, k))"
proof -
  obtain x k1 where r: "sys_read io fd 65536 k = (x, k1)" by (rule prod.exhaust)
  have o: "so_fd s = fd" using assms by (simp add: tc_ok_def)
  show ?thesis
  proof (cases x)
    case (Inl e)
    then show ?thesis using r o assms read_fails [OF r [unfolded Inl]] by (simp add: on_response_def tc_post_def tc_ok_def)
  next
    case (Inr bs)
    note R = read_gets [OF r [unfolded Inr]]
    have "fills_up io 65536 fd" if "65536 \<le> length bs" using r Inr R that unfolding fills_up_def by fastforce
    then show ?thesis using r o assms Inr R by (simp add: on_response_def tc_post_def tc_ok_def)
  qed
qed


lemma tc_call_law:
  assumes ok: "tc_ok received sent fd s k" and f: "so_handler s = Some f" and c: "so_state s = Connecting \<Longrightarrow> m AND TIMEOUT \<noteq> 0"
  shows "tc_post io received sent fd (tc_call io ev (Some (f, m)) s (h, k))"
proof -
  consider "f = 0" | "f = 1" | "f = 2" using ok f by (auto simp: tc_ok_def)
  then show ?thesis
  proof cases
    case 1
    then show ?thesis using on_connect_law [OF ok] f c by (auto simp: tc_call_def tc_handler_def)
  next
    case 2
    then show ?thesis using on_writable_law [OF ok] f by (simp add: tc_call_def tc_handler_def)
  next
    case 3
    then show ?thesis using on_response_law [OF ok] f by (simp add: tc_call_def tc_handler_def)
  qed
qed

text \<open>The end of connecting, successful or not.\<close>

lemma tc_connect_law:
  assumes ok: "tc_ok received sent fd s k" and st: "so_state s = Connecting"
  shows "\<exists>s1 k1. onConnectComplete sys ev s k = (Some (0, CONNECTED), s1, k1) \<and> tc_ok received sent fd s1 k1 \<and> so_state s1 \<noteq> Connecting \<and> so_handler s1 = Some 0"
proof -
  have o: "so_fd s = fd" "0 \<le> fd" "so_handler s = Some 0" "sent k fd = []" "received k fd = []" using ok st by (auto simp: tc_ok_def)
  obtain s1 k1 where 1: "(case sc_getsockopt sys (so_fd (Socket_stop ev s)) SOL_SOCKET SO_ERROR k of
      Inr (val, _) \<Rightarrow> if val = 0 then ((Socket_stop ev s)\<lparr>so_state := Operational\<rparr>, k) else Socket_close sys (Socket_stop ev s) k
    | Inl e \<Rightarrow> Socket_close sys (Socket_stop ev s) k) = (s1, k1)" by (rule prod.exhaust)
  then have "so_fd s1 = fd" "so_handler s1 = Some 0" "so_state s1 = Operational \<or> so_state s1 = Closed" "received k1 = received k" "sent k1 = sent k"
    using o close_keeps by (auto simp: Socket_close_def split: sum.splits if_splits)
  then show ?thesis using 1 o by (auto simp: onConnectComplete_def Let_def Socket_callback_def tc_ok_def)
qed

lemma tc_step_law:
  assumes ok: "tc_ok received sent fd s k"
  shows "tc_post io received sent fd (tc_step io sys ev e (s, h, k))"
proof -
  obtain f where f: "so_handler s = Some f" using ok by (auto simp: tc_ok_def)
  have idle: "tc_post io received sent fd (Inr (s, h, k))" using ok by (simp add: tc_post_def)
  show ?thesis
  proof (cases e)
    case (TcIo re)
    let ?s = "s\<lparr>so_timer := timer_stop ev (so_timer s)\<rparr>"
    have ok1: "tc_ok received sent fd ?s k" using ok by (simp add: tc_ok_def)
    show ?thesis
    proof (cases "so_state s = Connecting")
      case True
      then obtain s1 k1 where c: "onConnectComplete sys ev ?s k = (Some (0, CONNECTED), s1, k1)" "tc_ok received sent fd s1 k1"
        "so_state s1 \<noteq> Connecting" "so_handler s1 = Some 0" using tc_connect_law [OF ok1, of ev] by auto
      then show ?thesis using TcIo True idle tc_call_law [OF c(2,4), of CONNECTED ev h] by (simp add: Socket_io_def Let_def)
    next
      case False
      then have "Socket_io sys ev re s k = Inr (Some (f, re), ?s, k)" using f ok by (auto simp: Socket_io_def Let_def call_handler_def tc_ok_def)
      then show ?thesis using TcIo idle tc_call_law [OF ok1, of f re ev h] f False by simp
    qed
  next
    case TcTimer
    let ?s = "s\<lparr>so_timer := timer_stop ev (so_timer s), so_io := io_stop ev (so_io s)\<rparr>"
    have "tc_ok received sent fd ?s k" using ok by (simp add: tc_ok_def)
    then show ?thesis using TcTimer idle tc_call_law [of fd ?s k f TIMEOUT ev h] f by (simp add: Socket_timeout_def Let_def call_handler_def TIMEOUT_def)
  qed
qed

lemma tc_run_law: "tc_ok received sent fd s k \<Longrightarrow> tc_post io received sent fd (tc_run io sys ev es (s, h, k))"
proof (induction es arbitrary: s h k)
  case Nil
  then show ?case by (simp add: tc_post_def)
next
  case (Cons e es)
  show ?case
  proof (cases "tc_step io sys ev e (s, h, k)")
    case (Inl f)
    then show ?thesis using tc_step_law [OF Cons.prems, of ev e h] by (simp add: tc_post_def)
  next
    case (Inr x)
    obtain s1 h1 k1 where x: "x = (s1, h1, k1)" by (metis prod_cases3)
    then have "tc_ok received sent fd s1 k1" using tc_step_law [OF Cons.prems, of ev e h] Inr by (simp add: tc_post_def)
    then show ?thesis using Cons.IH Inr x by simp
  qed
qed

end

section \<open>Properties\<close>

text \<open>
  C15. The HTTP client, for any events in any order and whatever the server does: nothing is sent and nothing is read before the connection is
  decided; then at most one request is sent, of which the server gets a beginning; only after that is anything read; and each handler runs
  with the socket it was set on. The only fault is a read that fills the array of 65536 bytes.
\<close>

theorem tcp_client_protocol:
  assumes io: "stream_socket io sys received sent"
    and m: "tc_main sys ev pton garbage j i t n k = Inr (Some s, n', k1)" "0 \<le> so_fd s" "received k1 (so_fd s) = []" "sent k1 (so_fd s) = []"
  shows "case tc_run io sys ev es (s, h, k1) of
      Inl e \<Rightarrow> e = OutOfBounds \<and> fills_up io 65536 (so_fd s)
    | Inr (s', h', k') \<Rightarrow> so_fd s' = so_fd s \<and> prefix (sent k' (so_fd s)) REQUEST \<and>
        (sent k' (so_fd s) \<noteq> [] \<or> received k' (so_fd s) \<noteq> [] \<longrightarrow> so_handler s' = Some 2 \<and> so_state s' \<noteq> Connecting)"
proof -
  obtain s0 where s0: "Socket_open sys (ip_text pton garbage ''127.0.0.1'' 0) 8080 0 (Socket_new i t) k = (so_state s0, s0, k1)"
      "so_state s0 \<noteq> Closed" "Socket_on ev CONNECTED (ts_fromSeconds 10) 0 s0 = Inr s" "so_state s0 \<noteq> Handshake"
    using m(1) by (auto simp: tc_main_def Let_def bnd_eq_Inr Socket_open_def split: prod.splits if_splits sum.splits bool.splits option.splits)
  then have "tc_ok received sent (so_fd s) s k1" using on_keeps [OF s0(3)] m(2-4) by (simp add: tc_ok_def)
  from stream_socket.tc_run_law [OF io this, of ev es h] show ?thesis
    by (auto simp: tc_post_def tc_ok_def split: sum.splits)
qed

definition http_pton :: pton where
  "http_pton family txt = (1, [CHR 0x7F, NUL, NUL, CHR 0x01])"

lemma tc_main_hello:
  "\<exists>s n' k1. tc_main (net_beside demo_net) demo_ev http_pton (replicate 16 NUL) idle idle idle \<lparr>no_handle = 9, no_io = None\<rparr> hello = Inr (Some s, n', k1) \<and>
     so_fd s = 3 \<and> so_state s = Connecting \<and> ln_got (snd k1) = (\<lambda>_. []) \<and> ln_put (snd k1) = (\<lambda>_. [])"
proof -
  have ip: "ip_text http_pton (replicate 16 NUL) ''127.0.0.1'' 0 = \<lparr>ip_family = AF_INET, ip_buf = overwrite (replicate 16 NUL) 0 [CHR 0x7F, NUL, NUL, CHR 0x01]\<rparr>"
    by (simp add: ip_text_def ip_set_def http_pton_def Let_def)
  show ?thesis
    unfolding tc_main_def ip
    by (simp add: Socket_open_def Let_def net_beside_def beside_def demo_net_def d_new_def hello_def blank_process_def applyFlags_def without_def
        inet_sockaddr_def Socket_on_def CONNECTED_def TIMEOUT_def assertC_def Socket_new_def File_init_def)
qed

theorem tcp_client_protocol_witness:
  "\<exists>s n' k1. tc_main (net_beside demo_net) demo_ev http_pton (replicate 16 NUL) idle idle idle \<lparr>no_handle = 9, no_io = None\<rparr> hello = Inr (Some s, n', k1) \<and>
     (case tc_run line_io (net_beside demo_net) demo_ev [TcIo 2, TcIo 2, TcIo 1] (s, one_block [], k1) of
        Inl e \<Rightarrow> e = OutOfBounds \<and> fills_up line_io 65536 3
      | Inr (s', h', k') \<Rightarrow> prefix (ln_put (snd k') 3) REQUEST)"
proof -
  obtain s n' k1 where m: "tc_main (net_beside demo_net) demo_ev http_pton (replicate 16 NUL) idle idle idle \<lparr>no_handle = 9, no_io = None\<rparr> hello = Inr (Some s, n', k1)"
    "so_fd s = 3" "ln_got (snd k1) = (\<lambda>_. [])" "ln_put (snd k1) = (\<lambda>_. [])" using tc_main_hello by blast
  have "0 \<le> so_fd s" "ln_got (snd k1) (so_fd s) = []" "ln_put (snd k1) (so_fd s) = []" using m by simp_all
  from tcp_client_protocol [OF lines.stream_socket_axioms m(1) this, of "[TcIo 2, TcIo 2, TcIo 1]" "one_block []"]
  show ?thesis using m(1,2) by (auto split: sum.splits)
qed

text \<open>
  C40. The handlers of the client do not look at how connecting ended: after a failure the socket is closed, but the client goes on to wait for
  readiness to write on the number of the descriptor it no longer has. And after the first part of the response no time-out is
  running, so a server that then falls silent is waited for without end.
\<close>

theorem tcp_client_unchecked:
  assumes env: "net_env sys fds ev" and s: "so_handler s = Some f" "io_active ev (so_io s)"
  shows "(f = 0 \<and> so_state s = Connecting \<and> 0 \<le> so_fd s \<and> (\<forall>l. sc_getsockopt sys (so_fd s) SOL_SOCKET SO_ERROR k \<noteq> Inr (0, l)) \<longrightarrow>
      (\<exists>s' k'. tc_step io sys ev (TcIo re) (s, h, k) = Inr (s', h, k') \<and> so_state s' = Closed \<and> so_fd s' = so_fd s \<and> so_fd s \<notin> fds k' \<and>
         io_active ev (so_io s') \<and> io_watches ev (so_io s') = (so_fd s, uint EV_WRITE))) \<and>
    (f = 2 \<and> so_state s = Operational \<and> re AND TIMEOUT = 0 \<and> sys_read io (so_fd s) 65536 k = (Inr buf, k1) \<and> buf \<noteq> [] \<and> length buf < 65536 \<longrightarrow>
      (\<exists>s'. tc_step io sys ev (TcIo re) (s, h, k) = Inr (s', h, k1) \<and> \<not> timer_active ev (so_timer s') \<and> io_active ev (so_io s') \<and> so_handler s' = Some 2))"
proof (intro conjI impI)
  assume a: "f = 0 \<and> so_state s = Connecting \<and> 0 \<le> so_fd s \<and> (\<forall>l. sc_getsockopt sys (so_fd s) SOL_SOCKET SO_ERROR k \<noteq> Inr (0, l))"
  let ?s = "s\<lparr>so_timer := timer_stop ev (so_timer s)\<rparr>"
  obtain c s1 k1 where c: "onConnectComplete sys ev ?s k = (c, s1, k1)" by (metis prod_cases3)
  have k: "so_fd s1 = so_fd s" "c = Some (0, CONNECTED)" "so_state s1 = Closed" "fds k1 = fds k - {so_fd s}"
    using net_env.connect_law [OF env c] a s(1) by auto
  obtain s2 where s2: "Socket_on ev EV_WRITE (ts_fromSeconds 10) 1 s1 = Inr s2" "so_fd s2 = so_fd s1" "so_state s2 = so_state s1"
    "so_io s2 = io_begin ev (so_fd s1) EV_WRITE (so_io s1)"
    by (simp add: Socket_on_def EV_WRITE_def TIMEOUT_def CONNECTED_def assertC_def Let_def)
  have w: "ev_watchers ev" using env by (simp add: net_env_def)
  have "tc_step io sys ev (TcIo re) (s, h, k) = Inr (s2, h, k1)"
    using a c s(2) k(2) s2(1) by (simp add: Socket_io_def Let_def tc_call_def tc_handler_def on_connect_def CONNECTED_def TIMEOUT_def)
  then show "\<exists>s' k'. tc_step io sys ev (TcIo re) (s, h, k) = Inr (s', h, k') \<and> so_state s' = Closed \<and> so_fd s' = so_fd s \<and> so_fd s \<notin> fds k' \<and>
         io_active ev (so_io s') \<and> io_watches ev (so_io s') = (so_fd s, uint EV_WRITE)"
    using s2 k ev_watchers.io_start_active [OF w] ev_watchers.io_start_watches [OF w] ev_watchers.io_set_watches [OF w] by (auto simp: io_begin_def)
next
  assume a: "f = 2 \<and> so_state s = Operational \<and> re AND TIMEOUT = 0 \<and> sys_read io (so_fd s) 65536 k = (Inr buf, k1) \<and> buf \<noteq> [] \<and> length buf < 65536"
  have w: "ev_watchers ev" using env by (simp add: net_env_def)
  show "\<exists>s'. tc_step io sys ev (TcIo re) (s, h, k) = Inr (s', h, k1) \<and> \<not> timer_active ev (so_timer s') \<and> io_active ev (so_io s') \<and> so_handler s' = Some 2"
    using a s ev_watchers.timer_stop_active [OF w]
    by (simp add: Socket_io_def Let_def call_handler_def tc_call_def tc_handler_def on_response_def)
qed

theorem tcp_client_unchecked_witness:
  "\<exists>s' k'. tc_step line_io (net_beside demo_net) demo_ev (TcIo 2) ((Socket_fd (idle\<lparr>w_active := True\<rparr>) idle 9 Connecting)\<lparr>so_handler := Some 0\<rparr>, one_block [], hello) =
      Inr (s', one_block [], k') \<and> so_state s' = Closed \<and> io_active demo_ev (so_io s')"
proof -
  let ?s = "(Socket_fd (idle\<lparr>w_active := True\<rparr>) idle 9 Connecting)\<lparr>so_handler := Some 0\<rparr>"
  have e: "net_env (net_beside demo_net) (\<lambda>x. d_open (fst x)) demo_ev"
    by (intro net_env.intro fds_beside demo_fds.fd_table_axioms kept_ev.ev_watchers_axioms)
  have s: "so_handler ?s = Some 0" "io_active demo_ev (so_io ?s)" by (simp_all add: Socket_fd_def demo_ev_def)
  have "(\<forall>l. sc_getsockopt (net_beside demo_net) (so_fd ?s) SOL_SOCKET SO_ERROR hello \<noteq> Inr (0, l))" "0 \<le> so_fd ?s" "so_state ?s = Connecting"
    by (simp_all add: Socket_fd_def net_beside_def demo_net_def d_at_def hello_def blank_process_def)
  then show ?thesis using conjunct1 [OF tcp_client_unchecked [OF e s, of hello line_io 2 "one_block []"]] by blast
qed

end
