(* ===== verification/Spec2Isabelle.thy ===== *)
theory Spec2Isabelle
  imports Buffer_Correctness Buffer_Values Unix_Server File_Manager File_Copy Stream_Dispatch Echo_System Proxy_System Tcp_Client
begin

text \<open>
  A verification library for libxio, a C++ library of buffers, streams and sockets on top of libev.

  \<^bold>\<open>The program.\<close> A \<^verbatim>\<open>BufferRef\<close> is a view of memory; \<^verbatim>\<open>MutableBuffer\<close> appends to one, and its instances \<^verbatim>\<open>FixedBuffer\<close>
  and \<^verbatim>\<open>Buffer\<close> differ in how they get memory. A \<^verbatim>\<open>Stream\<close> is written to and read from: \<^verbatim>\<open>BufferStream\<close> keeps the bytes
  in a \<^verbatim>\<open>Buffer\<close>, \<^verbatim>\<open>Pipe\<close> in the kernel, \<^verbatim>\<open>ChunkedStream\<close> in a queue of other streams, \<^verbatim>\<open>FileStream\<close> in a file, and
  \<^verbatim>\<open>FilterStream\<close> transforms what it reads. A \<^verbatim>\<open>Socket\<close> is a stream with a connection state and an event handler. A
  \<^verbatim>\<open>ServerSocket\<close> accepts connections; \<^verbatim>\<open>InetServer\<close> and \<^verbatim>\<open>UnixServer\<close> create its descriptor or take it over from the
  service manager (\<^verbatim>\<open>sd-daemon\<close>) or from a parent process (an environment variable).

  \<^bold>\<open>Conventions.\<close> A byte is a \<open>char\<close>. A \<^verbatim>\<open>size_t\<close> is a \<open>nat\<close> with the wrap-around at \<open>2 ^ 64\<close> written out (\<open>sz_add\<close>,
  \<open>sz_sub\<close>); flags are 32-bit words; an \<^verbatim>\<open>int\<close> that can overflow is checked or reduced explicitly. Undefined
  behaviour and failed assertions are values of \<open>fault\<close>, so \<open>Inr\<close> is the claim of memory safety. Memory is an
  explicit heap whose allocator may refuse, move or keep a block at every request. The kernel, the event loop, the
  address functions of the C library, filters and callbacks are parameters; what the code relies on are the
  assumptions of locales, each interpreted by a reference instance that the witnesses use.

  \<^bold>\<open>Foundations.\<close>
  \<^item> \<open>Xio_Prelude\<close>: faults, sequencing, unsigned arithmetic, character classes and shared list lemmas.
  \<^item> \<open>C_Memory\<close>: the heap and the C functions on it (\<^verbatim>\<open>realloc\<close>, \<^verbatim>\<open>free\<close>, \<^verbatim>\<open>memcpy\<close>, \<^verbatim>\<open>memcmp\<close>, \<^verbatim>\<open>memchr\<close>); frame rules, collected in \<open>framed\<close>
    (what an operation with a given frame keeps) and \<open>live\<close> (the blocks of sound objects are allocated).
  \<^item> \<open>Kernel\<close>: system calls on pipes, locale \<open>posix_pipes\<close>, and the bounded kernel \<open>queue_sys\<close>.
  \<^item> \<open>Net_Kernel\<close>: system calls on sockets and processes, watchers of libev, locales \<open>fd_table\<close>, \<open>process_env\<close> and
    \<open>ev_watchers\<close>, and the C string functions of the network code.

  \<^bold>\<open>Buffers\<close> (\<^verbatim>\<open>include/xio/Buffer.h\<close>, \<^verbatim>\<open>lib/Buffer.cpp\<close>).
  \<^item> \<open>Buffer_Base\<close>: searching, comparing, cutting, parsing; the correct searches equal their specification on lists, and
    the cases that leave the view or wrap around are faults or wrong results that are proved as such.
  \<^item> \<open>Buffer_Dump\<close>: the hex dump; it stays in its array and can be read back.
  \<^item> \<open>Mutable_Buffer\<close>: appending, proved once for every \<^verbatim>\<open>ensure\<close> that keeps the locale \<open>ensure_contract\<close>.
  \<^item> \<open>Managed_Buffer\<close>: \<^verbatim>\<open>FixedBuffer\<close> and \<^verbatim>\<open>Buffer\<close>, both interpretations of that contract; capacity, copies, slices.
  \<^item> \<open>Buffer_Correctness\<close>: the properties of buffers as users see them.
  \<^item> \<open>Buffer_Values\<close>: the operators that compare and hash buffers, offsets and slices as values, and the conversions to
    floating point, over a \<^verbatim>\<open>strtod\<close> that keeps \<open>c_strtod\<close>; comparison decides equality of the bytes.

  \<^bold>\<open>Streams.\<close>
  \<^item> \<open>Byte_Stream\<close>: the contract of \<^verbatim>\<open>Stream\<close> (\<open>byte_stream\<close>), a first-in first-out queue, over sequences of calls.
  \<^item> \<open>Pipe_Stream\<close> (\<^verbatim>\<open>lib/Pipe.cpp\<close>), \<open>Buffer_Stream\<close> (\<^verbatim>\<open>lib/BufferStream.cpp\<close>): refinements of that contract, and the
    transfers between pipes, descriptors and buffers.
  \<^item> \<open>Chunked_Stream\<close> (\<^verbatim>\<open>lib/ChunkedStream.cpp\<close>, \<^verbatim>\<open>include/xio/StreamReader.h\<close>): order of bytes over chunks.
  \<^item> \<open>Filter_Stream\<close> (\<^verbatim>\<open>include/xio/Filter.h\<close>, \<^verbatim>\<open>lib/FilterStream.cpp\<close>): chains of filters that keep \<open>filter_contract\<close>.
  \<^item> \<open>Stream_Dispatch\<close> (\<^verbatim>\<open>include/xio/StreamVisitor.h\<close>, \<^verbatim>\<open>include/xio/StreamReader.h\<close>): the visitor and the \<^verbatim>\<open>accept\<close> of every class, and
    reading through the front chunk.
  \<^item> \<open>File_Stream\<close> (\<^verbatim>\<open>lib/FileStream.cpp\<close>, \<^verbatim>\<open>lib/File.cpp\<close>): descriptors and watches (\<open>watch_table\<close>).
  \<^item> \<open>File_Copy\<close> (\<^verbatim>\<open>examples/filter.cpp\<close>): the copying program, over files that keep \<open>file_io\<close>: it ends, and copies in order.
  \<^item> \<open>File_Manager\<close> (\<^verbatim>\<open>include/xio/FileMgr.h\<close>, \<^verbatim>\<open>lib/FileMgr.cpp\<close>): entity tags, the table of file types, and the cache.

  \<^bold>\<open>Network.\<close>
  \<^item> \<open>IP_Address\<close> (\<^verbatim>\<open>lib/IPAddress.cpp\<close>, \<^verbatim>\<open>include/xio/SocketSpec.h\<close>): well-formed addresses, equality and hashing.
  \<^item> \<open>Time_Span\<close> (\<^verbatim>\<open>include/xio/TimeSpan.h\<close>, \<^verbatim>\<open>include/xio/DateTime.h\<close>): parts and comparison within the range of \<^verbatim>\<open>int\<close>; HTTP
    dates over the parameters \<open>strptime\<close> and \<open>c_mktime\<close>.
  \<^item> \<open>Client_Socket\<close> (\<^verbatim>\<open>lib/Socket.cpp\<close>, \<^verbatim>\<open>lib/SocketDriver.cpp\<close>): the state machine as the relation \<open>socket_step\<close>, with
    the invariant that an open socket has an open descriptor; transfers; \<open>net_env\<close> joins kernel and event loop.
  \<^item> \<open>Sd_Daemon\<close> (\<^verbatim>\<open>support/sd-daemon/sd-daemon.c\<close>): which descriptors were passed, and of what kind they are.
  \<^item> \<open>Listen_Env\<close>: listeners printed to and read from the environment variable; a round trip.
  \<^item> \<open>Server_Socket\<close> (\<^verbatim>\<open>lib/ServerSocket.cpp\<close>): accepting; the contract \<open>listener_contract\<close> of opening and closing.
  \<^item> \<open>Inet_Server\<close>, \<open>Unix_Server\<close> (\<^verbatim>\<open>lib/InetServer.cpp\<close>, \<^verbatim>\<open>lib/UnixServer.cpp\<close>): interpretations of that contract on
    every path through \<^verbatim>\<open>open\<close>, and the hand-over of a listener.
  \<^item> \<open>Echo_Server\<close> (\<^verbatim>\<open>examples/echo-server.cpp\<close>): the client handler, over sockets that keep \<open>stream_socket\<close>: what is
    sent back is what was received, in order.
  \<^item> \<open>Echo_System\<close> (\<^verbatim>\<open>examples/echo-server.cpp\<close>): the whole server under any interleaving of the events of its connections, over \<open>connections\<close>,
    which joins kernel, event loop and streams: clients do not interfere, and nothing is left of those that are gone.
  \<^item> \<open>Tcp_Client\<close> (\<^verbatim>\<open>examples/tcp-client.cpp\<close>): the three handlers of an HTTP client under any sequence of events.
  \<^item> \<open>Splice_Proxy\<close> (\<^verbatim>\<open>examples/network-splicing.cpp\<close>): the loops that move a connection through a pipe, over peers that
    keep \<open>spliced\<close>: they end with the data and keep its order.
  \<^item> \<open>Proxy_System\<close> (\<^verbatim>\<open>examples/network-splicing.cpp\<close>): the proxy thread as a whole, over \<open>proxied\<close>, which joins pipes, peers and
    descriptors: it returns, forwards, and closes all it opened on every path.

  \<^bold>\<open>Termination.\<close> The loop of \<^verbatim>\<open>printf\<close> has fuel, a number of rounds; two are proved to be enough. Other loops over bytes or descriptors are
  total functions. Five loops depend on
  answers of the kernel or on other streams and are partial functions into \<open>option\<close>, where \<open>None\<close> is a run that does not
  end: \<open>Pipe_clear\<close>, \<open>Pipe_read_loop\<close>, \<open>cs_drain\<close>, \<open>pump\<close> and \<open>copy_loop\<close>; their theories prove when they return, and for the
  draining of a chunked stream into a pipe also when it does not. Sizes are bounded by \<open>MAX_REQ\<close> or \<open>2 ^ 63\<close>
  where the code stores them in a \<^verbatim>\<open>ssize_t\<close>; larger requests cannot be met by an address space.

  \<^bold>\<open>Not modelled.\<close>
  \<^item> Arithmetic of floating point: times are rational numbers, and the values of \<^verbatim>\<open>toDouble\<close> and \<^verbatim>\<open>toFloat\<close> are those of an arbitrary
    \<^verbatim>\<open>strtod\<close>. The printed form of a time span is disabled in the source.
  \<^item> \<^verbatim>\<open>vprintf\<close> of \<^verbatim>\<open>MutableBuffer\<close>, which no instance compiles; the formatter of \<^verbatim>\<open>printf\<close> itself is a parameter.
  \<^item> Operations that the source only declares: most of \<^verbatim>\<open>SocketSpec\<close>, and \<^verbatim>\<open>clear\<close> of \<^verbatim>\<open>BufferStream\<close>.
  \<^item> \<^verbatim>\<open>Api.h\<close> and \<^verbatim>\<open>Defines.h\<close>, which are macros; \<^verbatim>\<open>examples/xiocp.cpp\<close>, whose body is disabled.
  \<^item> Getters of \<^verbatim>\<open>File\<close> for fields that nothing sets; in \<^verbatim>\<open>FileMgr.cpp\<close> the inotify branches, which the file disables. The file reader and the
    tokenizer that it takes from another project are parameters.
  \<^item> The event loop of libev, of which the sequences of events of the examples are what it may do; the main programs of the echo server and
    of the splicing example, which start loops and threads, the request that the latter sends to itself; messages on the terminal, and the tests.
\<close>

end
